(* ===== verification/Prelude.thy ===== *)
theory Prelude
  imports Complex_Main "HOL-Library.Monad_Syntax" "HOL-Library.Product_Lexorder"
    "HOL-Library.Multiset" "HOL-Library.Code_Target_Nat"
begin

text \<open>
  Shared material of the development: the machine integers of the Rust code, its panics, and the
  generic list lemmas the components use.

  A Rust function that can panic (\<open>assert!\<close>, \<open>expect\<close>, \<open>unwrap\<close>, an explicit \<open>panic!\<close>, an
  arithmetic underflow in a checked build) is a function into \<open>option\<close>: \<open>None\<close> is the panic.
  Functions that return a Rust \<open>Result\<close> return a sum, \<open>Inl\<close> for the error.
\<close>

named_theorems panic_simps \<open>unfolding of the panic-checking combinators\<close>

subsection \<open>Process and thread identifiers\<close>

text \<open>\<open>DetPid\<close> and \<open>DetTid\<close> are one newtype over \<open>i32\<close> (detcore-model/src/pid.rs).\<close>

type_synonym det_pid = int
type_synonym det_tid = int

subsection \<open>Panics\<close>

definition assert_that :: "bool \<Rightarrow> unit option" where
  "assert_that b = (if b then Some () else None)"

lemma assert_that_bind [simp, panic_simps]:
  "(assert_that b \<bind> f) = (if b then f () else None)"
  by (simp add: assert_that_def)

lemma bind_SomeE:
  assumes "(x \<bind> f) = Some y"
  obtains z where "x = Some z" and "f z = Some y"
  using assms by (cases x) auto

subsection \<open>Unsigned arithmetic\<close>

text \<open>
  A \<open>u64\<close> is a natural number of at most \<open>u64_max\<close>. The operations are the ones of the Rust
  standard library: saturating, and checked (\<open>None\<close> on overflow). A \<open>u32\<close> is one of at most \<open>u32_max\<close>.
\<close>

definition u64_max :: nat where
  "u64_max = 18446744073709551615"

definition u32_max :: nat where
  "u32_max = 4294967295"

lemma u64_max_eq: "u64_max = 2 ^ 64 - 1"
  by (simp add: u64_max_def)

definition saturating_add :: "nat \<Rightarrow> nat \<Rightarrow> nat" where
  "saturating_add a b = min (a + b) u64_max"

definition saturating_sub :: "nat \<Rightarrow> nat \<Rightarrow> nat" where
  "saturating_sub a b = a - b"

definition checked_add :: "nat \<Rightarrow> nat \<Rightarrow> nat option" where
  "checked_add a b = (if a + b \<le> u64_max then Some (a + b) else None)"

definition checked_mul :: "nat \<Rightarrow> nat \<Rightarrow> nat option" where
  "checked_mul a b = (if a * b \<le> u64_max then Some (a * b) else None)"

text \<open>The operators of \<open>u64\<close> and \<open>u32\<close> in a checked build: an overflow or underflow panics.\<close>

definition add_u64 :: "nat \<Rightarrow> nat \<Rightarrow> nat option" where
  "add_u64 a b = (if a + b \<le> u64_max then Some (a + b) else None)"

definition add_u32 :: "nat \<Rightarrow> nat \<Rightarrow> nat option" where
  "add_u32 a b = (if a + b \<le> u32_max then Some (a + b) else None)"

definition mul_u64 :: "nat \<Rightarrow> nat \<Rightarrow> nat option" where
  "mul_u64 a b = (if a * b \<le> u64_max then Some (a * b) else None)"

definition sub_u64 :: "nat \<Rightarrow> nat \<Rightarrow> nat option" where
  "sub_u64 a b = (if b \<le> a then Some (a - b) else None)"

text \<open>\<open>1u64.checked_shl(n)\<close>: \<open>None\<close> from a shift by 64 on.\<close>

definition checked_shl_one :: "nat \<Rightarrow> nat option" where
  "checked_shl_one n = (if n < 64 then Some (2 ^ n) else None)"

lemma saturating_add_le [simp]: "saturating_add a b \<le> u64_max"
  by (simp add: saturating_add_def)

lemma saturating_add_exact: "a + b \<le> u64_max \<Longrightarrow> saturating_add a b = a + b"
  by (simp add: saturating_add_def)

lemma saturating_add_0 [simp]:
  "a \<le> u64_max \<Longrightarrow> saturating_add a 0 = a" "a \<le> u64_max \<Longrightarrow> saturating_add 0 a = a"
  by (simp_all add: saturating_add_def)

lemma saturating_add_commute: "saturating_add a b = saturating_add b a"
  by (simp add: saturating_add_def add.commute)

lemma saturating_add_assoc:
  "saturating_add (saturating_add a b) c = saturating_add a (saturating_add b c)"
  by (simp add: saturating_add_def)

lemma saturating_add_mono: "a \<le> u64_max \<Longrightarrow> a \<le> saturating_add a b"
  by (simp add: saturating_add_def)

lemma saturating_add_less_max: "saturating_add a b < u64_max \<Longrightarrow> saturating_add a b = a + b"
  by (simp add: saturating_add_def min_def split: if_splits)

subsection \<open>Lists\<close>

lemma filter_mset_eq_remove1:
  "distinct (map f xs) \<Longrightarrow> x \<in> set xs \<Longrightarrow>
   mset (filter (\<lambda>y. f y \<noteq> f x) xs) = mset xs - {#x#}"
proof (induction xs)
  case Nil
  then show ?case by simp
next
  case (Cons y ys)
  show ?case
  proof (cases "y = x")
    case True
    with Cons.prems have "\<forall>z \<in> set ys. f z \<noteq> f x" by (auto simp: image_iff)
    then have "filter (\<lambda>y. f y \<noteq> f x) ys = ys" by (simp add: filter_id_conv)
    with True show ?thesis by simp
  next
    case False
    with Cons.prems have "f y \<noteq> f x" "x \<in> set ys" by (auto simp: image_iff)
    with Cons show ?thesis by simp
  qed
qed

lemma find_Some_iff_distinct:
  "distinct (map f xs) \<Longrightarrow> x \<in> set xs \<Longrightarrow> find (\<lambda>y. f y = f x) xs = Some x"
  by (induction xs) (auto simp: image_iff)

lemma find_SomeD: "find P xs = Some x \<Longrightarrow> x \<in> set xs \<and> P x"
  by (induction xs) (auto split: if_splits)

lemma find_None_iff_all: "find P xs = None \<longleftrightarrow> (\<forall>x \<in> set xs. \<not> P x)"
  by (induction xs) auto

lemma distinct_map_filterI: "distinct (map f xs) \<Longrightarrow> distinct (map f (filter P xs))"
  by (induction xs) auto

lemma distinct_map_eqD:
  "distinct (map f xs) \<Longrightarrow> x \<in> set xs \<Longrightarrow> y \<in> set xs \<Longrightarrow> f x = f y \<Longrightarrow> x = y"
  by (meson distinct_map inj_onD)

lemma map_pair_eq:
  assumes "map f xs = map f ys" and "map g xs = map g ys"
  shows "map (\<lambda>x. (f x, g x)) xs = map (\<lambda>x. (f x, g x)) ys"
proof -
  have "map (\<lambda>x. (f x, g x)) zs = zip (map f zs) (map g zs)" for zs
    by (induction zs) auto
  then show ?thesis using assms by simp
qed

end
