(* ===== verification/BTree.thy ===== *)
theory BTree
  imports Prelude
begin

text \<open>
  \<open>BTreeMap\<close> and \<open>BTreeSet\<close> of the Rust standard library, as the components use them: a map is its
  list of entries in key order, a set is its list of elements in order. Iteration visits the list
  from the front, \<open>first_entry\<close> and \<open>pop_first\<close> look at its head. The interface of a finite map is
  the locale \<open>finite_map\<close>, interpreted on the sorted entry list.
\<close>

type_synonym ('k, 'v) btree_map = "('k \<times> 'v) list"
type_synonym 'a btree_set = "'a list"

definition bm_ok :: "('k::linorder, 'v) btree_map \<Rightarrow> bool" where
  "bm_ok m = sorted_wrt (<) (map fst m)"

definition bm_get :: "('k::linorder, 'v) btree_map \<Rightarrow> 'k \<Rightarrow> 'v option" where
  "bm_get m k = map_of m k"

fun bm_insert :: "'k::linorder \<Rightarrow> 'v \<Rightarrow> ('k, 'v) btree_map \<Rightarrow> ('k, 'v) btree_map" where
  "bm_insert k v [] = [(k, v)]"
| "bm_insert k v (e # m) =
     (if fst e < k then e # bm_insert k v m
      else if fst e = k then (k, v) # m
      else (k, v) # e # m)"

definition bm_remove :: "'k::linorder \<Rightarrow> ('k, 'v) btree_map \<Rightarrow> ('k, 'v) btree_map" where
  "bm_remove k m = filter (\<lambda>e. fst e \<noteq> k) m"

fun bs_insert :: "'a::linorder \<Rightarrow> 'a btree_set \<Rightarrow> 'a btree_set" where
  "bs_insert x [] = [x]"
| "bs_insert x (y # ys) =
     (if y < x then y # bs_insert x ys else if y = x then y # ys else x # y # ys)"

definition bs_remove :: "'a::linorder \<Rightarrow> 'a btree_set \<Rightarrow> 'a btree_set" where
  "bs_remove x ys = filter (\<lambda>y. y \<noteq> x) ys"

definition bs_ok :: "'a::linorder btree_set \<Rightarrow> bool" where
  "bs_ok ys = sorted_wrt (<) ys"

subsection \<open>The interface of a finite map\<close>

locale finite_map =
  fixes invar :: "'m \<Rightarrow> bool"
    and empty :: "'m"
    and get :: "'m \<Rightarrow> 'k \<Rightarrow> 'v option"
    and insert :: "'k \<Rightarrow> 'v \<Rightarrow> 'm \<Rightarrow> 'm"
    and remove :: "'k \<Rightarrow> 'm \<Rightarrow> 'm"
  assumes invar_empty: "invar empty"
    and invar_insert: "invar m \<Longrightarrow> invar (insert k v m)"
    and invar_remove: "invar m \<Longrightarrow> invar (remove k m)"
    and get_empty: "get empty k = None"
    and get_insert: "invar m \<Longrightarrow> get (insert k v m) = (get m)(k \<mapsto> v)"
    and get_remove: "invar m \<Longrightarrow> get (remove k m) = (get m)(k := None)"
    and get_ext: "invar m \<Longrightarrow> invar m' \<Longrightarrow> get m = get m' \<Longrightarrow> m = m'"
begin

lemma remove_insert_fresh:
  assumes "invar m" and "get m k = None"
  shows "remove k (insert k v m) = m"
proof (rule get_ext)
  show "get (remove k (insert k v m)) = get m"
    using assms by (simp add: get_insert get_remove invar_insert fun_upd_idem)
qed (use assms in \<open>simp_all add: invar_insert invar_remove\<close>)

lemma insert_remove_present:
  assumes "invar m" and "get m k = Some v"
  shows "insert k v (remove k m) = m"
proof (rule get_ext)
  show "get (insert k v (remove k m)) = get m"
    using assms by (simp add: get_insert get_remove invar_remove fun_upd_idem)
qed (use assms in \<open>simp_all add: invar_insert invar_remove\<close>)

lemma insert_commute:
  assumes "invar m" and "k \<noteq> k'"
  shows "insert k v (insert k' v' m) = insert k' v' (insert k v m)"
proof (rule get_ext)
  show "get (insert k v (insert k' v' m)) = get (insert k' v' (insert k v m))"
    using assms by (simp add: get_insert invar_insert fun_upd_twist)
qed (use assms in \<open>simp_all add: invar_insert\<close>)

lemma remove_absent:
  assumes "invar m" and "get m k = None"
  shows "remove k m = m"
proof (rule get_ext)
  show "get (remove k m) = get m"
    using assms by (simp add: get_remove fun_upd_idem)
qed (use assms in \<open>simp_all add: invar_remove\<close>)

end

subsection \<open>The sorted entry list implements the interface\<close>

lemma bm_okD_distinct: "bm_ok m \<Longrightarrow> distinct (map fst m)"
  by (simp add: bm_ok_def strict_sorted_iff)

lemma bm_ok_Nil [simp]: "bm_ok []"
  by (simp add: bm_ok_def)

lemma bm_ok_Cons: "bm_ok (e # m) \<longleftrightarrow> (\<forall>e' \<in> set m. fst e < fst e') \<and> bm_ok m"
  by (auto simp: bm_ok_def)

lemma set_bm_insert:
  "bm_ok m \<Longrightarrow> set (bm_insert k v m) = Set.insert (k, v) {e \<in> set m. fst e \<noteq> k}"
  by (induction m) (auto simp: bm_ok_Cons)

lemma bm_insert_ok: "bm_ok m \<Longrightarrow> bm_ok (bm_insert k v m)"
proof (induction m)
  case Nil
  then show ?case by (simp add: bm_ok_def)
next
  case (Cons e m)
  then show ?case by (auto simp: bm_ok_Cons set_bm_insert)
qed

lemma bm_remove_ok: "bm_ok m \<Longrightarrow> bm_ok (bm_remove k m)"
  by (induction m) (auto simp: bm_ok_Cons bm_remove_def)

lemma bm_filter_ok: "bm_ok m \<Longrightarrow> bm_ok (filter P m)"
  by (induction m) (auto simp: bm_ok_Cons)

lemma set_bm_remove [simp]: "set (bm_remove k m) = {e \<in> set m. fst e \<noteq> k}"
  by (auto simp: bm_remove_def)

lemma set_bm_remove_entry:
  assumes "bm_ok m" and "e \<in> set m"
  shows "set (bm_remove (fst e) m) = set m - {e}"
  using assms distinct_map_eqD [OF bm_okD_distinct [OF assms(1)]] by (cases e) auto

lemma bm_get_iff: "bm_ok m \<Longrightarrow> bm_get m k = Some v \<longleftrightarrow> (k, v) \<in> set m"
  by (simp add: bm_get_def bm_okD_distinct)

lemma bm_get_None_iff: "bm_get m k = None \<longleftrightarrow> k \<notin> fst ` set m"
  by (simp add: bm_get_def map_of_eq_None_iff)

lemma set_bm_insert_fresh:
  assumes "bm_ok m" and "bm_get m k = None"
  shows "set (bm_insert k v m) = Set.insert (k, v) (set m)"
proof -
  have "{e \<in> set m. fst e \<noteq> k} = set m"
    using assms(2) by (force simp: bm_get_None_iff)
  then show ?thesis using assms(1) by (simp add: set_bm_insert)
qed

lemma bm_get_insert: "bm_ok m \<Longrightarrow> bm_get (bm_insert k v m) = (bm_get m)(k \<mapsto> v)"
proof (rule ext)
  fix x
  assume ok: "bm_ok m"
  show "bm_get (bm_insert k v m) x = ((bm_get m)(k \<mapsto> v)) x"
    using ok by (induction m) (auto simp: bm_get_def bm_ok_Cons)
qed

lemma bm_get_remove: "bm_get (bm_remove k m) = (bm_get m)(k := None)"
proof (rule ext)
  fix x
  show "bm_get (bm_remove k m) x = ((bm_get m)(k := None)) x"
    by (induction m) (auto simp: bm_get_def bm_remove_def)
qed

lemma bm_ok_set_eq:
  assumes "bm_ok m" and "bm_ok m'" and "set m = set m'"
  shows "m = m'"
proof -
  have "map fst m = map fst m'"
    using assms by (auto simp: bm_ok_def intro!: strict_sorted_equal)
  with assms show ?thesis
    by (simp add: list_eq_iff_nth_eq) (metis (no_types, lifting) bm_okD_distinct distinct_map_eqD nth_map nth_mem)
qed

lemma bm_ok_ext:
  assumes "bm_ok m" and "bm_ok m'" and "bm_get m = bm_get m'"
  shows "m = m'"
proof (rule bm_ok_set_eq [OF assms(1,2)], rule set_eqI)
  fix e
  show "e \<in> set m \<longleftrightarrow> e \<in> set m'"
    using bm_get_iff [OF assms(1), of "fst e" "snd e"] bm_get_iff [OF assms(2), of "fst e" "snd e"]
      assms(3) by simp
qed

interpretation bm: finite_map bm_ok "[]" bm_get bm_insert bm_remove
proof unfold_locales
  show "\<And>m m'. bm_ok m \<Longrightarrow> bm_ok m' \<Longrightarrow> bm_get m = bm_get m' \<Longrightarrow> m = m'"
    by (rule bm_ok_ext)
qed (simp_all add: bm_insert_ok bm_remove_ok bm_get_insert bm_get_remove bm_get_def)

end
