(* ===== verification/Run_Queue.thy ===== *)
theory Run_Queue
  imports BTree
begin

text \<open>
  The run queue of the deterministic scheduler (detcore/src/scheduler/runqueue.rs): its data, every
  operation, and the behaviour of each operation on its own. The invariant of the queue and what
  holds along whole histories are in the theory \<open>Run_Queue_Inv\<close>.

  Turns are \<open>i64\<close> in the code and \<open>int\<close> here: a turn counter moves by one per queueing operation,
  so it stays within the width for any run of fewer than \<open>2 ^ 61\<close> operations, and the invariant
  carries that bound where the code depends on it (\<open>RUN_TIME_TURNS\<close>). The random number generator
  is third-party code: an argument \<open>R\<close> of the operations that draw from it.
\<close>

subsection \<open>Priorities\<close>

type_synonym priority = nat

definition EAGER_IO_REPOLL_PRIORITY :: priority where
  "EAGER_IO_REPOLL_PRIORITY = 0"

definition FIRST_PRIORITY :: priority where
  "FIRST_PRIORITY = EAGER_IO_REPOLL_PRIORITY + 1"

definition LAST_PRIORITY :: priority where
  "LAST_PRIORITY = 10000"

definition REPLAY_FOREGROUND_PRIORITY :: priority where
  "REPLAY_FOREGROUND_PRIORITY = FIRST_PRIORITY"

definition REPLAY_DEFERRED_PRIORITY :: priority where
  "REPLAY_DEFERRED_PRIORITY = LAST_PRIORITY - 1"

definition DEFAULT_PRIORITY :: priority where
  "DEFAULT_PRIORITY = 1000"

lemmas priority_defs = EAGER_IO_REPOLL_PRIORITY_def FIRST_PRIORITY_def LAST_PRIORITY_def
  REPLAY_FOREGROUND_PRIORITY_def REPLAY_DEFERRED_PRIORITY_def DEFAULT_PRIORITY_def

definition is_ordinary_priority :: "priority \<Rightarrow> bool" where
  "is_ordinary_priority prio \<longleftrightarrow> FIRST_PRIORITY \<le> prio \<and> prio \<le> LAST_PRIORITY"

definition entropy_to_priority :: "nat \<Rightarrow> priority" where
  "entropy_to_priority entropy =
     (let range = LAST_PRIORITY - FIRST_PRIORITY + 1;
          offset = entropy mod range
      in FIRST_PRIORITY + offset)"

definition PLAIN_YIELDS_BEFORE_EPOCH :: nat where
  "PLAIN_YIELDS_BEFORE_EPOCH = 1"

definition RUN_TIME_TURNS :: int where
  "RUN_TIME_TURNS = 2 ^ 61"

definition POLLING_UPGRADE_INTERVAL :: nat where
  "POLLING_UPGRADE_INTERVAL = 200"

subsection \<open>Queue keys: priority first, then round-robin turn\<close>

datatype prioritized_order = PrioritizedOrder (po_priority: priority) (po_turn: int)

instantiation prioritized_order :: linorder
begin

definition less_eq_prioritized_order :: "prioritized_order \<Rightarrow> prioritized_order \<Rightarrow> bool" where
  "less_eq_prioritized_order a b \<longleftrightarrow>
     po_priority a < po_priority b \<or> (po_priority a = po_priority b \<and> po_turn a \<le> po_turn b)"

definition less_prioritized_order :: "prioritized_order \<Rightarrow> prioritized_order \<Rightarrow> bool" where
  "less_prioritized_order a b \<longleftrightarrow>
     po_priority a < po_priority b \<or> (po_priority a = po_priority b \<and> po_turn a < po_turn b)"

instance
  by standard
    (auto simp: less_eq_prioritized_order_def less_prioritized_order_def prioritized_order.expand)

end

subsection \<open>The queue\<close>

datatype poller_restore = Restored | NotBackedOff | NotQueued

datatype sched_heuristic = SchedNone | ConnectBind | SchedRandom | StickyRandom

definition is_priority_ordered :: "sched_heuristic \<Rightarrow> bool" where
  "is_priority_ordered h \<longleftrightarrow> h = SchedNone \<or> h = ConnectBind"

record queue_value =
  qv_tid :: det_tid
  poll_upgrade :: "priority option"
  deadline_restored :: bool
  upgraded_in_place :: bool

definition is_non_polling :: "queue_value \<Rightarrow> bool" where
  "is_non_polling v \<longleftrightarrow> poll_upgrade v = None \<and> \<not> deadline_restored v"

definition is_fully_backed_off_poller :: "queue_value \<Rightarrow> priority \<Rightarrow> bool" where
  "is_fully_backed_off_poller v prio \<longleftrightarrow> poll_upgrade v \<noteq> None \<and> LAST_PRIORITY \<le> prio"

definition counts_as_poller :: "queue_value \<Rightarrow> priority \<Rightarrow> bool" where
  "counts_as_poller v prio \<longleftrightarrow> is_fully_backed_off_poller v prio \<or> deadline_restored v"

record suspended_entry =
  se_key :: prioritized_order
  se_value :: queue_value
  persistent_priority :: priority

type_synonym queue_map = "(prioritized_order, queue_value) btree_map"

record 'g run_queue =
  queue :: queue_map
  last_back_turn :: int
  last_front_turn :: int
  poll_upgrades :: nat
  tentative_selection :: "det_tid option"
  tentative_selection_is_exact :: bool
  yielded_skip :: "det_tid option"
  yield_epoch :: "det_tid set option"
  yield_streaks :: "det_tid \<rightharpoonup> nat"
  queued_by_yield :: "det_tid set"
  sched_strategy :: sched_heuristic
  prng :: 'g
  sticky_random_param :: real
  sticky_random_selection :: "det_tid option"

text \<open>
  The generator interface the queue uses: \<open>rng_index R n g\<close> is \<open>random_range(0..n)\<close> on indices and
  \<open>rng_unit R g\<close> is \<open>random_range(0.0..1.0)\<close> on floats.
\<close>

record 'g rng =
  rng_index :: "nat \<Rightarrow> 'g \<Rightarrow> nat \<times> 'g"
  rng_unit :: "'g \<Rightarrow> real \<times> 'g"

text \<open>What \<open>rand\<close> documents of a range draw: the value lies in the half-open range.\<close>

definition rng_in_range :: "'g rng \<Rightarrow> bool" where
  "rng_in_range R \<longleftrightarrow> (\<forall>n g. 0 < n \<longrightarrow> fst (rng_index R n g) < n)"

definition new_run_queue :: "sched_heuristic \<Rightarrow> (nat \<Rightarrow> 'g) \<Rightarrow> nat \<Rightarrow> real \<Rightarrow> 'g run_queue" where
  "new_run_queue ss seed_from_u64 seed srp =
     \<lparr>queue = [], last_back_turn = 0, last_front_turn = 0, poll_upgrades = 0,
      tentative_selection = None, tentative_selection_is_exact = False, yielded_skip = None,
      yield_epoch = None, yield_streaks = Map.empty, queued_by_yield = {},
      sched_strategy = ss, prng = seed_from_u64 seed, sticky_random_param = srp,
      sticky_random_selection = None\<rparr>"

subsection \<open>Read-only queries\<close>

definition tids :: "queue_map \<Rightarrow> det_tid list" where
  "tids m = map (\<lambda>e. qv_tid (snd e)) m"

definition contains_tid :: "'g run_queue \<Rightarrow> det_tid \<Rightarrow> bool" where
  "contains_tid q tid \<longleftrightarrow> tid \<in> set (tids (queue q))"

definition is_empty_rq :: "'g run_queue \<Rightarrow> bool" where
  "is_empty_rq q \<longleftrightarrow> queue q = []"

definition len_rq :: "'g run_queue \<Rightarrow> nat" where
  "len_rq q = length (queue q)"

definition has_runnable_besides_unless ::
  "'g run_queue \<Rightarrow> det_tid \<Rightarrow> (det_tid \<Rightarrow> bool) \<Rightarrow> bool" where
  "has_runnable_besides_unless q exclude passed_over \<longleftrightarrow>
     list_ex (\<lambda>(k, v). qv_tid v \<noteq> exclude \<and> \<not> counts_as_poller v (po_priority k)
       \<and> \<not> passed_over (qv_tid v)) (queue q)"

definition has_runnable_besides :: "'g run_queue \<Rightarrow> det_tid \<Rightarrow> bool" where
  "has_runnable_besides q exclude \<longleftrightarrow>
     list_ex (\<lambda>(k, v). qv_tid v \<noteq> exclude \<and> \<not> counts_as_poller v (po_priority k)) (queue q)"

definition runnable_besides :: "'g run_queue \<Rightarrow> det_tid \<Rightarrow> det_tid set" where
  "runnable_besides q exclude =
     set (tids (filter (\<lambda>(k, v). qv_tid v \<noteq> exclude \<and> \<not> counts_as_poller v (po_priority k))
       (queue q)))"

definition holds_work :: "'g run_queue \<Rightarrow> det_tid \<Rightarrow> bool" where
  "holds_work q tid \<longleftrightarrow>
     list_ex (\<lambda>(k, v). qv_tid v = tid \<and> \<not> counts_as_poller v (po_priority k)) (queue q)"

definition only_pollers :: "'g run_queue \<Rightarrow> bool" where
  "only_pollers q \<longleftrightarrow> list_all (\<lambda>(k, v). counts_as_poller v (po_priority k)) (queue q)"

definition only_pollers_or_yielders :: "'g run_queue \<Rightarrow> bool" where
  "only_pollers_or_yielders q \<longleftrightarrow>
     list_all (\<lambda>(k, v). counts_as_poller v (po_priority k) \<or> qv_tid v \<in> queued_by_yield q) (queue q)"

definition tentative_pop_in_progress :: "'g run_queue \<Rightarrow> bool" where
  "tentative_pop_in_progress q \<longleftrightarrow> tentative_selection q \<noteq> None"

definition contains_non_polling_tid :: "'g run_queue \<Rightarrow> det_tid \<Rightarrow> bool" where
  "contains_non_polling_tid q tid \<longleftrightarrow>
     list_ex (\<lambda>(_, v). qv_tid v = tid \<and> is_non_polling v) (queue q)"

definition can_be_passed_over :: "'g run_queue \<Rightarrow> det_tid \<Rightarrow> bool" where
  "can_be_passed_over q tid \<longleftrightarrow>
     list_ex (\<lambda>(_, v). qv_tid v = tid \<and> (is_non_polling v \<or> upgraded_in_place v)) (queue q)"

subsection \<open>Poll upgrades\<close>

definition turn_counter :: "'g run_queue \<Rightarrow> nat option" where
  "turn_counter q = do {
     assert_that (0 \<le> last_back_turn q);
     assert_that (last_front_turn q \<le> 0);
     Some (nat (last_back_turn q) + nat \<bar>last_front_turn q\<bar>)
   }"

definition pending_upgrades :: "queue_map \<Rightarrow> (prioritized_order \<times> priority) list" where
  "pending_upgrades m =
     List.map_filter (\<lambda>(k, v). map_option (\<lambda>upgd. (k, upgd)) (poll_upgrade v)) m"

fun upgrade_loop ::
  "(prioritized_order \<times> priority) list \<Rightarrow> queue_map \<Rightarrow> det_tid list \<Rightarrow> (queue_map \<times> det_tid list) option"
where
  "upgrade_loop [] m restored = Some (m, restored)"
| "upgrade_loop ((key, upgrade_prio) # rest) m restored =
     (if LAST_PRIORITY \<le> upgrade_prio then do {
        v \<leftarrow> bm_get m key;
        upgrade_loop rest (bm_insert key (v\<lparr>upgraded_in_place := True\<rparr>) m) restored
      } else do {
        qval \<leftarrow> bm_get m key;
        let new_key = PrioritizedOrder upgrade_prio (po_turn key);
        let m' = bm_remove key m;
        assert_that (bm_get m' new_key = None);
        upgrade_loop rest (bm_insert new_key (qval\<lparr>poll_upgrade := None\<rparr>) m') (restored @ [qv_tid qval])
      })"

definition settle_restored :: "prioritized_order \<times> queue_value \<Rightarrow> prioritized_order \<times> queue_value" where
  "settle_restored e = (case e of (key, value) \<Rightarrow>
     (key,
      if po_priority key < LAST_PRIORITY then value\<lparr>deadline_restored := False\<rparr>
      else if deadline_restored value then value\<lparr>upgraded_in_place := True\<rparr>
      else value))"

definition do_poll_upgrade :: "'g run_queue \<Rightarrow> (det_tid list \<times> 'g run_queue) option" where
  "do_poll_upgrade q = do {
     (m, restored) \<leftarrow> upgrade_loop (pending_upgrades (queue q)) (queue q) [];
     Some (restored, q\<lparr>poll_upgrades := poll_upgrades q + 1, queue := map settle_restored m\<rparr>)
   }"

definition check_poll_upgrade :: "'g run_queue \<Rightarrow> 'g run_queue option" where
  "check_poll_upgrade q = do {
     n \<leftarrow> turn_counter q;
     if n mod POLLING_UPGRADE_INTERVAL = 0 then map_option snd (do_poll_upgrade q) else Some q
   }"

definition upgrade_pollers :: "'g run_queue \<Rightarrow> (det_tid list \<times> 'g run_queue) option" where
  "upgrade_pollers q = do {
     assert_that (tentative_selection q = None);
     do_poll_upgrade q
   }"

subsection \<open>Queueing operations\<close>

definition push_safety_check :: "'g run_queue \<Rightarrow> det_tid \<Rightarrow> unit option" where
  "push_safety_check q tid = assert_that (\<not> contains_tid q tid)"

definition push_inner ::
  "'g run_queue \<Rightarrow> det_tid \<Rightarrow> prioritized_order \<Rightarrow> priority option
   \<Rightarrow> (prioritized_order \<times> 'g run_queue) option" where
  "push_inner q tid prio upgrade = do {
     let qval = \<lparr>qv_tid = tid, poll_upgrade = upgrade, deadline_restored = False,
                 upgraded_in_place = False\<rparr>;
     assert_that (bm_get (queue q) prio = None);
     q' \<leftarrow> check_poll_upgrade (q\<lparr>queue := bm_insert prio qval (queue q)\<rparr>);
     Some (prio, q')
   }"

definition push_back_inner ::
  "'g run_queue \<Rightarrow> det_tid \<Rightarrow> priority \<Rightarrow> priority option
   \<Rightarrow> (prioritized_order \<times> 'g run_queue) option" where
  "push_back_inner q tid prio upgrade =
     (let turn = last_back_turn q + 1
      in push_inner (q\<lparr>last_back_turn := turn\<rparr>) tid (PrioritizedOrder prio turn) upgrade)"

definition push_front_inner ::
  "'g run_queue \<Rightarrow> det_tid \<Rightarrow> priority \<Rightarrow> priority option
   \<Rightarrow> (prioritized_order \<times> 'g run_queue) option" where
  "push_front_inner q tid prio upgrade =
     (let turn = last_front_turn q - 1
      in push_inner (q\<lparr>last_front_turn := turn\<rparr>) tid (PrioritizedOrder prio turn) upgrade)"

definition push_back ::
  "'g run_queue \<Rightarrow> det_tid \<Rightarrow> priority \<Rightarrow> (prioritized_order \<times> 'g run_queue) option" where
  "push_back q tid prio = do {
     assert_that (tentative_selection q = None);
     push_safety_check q tid;
     assert_that (is_ordinary_priority prio);
     push_back_inner q tid prio None
   }"

definition push_yielded ::
  "'g run_queue \<Rightarrow> det_tid \<Rightarrow> priority \<Rightarrow> (prioritized_order \<times> 'g run_queue) option" where
  "push_yielded q tid prio = do {
     assert_that (yielded_skip q = None);
     push_back (q\<lparr>yielded_skip := Some tid, queued_by_yield := insert tid (queued_by_yield q)\<rparr>)
       tid prio
   }"

definition count_yield :: "'g run_queue \<Rightarrow> det_tid \<Rightarrow> 'g run_queue option" where
  "count_yield q tid =
     (if list_ex (\<lambda>e. qv_tid (snd e) \<noteq> tid) (queue q) then do {
        streak \<leftarrow> add_u32 (case yield_streaks q tid of None \<Rightarrow> 0 | Some n \<Rightarrow> n) 1;
        let q' = q\<lparr>yield_streaks := (yield_streaks q)(tid \<mapsto> streak)\<rparr>;
        Some (if PLAIN_YIELDS_BEFORE_EPOCH < streak
          then q'\<lparr>yield_epoch := Some (insert tid (case yield_epoch q of None \<Rightarrow> {} | Some ep \<Rightarrow> ep))\<rparr>
          else q')
      } else Some q)"

definition push_yielded_into_epoch ::
  "'g run_queue \<Rightarrow> det_tid \<Rightarrow> priority \<Rightarrow> (prioritized_order \<times> 'g run_queue) option" where
  "push_yielded_into_epoch q tid prio = do {
     q' \<leftarrow> count_yield q tid;
     push_back (q'\<lparr>queued_by_yield := insert tid (queued_by_yield q')\<rparr>) tid prio
   }"

definition backoff_priority :: "priority \<Rightarrow> nat \<Rightarrow> priority" where
  "backoff_priority normal_priority poll_attempt =
     min (case checked_shl_one poll_attempt \<bind> (\<lambda>f. checked_mul f normal_priority) of
            None \<Rightarrow> u64_max | Some p \<Rightarrow> p)
       LAST_PRIORITY"

definition push_poller ::
  "'g run_queue \<Rightarrow> det_tid \<Rightarrow> priority \<Rightarrow> nat \<Rightarrow> (prioritized_order \<times> 'g run_queue) option" where
  "push_poller q tid normal_priority poll_attempt = do {
     assert_that (tentative_selection q = None);
     push_safety_check q tid;
     push_back_inner q tid (backoff_priority normal_priority poll_attempt) (Some normal_priority)
   }"

definition push_front ::
  "'g run_queue \<Rightarrow> det_tid \<Rightarrow> priority \<Rightarrow> (prioritized_order \<times> 'g run_queue) option" where
  "push_front q tid prio = do {
     assert_that (tentative_selection q = None);
     push_safety_check q tid;
     assert_that (is_ordinary_priority prio);
     push_front_inner q tid prio None
   }"

definition push_eager_io_repoll ::
  "'g run_queue \<Rightarrow> det_tid \<Rightarrow> (prioritized_order \<times> 'g run_queue) option" where
  "push_eager_io_repoll q tid = do {
     assert_that (tentative_selection q = None);
     push_safety_check q tid;
     push_front_inner q tid EAGER_IO_REPOLL_PRIORITY None
   }"

definition find_tid :: "queue_map \<Rightarrow> det_tid \<Rightarrow> (prioritized_order \<times> queue_value) option" where
  "find_tid m tid = find (\<lambda>e. qv_tid (snd e) = tid) m"

definition restore_poller_priority ::
  "'g run_queue \<Rightarrow> det_tid \<Rightarrow> (poller_restore \<times> 'g run_queue) option" where
  "restore_poller_priority q tid = do {
     assert_that (tentative_selection q = None);
     case find_tid (queue q) tid of
       None \<Rightarrow> Some (NotQueued, q)
     | Some (key, value) \<Rightarrow>
         (case poll_upgrade value of
            None \<Rightarrow> Some (NotBackedOff, q)
          | Some normal_priority \<Rightarrow> do {
              let m = bm_remove key (queue q);
              let value' = value\<lparr>poll_upgrade := None,
                                 deadline_restored := LAST_PRIORITY \<le> po_priority key\<rparr>;
              let turn = last_back_turn q + 1;
              let restored = PrioritizedOrder normal_priority turn;
              assert_that (bm_get m restored = None);
              q' \<leftarrow> check_poll_upgrade
                     (q\<lparr>queue := bm_insert restored value' m, last_back_turn := turn\<rparr>);
              Some (Restored, q')
            })
   }"

subsection \<open>Suspension\<close>

text \<open>
  The loop that looks for a free turn: it ends because the keys at or above the candidate are
  finitely many, and each step leaves one behind.
\<close>

function next_free :: "queue_map \<Rightarrow> prioritized_order \<Rightarrow> prioritized_order" where
  "next_free m key =
     (if bm_get m key \<noteq> None then next_free m (PrioritizedOrder (po_priority key) (po_turn key + 1))
      else key)"
  by pat_completeness auto
termination
proof (relation "measure (\<lambda>(m, key). card {k \<in> fst ` set m. key \<le> k})", simp)
  fix m :: queue_map and key
  assume "bm_get m key \<noteq> None"
  then have mem: "key \<in> fst ` set m" by (simp add: bm_get_None_iff)
  let ?next = "PrioritizedOrder (po_priority key) (po_turn key + 1)"
  have "{k \<in> fst ` set m. ?next \<le> k} \<subset> {k \<in> fst ` set m. key \<le> k}"
    using mem by (fastforce simp: less_eq_prioritized_order_def)
  then have "card {k \<in> fst ` set m. ?next \<le> k} < card {k \<in> fst ` set m. key \<le> k}"
    by (intro psubset_card_mono) simp_all
  then show "((m, ?next), m, key) \<in> measure (\<lambda>(m, key). card {k \<in> fst ` set m. key \<le> k})"
    by simp
qed

declare next_free.simps [simp del]

definition suspend ::
  "'g run_queue \<Rightarrow> det_tid \<Rightarrow> priority \<Rightarrow> (suspended_entry option \<times> 'g run_queue) option" where
  "suspend q tid prio = do {
     assert_that (tentative_selection q = None);
     case find_tid (queue q) tid of
       None \<Rightarrow> Some (None, q)
     | Some (key, value) \<Rightarrow>
         Some (Some \<lparr>se_key = key, se_value = value, persistent_priority = prio\<rparr>,
               q\<lparr>queue := bm_remove key (queue q)\<rparr>)
   }"

definition restore :: "'g run_queue \<Rightarrow> suspended_entry \<Rightarrow> priority \<Rightarrow> 'g run_queue option" where
  "restore q entry current_priority = do {
     assert_that (tentative_selection q = None);
     assert_that (\<not> contains_tid q (qv_tid (se_value entry)));
     let (key, value) =
       (if persistent_priority entry \<noteq> current_priority
        then (PrioritizedOrder current_priority (po_turn (se_key entry)),
              if poll_upgrade (se_value entry) \<noteq> None
              then (se_value entry)\<lparr>poll_upgrade := Some current_priority\<rparr> else se_value entry)
        else (se_key entry, se_value entry));
     let key' = (if RUN_TIME_TURNS \<le> po_turn key then next_free (queue q) key else key);
     assert_that (bm_get (queue q) key' = None);
     Some (q\<lparr>queue := bm_insert key' value (queue q)\<rparr>)
   }"

subsection \<open>Ordering by run time\<close>

definition in_round_robin_order :: "prioritized_order \<Rightarrow> queue_value \<Rightarrow> bool" where
  "in_round_robin_order key value \<longleftrightarrow>
     0 \<le> po_turn key \<and> po_priority key \<noteq> EAGER_IO_REPOLL_PRIORITY \<and> poll_upgrade value = None
     \<and> \<not> deadline_restored value"

definition round_robin_tids :: "'g run_queue \<Rightarrow> det_tid list" where
  "round_robin_tids q = sort (tids (filter (\<lambda>(k, v). in_round_robin_order k v) (queue q)))"

type_synonym run_time_key = "nat \<times> nat"

definition run_time_turn :: "nat \<Rightarrow> int" where
  "run_time_turn run_time =
     RUN_TIME_TURNS + min (if run_time < 2 ^ 63 then int run_time else 2 ^ 63 - 1) RUN_TIME_TURNS"

fun order_loop ::
  "(priority \<times> run_time_key \<times> queue_value) list \<Rightarrow> prioritized_order option \<Rightarrow> queue_map \<Rightarrow> queue_map option"
where
  "order_loop [] prev m = Some m"
| "order_loop ((prio, skey, value) # moved) prev m =
     (let turn = (case prev of
                    Some previous \<Rightarrow>
                      if po_priority previous = prio
                      then max (run_time_turn (fst skey)) (po_turn previous + 1)
                      else run_time_turn (fst skey)
                  | None \<Rightarrow> run_time_turn (fst skey));
          key = next_free m (PrioritizedOrder prio turn)
      in do {
        assert_that (bm_get m key = None);
        order_loop moved (Some key) (bm_insert key value m)
      })"

definition run_time_picked ::
  "(det_tid \<rightharpoonup> run_time_key) \<Rightarrow> prioritized_order \<times> queue_value \<Rightarrow> bool" where
  "run_time_picked wanted e \<longleftrightarrow>
     wanted (qv_tid (snd e)) \<noteq> None \<and> in_round_robin_order (fst e) (snd e)"

definition run_time_sort_key ::
  "(det_tid \<rightharpoonup> run_time_key) \<Rightarrow> prioritized_order \<times> queue_value \<Rightarrow> priority \<times> run_time_key \<times> det_tid"
where
  "run_time_sort_key wanted e =
     (po_priority (fst e), the (wanted (qv_tid (snd e))), qv_tid (snd e))"

definition order_by_run_time ::
  "'g run_queue \<Rightarrow> (det_tid \<times> run_time_key) list \<Rightarrow> 'g run_queue option" where
  "order_by_run_time q order = do {
     assert_that (tentative_selection q = None);
     let wanted = map_of (rev order);
     let picked = sort_key (run_time_sort_key wanted) (filter (run_time_picked wanted) (queue q));
     let moved = map (\<lambda>e. (po_priority (fst e), the (wanted (qv_tid (snd e))), snd e)) picked;
     m \<leftarrow> order_loop moved None (filter (\<lambda>e. \<not> run_time_picked wanted e) (queue q));
     Some (q\<lparr>queue := m\<rparr>)
   }"

subsection \<open>Removal, selection and commit\<close>

definition remove_tid :: "'g run_queue \<Rightarrow> det_tid \<Rightarrow> (bool \<times> 'g run_queue) option" where
  "remove_tid q tid = do {
     assert_that (tentative_selection q = None);
     let kept_all = list_all (\<lambda>e. qv_tid (snd e) \<noteq> tid) (queue q);
     Some (\<not> kept_all,
       q\<lparr>queue := filter (\<lambda>e. qv_tid (snd e) \<noteq> tid) (queue q),
         yielded_skip := (if yielded_skip q = Some tid then None else yielded_skip q),
         yield_epoch := map_option (\<lambda>epoch. epoch - {tid}) (yield_epoch q),
         yield_streaks := (yield_streaks q)(tid := None),
         queued_by_yield := queued_by_yield q - {tid},
         sticky_random_selection :=
           (if sticky_random_selection q = Some tid then None else sticky_random_selection q)\<rparr>)
   }"

definition end_yield_epoch :: "'g run_queue \<Rightarrow> 'g run_queue" where
  "end_yield_epoch q = q\<lparr>yield_epoch := None, yield_streaks := Map.empty\<rparr>"

definition consume_yield_exclusion :: "'g run_queue \<Rightarrow> 'g run_queue" where
  "consume_yield_exclusion q = q\<lparr>yielded_skip := None\<rparr>"

definition skip_tid :: "'g run_queue \<Rightarrow> det_tid option" where
  "skip_tid q = (case yielded_skip q of
       None \<Rightarrow> None
     | Some tid \<Rightarrow> if 1 < length (queue q) \<and> contains_tid q tid then Some tid else None)"

definition yield_epoch_over :: "'g run_queue \<Rightarrow> bool" where
  "yield_epoch_over q \<longleftrightarrow> (case yield_epoch q of
       None \<Rightarrow> False
     | Some epoch \<Rightarrow>
         list_all (\<lambda>(key, value). qv_tid value \<in> epoch
           \<or> is_fully_backed_off_poller value (po_priority key)) (queue q))"

definition excluded_tids :: "'g run_queue \<Rightarrow> det_tid set" where
  "excluded_tids q =
     (let skipped = (case skip_tid q of None \<Rightarrow> {} | Some tid \<Rightarrow> {tid})
      in case yield_epoch q of
           None \<Rightarrow> skipped
         | Some epoch \<Rightarrow>
             (let with_epoch = skipped \<union> epoch
              in if list_ex (\<lambda>tid. tid \<notin> with_epoch) (tids (queue q)) then with_epoch else skipped))"

definition eligible_tids :: "'g run_queue \<Rightarrow> det_tid list" where
  "eligible_tids q = filter (\<lambda>tid. tid \<notin> excluded_tids q) (tids (queue q))"

definition random_index :: "'g rng \<Rightarrow> nat \<Rightarrow> 'g run_queue \<Rightarrow> (nat \<times> 'g run_queue) option" where
  "random_index R n q = do {
     assert_that (0 < n);
     let (r, g) = rng_index R n (prng q);
     Some (r, q\<lparr>prng := g\<rparr>)
   }"

definition nth_opt :: "'a list \<Rightarrow> nat \<Rightarrow> 'a option" where
  "nth_opt xs i = (if i < length xs then Some (xs ! i) else None)"

definition select_next :: "'g rng \<Rightarrow> 'g run_queue \<Rightarrow> (det_tid option \<times> 'g run_queue) option" where
  "select_next R q = (case sched_strategy q of
       SchedNone \<Rightarrow> Some (nth_opt (eligible_tids q) 0,
                          q\<lparr>tentative_selection := nth_opt (eligible_tids q) 0\<rparr>)
     | ConnectBind \<Rightarrow> Some (nth_opt (eligible_tids q) 0,
                            q\<lparr>tentative_selection := nth_opt (eligible_tids q) 0\<rparr>)
     | SchedRandom \<Rightarrow>
         if queue q = [] then Some (None, q)
         else if tentative_selection q = None then do {
           (i, q') \<leftarrow> random_index R (length (eligible_tids q)) q;
           let picked = nth_opt (eligible_tids q) i;
           Some (picked, q'\<lparr>tentative_selection := picked\<rparr>)
         } else Some (tentative_selection q, q)
     | StickyRandom \<Rightarrow>
         if queue q = [] then Some (None, q)
         else do {
           let sticky = (case sticky_random_selection q of
                           None \<Rightarrow> None
                         | Some tid \<Rightarrow> if tid \<in> excluded_tids q then None else Some tid);
           (picked, q') \<leftarrow>
             (case sticky of
                Some tid \<Rightarrow>
                  if contains_tid q tid then Some (Some tid, q)
                  else do {
                    (i, q') \<leftarrow> random_index R (length (eligible_tids q)) q;
                    Some (nth_opt (eligible_tids q) i, q')
                  }
              | None \<Rightarrow> do {
                  (i, q') \<leftarrow> random_index R (length (eligible_tids q)) q;
                  Some (nth_opt (eligible_tids q) i, q')
                });
           Some (picked, q'\<lparr>sticky_random_selection := picked, tentative_selection := picked\<rparr>)
         })"

definition tentative_pop_next ::
  "'g rng \<Rightarrow> 'g run_queue \<Rightarrow> (det_tid option \<times> 'g run_queue) option" where
  "tentative_pop_next R q = do {
     assert_that (\<not> tentative_selection_is_exact q);
     select_next R (if yield_epoch_over q then end_yield_epoch q else q)
   }"

definition tentative_pop_tid :: "'g run_queue \<Rightarrow> det_tid \<Rightarrow> (det_tid option \<times> 'g run_queue) option" where
  "tentative_pop_tid q tid = do {
     assert_that (tentative_selection q = None);
     let q' = (if contains_tid q tid
               then q\<lparr>tentative_selection := Some tid, tentative_selection_is_exact := True\<rparr> else q);
     Some (tentative_selection q', q')
   }"

definition take_entry :: "'g run_queue \<Rightarrow> det_tid \<Rightarrow> (det_tid \<times> 'g run_queue) option" where
  "take_entry q tid = do {
     (key, _) \<leftarrow> find_tid (queue q) tid;
     value \<leftarrow> bm_get (queue q) key;
     Some (qv_tid value, q\<lparr>queue := bm_remove key (queue q)\<rparr>)
   }"

definition take_sticky :: "'g rng \<Rightarrow> 'g run_queue \<Rightarrow> (det_tid \<times> 'g run_queue) option" where
  "take_sticky R q = do {
     tid \<leftarrow> sticky_random_selection q;
     let (r, g) = rng_unit R (prng q);
     take_entry
       (q\<lparr>prng := g, sticky_random_selection :=
            (if r \<le> 1 - sticky_random_param q then None else sticky_random_selection q)\<rparr>) tid
   }"

definition commit_selection :: "'g rng \<Rightarrow> 'g run_queue \<Rightarrow> (det_tid \<times> 'g run_queue) option" where
  "commit_selection R q = do {
     selected \<leftarrow> tentative_selection q;
     let q1 = q\<lparr>tentative_selection := None, tentative_selection_is_exact := False\<rparr>;
     (ret, q2) \<leftarrow> (if tentative_selection_is_exact q \<or> sched_strategy q \<noteq> StickyRandom
                    then take_entry q1 selected else take_sticky R q1);
     assert_that (ret = selected);
     Some (ret, q2\<lparr>queued_by_yield := queued_by_yield q2 - {ret}\<rparr>)
   }"

definition commit_tentative_pop :: "'g rng \<Rightarrow> 'g run_queue \<Rightarrow> (det_tid \<times> 'g run_queue) option" where
  "commit_tentative_pop R q = commit_selection R q"

definition commit_tentative_pop_yield ::
  "'g rng \<Rightarrow> 'g run_queue \<Rightarrow> (det_tid \<times> 'g run_queue) option" where
  "commit_tentative_pop_yield R q = do {
     (tid, q') \<leftarrow> commit_selection R q;
     Some (tid, consume_yield_exclusion q')
   }"

definition commit_tentative_pop_completed_turn ::
  "'g rng \<Rightarrow> 'g run_queue \<Rightarrow> (det_tid \<times> 'g run_queue) option" where
  "commit_tentative_pop_completed_turn R q = do {
     (tid, q') \<leftarrow> commit_tentative_pop R q;
     Some (tid, end_yield_epoch (consume_yield_exclusion q'))
   }"

definition undo_tentative_pop :: "'g run_queue \<Rightarrow> 'g run_queue option" where
  "undo_tentative_pop q = do {
     assert_that (tentative_selection q \<noteq> None);
     Some (q\<lparr>tentative_selection := None, tentative_selection_is_exact := False\<rparr>)
   }"

end
