(* ===== verification/Run_Queue_Inv.thy ===== *)
theory Run_Queue_Inv
  imports Run_Queue
begin

text \<open>
  The invariant of the run queue, and that every operation keeps it and never panics where the
  scheduler may call it. The invariant is relative to the set \<open>S\<close> of entries that are suspended
  (\<open>suspend\<close>) and may come back (\<open>restore\<close>): their turns must not meet a turn of the queue.
\<close>

subsection \<open>The invariant\<close>

definition low_turn :: "prioritized_order \<Rightarrow> bool" where
  "low_turn k \<longleftrightarrow> po_turn k < RUN_TIME_TURNS"

definition turns_unique :: "(prioritized_order \<times> queue_value) set \<Rightarrow> bool" where
  "turns_unique E \<longleftrightarrow>
     (\<forall>a \<in> E. \<forall>b \<in> E. low_turn (fst a) \<longrightarrow> po_turn (fst a) = po_turn (fst b) \<longrightarrow> a = b)"

definition entry_ok :: "'g run_queue \<Rightarrow> prioritized_order \<times> queue_value \<Rightarrow> bool" where
  "entry_ok q e \<longleftrightarrow>
     (if low_turn (fst e)
      then last_front_turn q \<le> po_turn (fst e) \<and> po_turn (fst e) \<le> last_back_turn q
      else poll_upgrade (snd e) = None)"

definition suspended_pairs :: "suspended_entry set \<Rightarrow> (prioritized_order \<times> queue_value) set" where
  "suspended_pairs S = (\<lambda>s. (se_key s, se_value s)) ` S"

definition suspended_unique :: "suspended_entry set \<Rightarrow> bool" where
  "suspended_unique S \<longleftrightarrow>
     (\<forall>a \<in> S. \<forall>b \<in> S. low_turn (se_key a) \<longrightarrow> po_turn (se_key a) = po_turn (se_key b) \<longrightarrow> a = b)"

definition selection_ok :: "'g run_queue \<Rightarrow> bool" where
  "selection_ok q \<longleftrightarrow> (case tentative_selection q of
       None \<Rightarrow> \<not> tentative_selection_is_exact q
     | Some tid \<Rightarrow> contains_tid q tid \<and>
         (\<not> tentative_selection_is_exact q \<longrightarrow> sched_strategy q = StickyRandom
          \<longrightarrow> sticky_random_selection q = Some tid))"

definition counters_ok :: "'g run_queue \<Rightarrow> bool" where
  "counters_ok q \<longleftrightarrow>
     0 \<le> last_back_turn q \<and> last_back_turn q < RUN_TIME_TURNS \<and> last_front_turn q \<le> 0"

definition entries_ok :: "suspended_entry set \<Rightarrow> 'g run_queue \<Rightarrow> bool" where
  "entries_ok S q \<longleftrightarrow>
     bm_ok (queue q) \<and> distinct (tids (queue q)) \<and> counters_ok q
     \<and> turns_unique (set (queue q)) \<and> (\<forall>e \<in> set (queue q). entry_ok q e)
     \<and> suspended_unique S \<and> (\<forall>e \<in> suspended_pairs S. entry_ok q e)
     \<and> (\<forall>a \<in> suspended_pairs S. \<forall>b \<in> set (queue q).
          low_turn (fst a) \<longrightarrow> po_turn (fst a) \<noteq> po_turn (fst b))"

definition rq_inv :: "suspended_entry set \<Rightarrow> 'g run_queue \<Rightarrow> bool" where
  "rq_inv S q \<longleftrightarrow> entries_ok S q \<and> selection_ok q"

lemma rq_inv_new: "rq_inv {} (new_run_queue ss seed_fn seed srp)"
  by (simp add: rq_inv_def entries_ok_def selection_ok_def counters_ok_def turns_unique_def
      suspended_unique_def suspended_pairs_def new_run_queue_def tids_def RUN_TIME_TURNS_def)

lemma tids_simps [simp]:
  "tids [] = []" "tids (e # m) = qv_tid (snd e) # tids m"
  by (simp_all add: tids_def)

lemma set_tids: "set (tids m) = (\<lambda>e. qv_tid (snd e)) ` set m"
  by (simp add: tids_def)

lemma distinct_tids_iff:
  "distinct m \<Longrightarrow> distinct (tids m) \<longleftrightarrow> inj_on (\<lambda>e. qv_tid (snd e)) (set m)"
  by (simp add: tids_def distinct_map)

lemma bm_ok_distinct: "bm_ok m \<Longrightarrow> distinct m"
  using bm_okD_distinct distinct_map by blast

subsection \<open>The poll upgrade, entry by entry\<close>

definition upgrade_entry :: "prioritized_order \<times> queue_value \<Rightarrow> prioritized_order \<times> queue_value" where
  "upgrade_entry e = (case poll_upgrade (snd e) of
       None \<Rightarrow> e
     | Some up \<Rightarrow>
         if LAST_PRIORITY \<le> up then (fst e, (snd e)\<lparr>upgraded_in_place := True\<rparr>)
         else (PrioritizedOrder up (po_turn (fst e)), (snd e)\<lparr>poll_upgrade := None\<rparr>))"

definition is_movable :: "prioritized_order \<times> queue_value \<Rightarrow> bool" where
  "is_movable e \<longleftrightarrow> (\<exists>up. poll_upgrade (snd e) = Some up \<and> up < LAST_PRIORITY)"

lemma upgrade_entry_turn [simp]: "po_turn (fst (upgrade_entry e)) = po_turn (fst e)"
  by (simp add: upgrade_entry_def split: option.split)

lemma upgrade_entry_tid [simp]: "qv_tid (snd (upgrade_entry e)) = qv_tid (snd e)"
  by (simp add: upgrade_entry_def split: option.split)

lemma upgrade_entry_poller:
  "poll_upgrade (snd e) = None \<Longrightarrow> poll_upgrade (snd (upgrade_entry e)) = None"
  by (simp add: upgrade_entry_def)

lemma settle_restored_fst [simp]: "fst (settle_restored e) = fst e"
  by (simp add: settle_restored_def split: prod.split)

lemma settle_restored_tid [simp]: "qv_tid (snd (settle_restored e)) = qv_tid (snd e)"
  by (simp add: settle_restored_def split: prod.split)

lemma settle_restored_upgrade [simp]: "poll_upgrade (snd (settle_restored e)) = poll_upgrade (snd e)"
  by (simp add: settle_restored_def split: prod.split)

definition pollers_low :: "(prioritized_order \<times> queue_value) set \<Rightarrow> bool" where
  "pollers_low E \<longleftrightarrow> (\<forall>e \<in> E. poll_upgrade (snd e) \<noteq> None \<longrightarrow> low_turn (fst e))"

lemma pending_upgrades_simps [simp]:
  "pending_upgrades [] = []"
  "pending_upgrades (e # m) = (case poll_upgrade (snd e) of
     None \<Rightarrow> pending_upgrades m | Some up \<Rightarrow> (fst e, up) # pending_upgrades m)"
  by (cases e; simp add: pending_upgrades_def List.map_filter_def split: option.split)+

lemma set_bm_insert_replace:
  assumes "bm_ok m" and "(k, v) \<in> set m"
  shows "set (bm_insert k w m) = insert (k, w) (set m - {(k, v)})"
  using assms bm_okD_distinct [OF assms(1)]
  by (auto simp: set_bm_insert dest: eq_key_imp_eq_value)

lemma turns_unique_replace:
  assumes "turns_unique E" and "a \<in> E" and "po_turn (fst b) = po_turn (fst a)"
  shows "turns_unique (insert b (E - {a}))"
  using assms unfolding turns_unique_def low_turn_def by (metis Diff_iff insert_iff)

lemma upgrade_step:
  assumes ok: "bm_ok m" and uniq: "turns_unique (set m)" and low: "pollers_low (set m)"
    and e: "e \<in> set m" and up: "poll_upgrade (snd e) = Some up"
  obtains m' where
    "upgrade_loop ((fst e, up) # rest) m r =
       upgrade_loop rest m' (if up < LAST_PRIORITY then r @ [qv_tid (snd e)] else r)"
    "bm_ok m'" "set m' = insert (upgrade_entry e) (set m - {e})"
proof (cases "LAST_PRIORITY \<le> up")
  case True
  have get: "bm_get m (fst e) = Some (snd e)" using e ok by (simp add: bm_get_iff)
  let ?m = "bm_insert (fst e) ((snd e)\<lparr>upgraded_in_place := True\<rparr>) m"
  have "set ?m = insert (upgrade_entry e) (set m - {e})"
    using set_bm_insert_replace [OF ok, of "fst e" "snd e"] e up True
    by (simp add: upgrade_entry_def)
  then show thesis
    using that [of ?m] get True ok by (simp add: bm_insert_ok)
next
  case False
  have get: "bm_get m (fst e) = Some (snd e)" using e ok by (simp add: bm_get_iff)
  let ?k = "PrioritizedOrder up (po_turn (fst e))"
  let ?m = "bm_remove (fst e) m"
  have lowe: "low_turn (fst e)" using low e up by (auto simp: pollers_low_def)
  have set_rm: "set ?m = set m - {e}"
    using ok e by (rule set_bm_remove_entry)
  have fresh: "bm_get ?m ?k = None"
    unfolding bm_get_None_iff set_rm
  proof
    assume "?k \<in> fst ` (set m - {e})"
    then obtain b where "?k = fst b" "b \<in> set m - {e}" by (rule imageE)
    then have b: "b \<in> set m" "b \<noteq> e" "fst b = ?k" by simp_all
    then have "po_turn (fst e) = po_turn (fst b)" by simp
    with uniq e b lowe show False unfolding turns_unique_def by metis
  qed
  let ?m' = "bm_insert ?k ((snd e)\<lparr>poll_upgrade := None\<rparr>) ?m"
  have ok': "bm_ok ?m" using ok by (rule bm_remove_ok)
  have "set ?m' = insert (upgrade_entry e) (set m - {e})"
    unfolding set_bm_insert_fresh [OF ok' fresh] set_rm using up False
    by (simp add: upgrade_entry_def)
  then show thesis
    using that [of ?m'] get fresh False ok' by (simp add: bm_insert_ok Let_def)
qed

lemma upgrade_loop_correct:
  assumes "bm_ok m" and "turns_unique (set m)" and "pollers_low (set m)"
    and "set es \<subseteq> set m" and "distinct (map fst es)"
  shows "\<exists>m'. upgrade_loop (pending_upgrades es) m r = Some (m', r @ tids (filter is_movable es))
    \<and> bm_ok m' \<and> set m' = (set m - set es) \<union> upgrade_entry ` set es"
  using assms
proof (induction es arbitrary: m r)
  case Nil
  then show ?case by simp
next
  case (Cons e es)
  show ?case
  proof (cases "poll_upgrade (snd e)")
    case None
    with Cons.prems Cons.IH [of m r] have "upgrade_entry e = e" "\<not> is_movable e"
      by (auto simp: upgrade_entry_def is_movable_def)
    moreover have "e \<notin> set es" using Cons.prems(5) by auto
    ultimately show ?thesis using Cons.prems Cons.IH [of m r] None by auto
  next
    case (Some up)
    let ?r = "if up < LAST_PRIORITY then r @ [qv_tid (snd e)] else r"
    from Cons.prems(4) have e: "e \<in> set m" by simp
    obtain m1 where m1: "upgrade_loop ((fst e, up) # pending_upgrades es) m r =
        upgrade_loop (pending_upgrades es) m1 ?r"
      "bm_ok m1" "set m1 = insert (upgrade_entry e) (set m - {e})"
      using upgrade_step [OF Cons.prems(1-3) e Some] by metis
    have uniq: "turns_unique (set m1)"
      unfolding m1(3) by (rule turns_unique_replace [OF Cons.prems(2) e]) simp
    have low: "pollers_low (set m1)"
      using Cons.prems(3) e upgrade_entry_poller [of e]
      unfolding m1(3) pollers_low_def low_turn_def by auto
    have notin: "e \<notin> set es" using Cons.prems(5) by auto
    have sub: "set es \<subseteq> set m1" using Cons.prems(4) notin unfolding m1(3) by auto
    have notup: "upgrade_entry e \<notin> set es"
    proof
      assume "upgrade_entry e \<in> set es"
      then have "upgrade_entry e \<in> set m" using Cons.prems(4) by auto
      moreover have "low_turn (fst e)" using Cons.prems(3) e Some by (auto simp: pollers_low_def)
      ultimately have "e = upgrade_entry e"
        using Cons.prems(2) e unfolding turns_unique_def by (metis upgrade_entry_turn)
      with \<open>upgrade_entry e \<in> set es\<close> notin show False by simp
    qed
    obtain m' where m': "upgrade_loop (pending_upgrades es) m1 ?r =
        Some (m', ?r @ tids (filter is_movable es))"
      "bm_ok m'" "set m' = (set m1 - set es) \<union> upgrade_entry ` set es"
      using Cons.IH [OF m1(2) uniq low sub, of ?r] Cons.prems(5) by auto
    have "set m' = (set m - set (e # es)) \<union> upgrade_entry ` set (e # es)"
      using m'(3) m1(3) notup by auto
    moreover have "?r @ tids (filter is_movable es) = r @ tids (filter is_movable (e # es))"
      using Some by (simp add: is_movable_def)
    ultimately show ?thesis using Some m1(1) m'(1,2) by simp
  qed
qed

subsection \<open>Which changes keep the entries well formed\<close>

lemma entry_ok_cong:
  "last_front_turn q' = last_front_turn q \<Longrightarrow> last_back_turn q' = last_back_turn q
   \<Longrightarrow> entry_ok q' e = entry_ok q e"
  by (simp add: entry_ok_def)

lemma entries_ok_cong:
  assumes "queue q' = queue q" "last_front_turn q' = last_front_turn q"
    "last_back_turn q' = last_back_turn q"
  shows "entries_ok S q' = entries_ok S q"
  using assms by (simp add: entries_ok_def counters_ok_def entry_ok_def)

lemma entries_okD:
  assumes "entries_ok S q"
  shows "bm_ok (queue q)" "distinct (tids (queue q))" "counters_ok q"
    "turns_unique (set (queue q))" "\<And>e. e \<in> set (queue q) \<Longrightarrow> entry_ok q e"
    "pollers_low (set (queue q))"
  using assms by (auto simp: entries_ok_def pollers_low_def entry_ok_def split: if_splits)

lemma entries_ok_sep:
  "entries_ok S q \<Longrightarrow> a \<in> suspended_pairs S \<Longrightarrow> b \<in> set (queue q) \<Longrightarrow> low_turn (fst a)
   \<Longrightarrow> po_turn (fst a) \<noteq> po_turn (fst b)"
  unfolding entries_ok_def by blast

lemma entries_ok_image:
  assumes inv: "entries_ok S q"
    and m': "bm_ok m'" "set m' = f ` set (queue q)"
    and f: "\<And>e. po_turn (fst (f e)) = po_turn (fst e)" "\<And>e. qv_tid (snd (f e)) = qv_tid (snd e)"
      "\<And>e. poll_upgrade (snd e) = None \<Longrightarrow> poll_upgrade (snd (f e)) = None"
    and q': "queue q' = m'" "last_front_turn q' = last_front_turn q"
      "last_back_turn q' = last_back_turn q"
  shows "entries_ok S q'"
proof -
  note old = entries_okD [OF inv]
  have "inj_on (\<lambda>e. qv_tid (snd e)) (set (queue q))"
    using old(1,2) by (simp add: distinct_tids_iff bm_ok_distinct)
  then have "inj_on (\<lambda>e. qv_tid (snd e)) (set m')"
    unfolding m'(2) by (auto simp: inj_on_def f(2))
  then have tids: "distinct (tids m')"
    using m'(1) by (simp add: distinct_tids_iff bm_ok_distinct)
  have uniq: "turns_unique (set m')"
    using old(4) unfolding m'(2) turns_unique_def low_turn_def by (auto simp: f(1))
  have ents: "\<forall>e \<in> set m'. entry_ok q' e"
  proof
    fix x
    assume "x \<in> set m'"
    then obtain e where e: "x = f e" "e \<in> set (queue q)" using m'(2) by blast
    then show "entry_ok q' x"
      using old(5) [OF e(2)] f(3) [of e] by (simp add: entry_ok_def low_turn_def f(1) q' split: if_splits)
  qed
  show ?thesis
    using inv tids uniq ents m' q' f(1)
    by (auto simp: entries_ok_def counters_ok_def entry_ok_def low_turn_def)
qed

lemma entries_ok_insert:
  assumes inv: "entries_ok S q"
    and fresh: "bm_get (queue q) k = None" "qv_tid v \<notin> set (tids (queue q))"
    and cnt: "counters_ok q'" "last_front_turn q' \<le> last_front_turn q"
      "last_back_turn q \<le> last_back_turn q'"
    and k: "entry_ok q' (k, v)"
      "\<And>e. e \<in> set (queue q) \<union> suspended_pairs S \<Longrightarrow> low_turn k \<Longrightarrow> po_turn (fst e) \<noteq> po_turn k"
    and q': "queue q' = bm_insert k v (queue q)"
  shows "entries_ok S q'"
proof -
  note old = entries_okD [OF inv]
  have set_q': "set (queue q') = insert (k, v) (set (queue q))"
    unfolding q' by (rule set_bm_insert_fresh [OF old(1) fresh(1)])
  have ok': "bm_ok (queue q')" unfolding q' using old(1) by (rule bm_insert_ok)
  have "inj_on (\<lambda>e. qv_tid (snd e)) (set (queue q'))"
    using old(1,2) fresh(2) unfolding set_q' inj_on_insert
    by (auto simp: distinct_tids_iff bm_ok_distinct set_tids)
  then have tids: "distinct (tids (queue q'))"
    using ok' by (simp add: distinct_tids_iff bm_ok_distinct)
  have wide: "entry_ok q' e" if "entry_ok q e" for e
    using that cnt by (auto simp: entry_ok_def split: if_splits)
  have uniq: "turns_unique (set (queue q'))"
    using old(4) k(2) unfolding set_q' turns_unique_def low_turn_def by (metis UnI1 fst_conv insert_iff)
  have sep: "po_turn (fst a) \<noteq> po_turn (fst b)"
    if "a \<in> suspended_pairs S" "b \<in> set (queue q')" "low_turn (fst a)" for a b
    using that inv k(2) [of a] unfolding set_q' entries_ok_def low_turn_def by (metis UnI2 fst_conv insert_iff)
  show ?thesis
    using inv ok' tids uniq sep wide k(1) cnt(1) set_q' unfolding entries_ok_def by auto
qed

lemma entries_ok_filter:
  assumes inv: "entries_ok S q"
    and q': "queue q' = filter P (queue q)" "last_front_turn q' = last_front_turn q"
      "last_back_turn q' = last_back_turn q"
  shows "entries_ok S q'"
proof -
  have "distinct (tids (filter P (queue q)))"
    using entries_okD(2) [OF inv] unfolding tids_def by (rule distinct_map_filterI)
  moreover have "turns_unique {x \<in> set (queue q). P x}"
    using entries_okD(4) [OF inv] by (auto simp: turns_unique_def)
  ultimately show ?thesis
    using inv q' by (auto simp: entries_ok_def bm_filter_ok counters_ok_def entry_ok_def)
qed

lemma bm_remove_eq_filter_tid:
  assumes inv: "entries_ok S q" and e: "e \<in> set (queue q)"
  shows "bm_remove (fst e) (queue q) = filter (\<lambda>x. qv_tid (snd x) \<noteq> qv_tid (snd e)) (queue q)"
proof -
  note old = entries_okD [OF inv]
  have "inj_on (\<lambda>e. qv_tid (snd e)) (set (queue q))" "inj_on fst (set (queue q))"
    using old(1,2) bm_okD_distinct [OF old(1)]
    by (simp_all add: distinct_tids_iff bm_ok_distinct distinct_map)
  then have "fst x = fst e \<longleftrightarrow> qv_tid (snd x) = qv_tid (snd e)" if "x \<in> set (queue q)" for x
    using that e by (auto simp: inj_on_def)
  then show ?thesis by (auto simp: bm_remove_def intro: filter_cong)
qed

lemma find_tid_Some:
  assumes "find_tid m tid = Some e"
  shows "e \<in> set m" "qv_tid (snd e) = tid"
  using assms find_SomeD by (fastforce simp: find_tid_def)+

lemma find_tid_None: "find_tid m tid = None \<longleftrightarrow> tid \<notin> set (tids m)"
  by (auto simp: find_tid_def find_None_iff_all set_tids)

lemma find_tid_contained:
  assumes "contains_tid q tid"
  obtains e where "find_tid (queue q) tid = Some e" "e \<in> set (queue q)" "qv_tid (snd e) = tid"
  using assms find_tid_None [of "queue q" tid] find_tid_Some [of "queue q" tid]
  by (auto simp: contains_tid_def)

subsection \<open>Poll upgrades keep the invariant\<close>

lemma map_settle_ok: "bm_ok m \<Longrightarrow> bm_ok (map settle_restored m)"
  by (simp add: bm_ok_def o_def)

lemma do_poll_upgrade_ok:
  assumes inv: "entries_ok S q"
  obtains q' where "do_poll_upgrade q = Some (tids (filter is_movable (queue q)), q')"
    "set (queue q') = (\<lambda>e. settle_restored (upgrade_entry e)) ` set (queue q)"
    "entries_ok S q'"
    "q' = q\<lparr>poll_upgrades := poll_upgrades q + 1, queue := queue q'\<rparr>"
proof -
  note old = entries_okD [OF inv]
  obtain m' where m': "upgrade_loop (pending_upgrades (queue q)) (queue q) [] =
      Some (m', tids (filter is_movable (queue q)))"
    "bm_ok m'" "set m' = upgrade_entry ` set (queue q)"
    using upgrade_loop_correct [OF old(1,4,6) subset_refl bm_okD_distinct [OF old(1)], of "[]"]
    by auto
  let ?q = "q\<lparr>poll_upgrades := poll_upgrades q + 1, queue := map settle_restored m'\<rparr>"
  have img: "set (map settle_restored m') = (\<lambda>e. settle_restored (upgrade_entry e)) ` set (queue q)"
    using m'(3) by (simp add: image_image)
  have "entries_ok S ?q"
    by (rule entries_ok_image [OF inv map_settle_ok [OF m'(2)] img])
      (simp_all add: upgrade_entry_poller)
  then show thesis using that [of ?q] m'(1) img by (simp add: do_poll_upgrade_def)
qed

lemma check_poll_upgrade_ok:
  assumes inv: "entries_ok S q"
  obtains q' m where "check_poll_upgrade q = Some q'" "entries_ok S q'"
    "q' = q \<or> q' = q\<lparr>poll_upgrades := poll_upgrades q + 1, queue := m\<rparr>"
    "set (tids (queue q')) = set (tids (queue q))"
proof -
  have tc: "turn_counter q = Some (nat (last_back_turn q) + nat \<bar>last_front_turn q\<bar>)"
    using entries_okD(3) [OF inv] by (simp add: turn_counter_def counters_ok_def)
  obtain q1 where q1: "do_poll_upgrade q = Some (tids (filter is_movable (queue q)), q1)"
    "set (queue q1) = (\<lambda>e. settle_restored (upgrade_entry e)) ` set (queue q)"
    "entries_ok S q1" "q1 = q\<lparr>poll_upgrades := poll_upgrades q + 1, queue := queue q1\<rparr>"
    using do_poll_upgrade_ok [OF inv] by blast
  have tids1: "set (tids (queue q1)) = set (tids (queue q))"
    unfolding set_tids q1(2) by (simp add: image_image)
  show thesis
  proof (cases "(nat (last_back_turn q) + nat \<bar>last_front_turn q\<bar>) mod POLLING_UPGRADE_INTERVAL = 0")
    case True
    then show thesis using that [of q1 "queue q1"] q1 tids1 tc by (simp add: check_poll_upgrade_def)
  next
    case False
    then show thesis using that [of q "queue q"] inv tc by (simp add: check_poll_upgrade_def)
  qed
qed

end
