(* ===== verification/Run_Queue_Ops.thy ===== *)
theory Run_Queue_Ops
  imports Run_Queue_Inv
begin

text \<open>
  Every operation of the run queue returns (no assertion fails) and keeps the invariant, where its
  caller respects the queue's protocol: no queueing operation while a tentative pop is open, no
  thread queued twice, ordinary priorities only, and fewer than \<open>2 ^ 61\<close> queueing operations.
\<close>

text \<open>The state in which queueing operations are allowed: the invariant, and no open pop.\<close>

definition rq_closed :: "suspended_entry set \<Rightarrow> 'g run_queue \<Rightarrow> bool" where
  "rq_closed S q \<longleftrightarrow> rq_inv S q \<and> tentative_selection q = None"

lemma rq_closed_iff:
  "rq_closed S q \<longleftrightarrow>
     entries_ok S q \<and> tentative_selection q = None \<and> \<not> tentative_selection_is_exact q"
  by (auto simp: rq_closed_def rq_inv_def selection_ok_def)

text \<open>Only the entries, the turn counters and the upgrade counter differ.\<close>

definition same_selection_state :: "'g run_queue \<Rightarrow> 'g run_queue \<Rightarrow> bool" where
  "same_selection_state q q' \<longleftrightarrow>
     tentative_selection q' = tentative_selection q
     \<and> tentative_selection_is_exact q' = tentative_selection_is_exact q
     \<and> yielded_skip q' = yielded_skip q \<and> yield_epoch q' = yield_epoch q
     \<and> yield_streaks q' = yield_streaks q \<and> queued_by_yield q' = queued_by_yield q
     \<and> sched_strategy q' = sched_strategy q \<and> prng q' = prng q
     \<and> sticky_random_param q' = sticky_random_param q
     \<and> sticky_random_selection q' = sticky_random_selection q"

lemma rq_closed_frame:
  "rq_closed S q \<Longrightarrow> entries_ok S' q' \<Longrightarrow> same_selection_state q q' \<Longrightarrow> rq_closed S' q'"
  by (simp add: rq_closed_iff same_selection_state_def)

lemma rq_closed_cong:
  assumes "queue q' = queue q" "last_front_turn q' = last_front_turn q"
    "last_back_turn q' = last_back_turn q" "tentative_selection q' = tentative_selection q"
    "tentative_selection_is_exact q' = tentative_selection_is_exact q"
  shows "rq_closed S q' = rq_closed S q"
  using assms entries_ok_cong [of q' q S] by (simp add: rq_closed_iff)

subsection \<open>Pushes\<close>

lemma push_inner_entries:
  assumes inv: "entries_ok S q" and new: "\<not> contains_tid q (qv_tid v)"
    and q1: "queue q1 = bm_insert k v (queue q)" "counters_ok q1"
      "last_front_turn q1 \<le> last_front_turn q" "last_back_turn q \<le> last_back_turn q1"
    and k: "last_front_turn q1 \<le> po_turn k" "po_turn k \<le> last_back_turn q1"
      "po_turn k < last_front_turn q \<or> last_back_turn q < po_turn k"
  shows "bm_get (queue q) k = None" and "entries_ok S q1"
proof -
  have low: "low_turn k" using q1(2) k(2) by (simp add: low_turn_def counters_ok_def)
  have below: "po_turn (fst e) \<noteq> po_turn k" if "e \<in> set (queue q) \<union> suspended_pairs S" for e
  proof -
    have "entry_ok q e" using that inv by (auto simp: entries_ok_def)
    then show ?thesis using low k(3) by (auto simp: entry_ok_def low_turn_def split: if_splits)
  qed
  show fresh: "bm_get (queue q) k = None"
    unfolding bm_get_None_iff using below by (metis UnI1 imageE)
  show "entries_ok S q1"
    by (rule entries_ok_insert [OF inv fresh _ q1(2-4) _ _ q1(1)])
      (use new low k below in \<open>auto simp: entry_ok_def contains_tid_def\<close>)
qed

lemma push_inner_ok:
  assumes inv: "entries_ok S q" and new: "\<not> contains_tid q (qv_tid v)"
    and q1: "queue q1 = bm_insert k v (queue q)" "counters_ok q1"
      "last_front_turn q1 \<le> last_front_turn q" "last_back_turn q \<le> last_back_turn q1"
    and k: "last_front_turn q1 \<le> po_turn k" "po_turn k \<le> last_back_turn q1"
      "po_turn k < last_front_turn q \<or> last_back_turn q < po_turn k"
  obtains q' where "bm_get (queue q) k = None" "check_poll_upgrade q1 = Some q'"
    "entries_ok S q'" "set (tids (queue q')) = insert (qv_tid v) (set (tids (queue q)))"
    "same_selection_state q1 q'" "last_back_turn q' = last_back_turn q1"
    "last_front_turn q' = last_front_turn q1"
proof -
  note fresh = push_inner_entries(1) [OF assms] and ok = push_inner_entries(2) [OF assms]
  obtain q' m where q': "check_poll_upgrade q1 = Some q'" "entries_ok S q'"
    "q' = q1 \<or> q' = q1\<lparr>poll_upgrades := poll_upgrades q1 + 1, queue := m\<rparr>"
    "set (tids (queue q')) = set (tids (queue q1))"
    using check_poll_upgrade_ok [OF ok] by blast
  have "set (tids (queue q1)) = insert (qv_tid v) (set (tids (queue q)))"
    by (simp add: set_tids q1(1) set_bm_insert_fresh [OF entries_okD(1) [OF inv] fresh])
  then show thesis
    using that [of q'] q' fresh by (auto simp: same_selection_state_def)
qed

text \<open>What a push that returned has done: one new thread, and the rest of the state kept.\<close>

definition pushed :: "suspended_entry set \<Rightarrow> 'g run_queue \<Rightarrow> det_tid \<Rightarrow> 'g run_queue \<Rightarrow> bool" where
  "pushed S q tid q' \<longleftrightarrow>
     rq_closed S q' \<and> set (tids (queue q')) = insert tid (set (tids (queue q)))
     \<and> same_selection_state q q'"

lemma push_back_inner_ok:
  assumes closed: "rq_closed S q" and new: "\<not> contains_tid q tid"
    and room: "last_back_turn q + 1 < RUN_TIME_TURNS"
  shows "\<exists>q'. push_back_inner q tid prio up = Some (PrioritizedOrder prio (last_back_turn q + 1), q')
    \<and> pushed S q tid q'"
proof -
  let ?k = "PrioritizedOrder prio (last_back_turn q + 1)"
  let ?v = "\<lparr>qv_tid = tid, poll_upgrade = up, deadline_restored = False, upgraded_in_place = False\<rparr>"
  let ?q = "q\<lparr>last_back_turn := last_back_turn q + 1, queue := bm_insert ?k ?v (queue q)\<rparr>"
  from closed have inv: "entries_ok S q" by (simp add: rq_closed_iff)
  have cnt: "counters_ok q" using entries_okD(3) [OF inv] .
  obtain q' where q': "bm_get (queue q) ?k = None" "check_poll_upgrade ?q = Some q'"
    "entries_ok S q'" "set (tids (queue q')) = insert tid (set (tids (queue q)))"
    "same_selection_state ?q q'"
    using push_inner_ok [OF inv, of ?v ?q ?k] new room cnt by (auto simp: counters_ok_def)
  have same: "same_selection_state q q'" using q'(5) by (simp add: same_selection_state_def)
  show ?thesis
    using q' same rq_closed_frame [OF closed q'(3) same]
    by (auto simp: push_back_inner_def push_inner_def pushed_def Let_def)
qed

lemma push_front_inner_ok:
  assumes closed: "rq_closed S q" and new: "\<not> contains_tid q tid"
  shows "\<exists>q'. push_front_inner q tid prio up = Some (PrioritizedOrder prio (last_front_turn q - 1), q')
    \<and> pushed S q tid q'"
proof -
  let ?k = "PrioritizedOrder prio (last_front_turn q - 1)"
  let ?v = "\<lparr>qv_tid = tid, poll_upgrade = up, deadline_restored = False, upgraded_in_place = False\<rparr>"
  let ?q = "q\<lparr>last_front_turn := last_front_turn q - 1, queue := bm_insert ?k ?v (queue q)\<rparr>"
  from closed have inv: "entries_ok S q" by (simp add: rq_closed_iff)
  have cnt: "counters_ok q" using entries_okD(3) [OF inv] .
  obtain q' where q': "bm_get (queue q) ?k = None" "check_poll_upgrade ?q = Some q'"
    "entries_ok S q'" "set (tids (queue q')) = insert tid (set (tids (queue q)))"
    "same_selection_state ?q q'"
    using push_inner_ok [OF inv, of ?v ?q ?k] new cnt by (auto simp: counters_ok_def)
  have same: "same_selection_state q q'" using q'(5) by (simp add: same_selection_state_def)
  show ?thesis
    using q' same rq_closed_frame [OF closed q'(3) same]
    by (auto simp: push_front_inner_def push_inner_def pushed_def Let_def)
qed

lemma push_back_ok:
  assumes "rq_closed S q" "\<not> contains_tid q tid" "is_ordinary_priority prio"
    "last_back_turn q + 1 < RUN_TIME_TURNS"
  shows "\<exists>q'. push_back q tid prio = Some (PrioritizedOrder prio (last_back_turn q + 1), q')
    \<and> pushed S q tid q'"
  using assms push_back_inner_ok [OF assms(1,2,4), of prio None]
  by (simp add: push_back_def push_safety_check_def rq_closed_iff)

lemma push_poller_ok:
  assumes "rq_closed S q" "\<not> contains_tid q tid" "last_back_turn q + 1 < RUN_TIME_TURNS"
  shows "\<exists>q'. push_poller q tid normal attempt =
      Some (PrioritizedOrder (backoff_priority normal attempt) (last_back_turn q + 1), q')
    \<and> pushed S q tid q'"
  using assms push_back_inner_ok [OF assms, of "backoff_priority normal attempt" "Some normal"]
  by (simp add: push_poller_def push_safety_check_def rq_closed_iff)

lemma push_front_ok:
  assumes "rq_closed S q" "\<not> contains_tid q tid" "is_ordinary_priority prio"
  shows "\<exists>q'. push_front q tid prio = Some (PrioritizedOrder prio (last_front_turn q - 1), q')
    \<and> pushed S q tid q'"
  using assms push_front_inner_ok [OF assms(1,2), of prio None]
  by (simp add: push_front_def push_safety_check_def rq_closed_iff)

lemma push_eager_io_repoll_ok:
  assumes "rq_closed S q" "\<not> contains_tid q tid"
  shows "\<exists>q'. push_eager_io_repoll q tid =
      Some (PrioritizedOrder EAGER_IO_REPOLL_PRIORITY (last_front_turn q - 1), q')
    \<and> pushed S q tid q'"
  using assms push_front_inner_ok [OF assms, of EAGER_IO_REPOLL_PRIORITY None]
  by (simp add: push_eager_io_repoll_def push_safety_check_def rq_closed_iff)

lemma push_yielded_ok:
  assumes "rq_closed S q" "\<not> contains_tid q tid" "is_ordinary_priority prio"
    "last_back_turn q + 1 < RUN_TIME_TURNS" "yielded_skip q = None"
  shows "\<exists>q'. push_yielded q tid prio = Some (PrioritizedOrder prio (last_back_turn q + 1), q')
    \<and> rq_closed S q' \<and> set (tids (queue q')) = insert tid (set (tids (queue q)))
    \<and> yielded_skip q' = Some tid \<and> yield_epoch q' = yield_epoch q
    \<and> sched_strategy q' = sched_strategy q"
proof -
  let ?q = "q\<lparr>yielded_skip := Some tid, queued_by_yield := insert tid (queued_by_yield q)\<rparr>"
  have "rq_closed S ?q" using assms(1) by (subst rq_closed_cong [of ?q q]) simp_all
  then show ?thesis
    using push_back_ok [of S ?q tid prio] assms
    by (auto simp: push_yielded_def pushed_def contains_tid_def same_selection_state_def)
qed

definition streak_room :: "'g run_queue \<Rightarrow> det_tid \<Rightarrow> bool" where
  "streak_room q tid \<longleftrightarrow> list_ex (\<lambda>e. qv_tid (snd e) \<noteq> tid) (queue q) \<longrightarrow>
     (case yield_streaks q tid of None \<Rightarrow> True | Some n \<Rightarrow> n < u32_max)"

lemma count_yield_room: "count_yield q tid \<noteq> None \<longleftrightarrow> streak_room q tid"
  by (auto simp: count_yield_def streak_room_def add_u32_def Let_def u32_max_def split: option.splits)

lemma count_yield_frame:
  assumes "count_yield q tid = Some q'"
  shows "queue q' = queue q" "last_back_turn q' = last_back_turn q" "last_front_turn q' = last_front_turn q"
    "tentative_selection q' = tentative_selection q"
    "tentative_selection_is_exact q' = tentative_selection_is_exact q"
    "sched_strategy q' = sched_strategy q" "yielded_skip q' = yielded_skip q"
    "poll_upgrades q' = poll_upgrades q"
  using assms by (auto simp: count_yield_def Let_def bind_eq_Some_conv split: if_splits)

lemma push_yielded_into_epoch_ok:
  assumes "rq_closed S q" "\<not> contains_tid q tid" "is_ordinary_priority prio"
    "last_back_turn q + 1 < RUN_TIME_TURNS" "count_yield q tid = Some c"
  shows "\<exists>q'. push_yielded_into_epoch q tid prio = Some (PrioritizedOrder prio (last_back_turn q + 1), q')
    \<and> rq_closed S q' \<and> set (tids (queue q')) = insert tid (set (tids (queue q)))
    \<and> yielded_skip q' = yielded_skip q \<and> yield_epoch q' = yield_epoch c
    \<and> yield_streaks q' = yield_streaks c \<and> sched_strategy q' = sched_strategy q"
proof -
  note c = count_yield_frame [OF assms(5)]
  let ?q = "c\<lparr>queued_by_yield := insert tid (queued_by_yield c)\<rparr>"
  have "rq_closed S ?q" using assms(1) by (subst rq_closed_cong [of ?q q]) (simp_all add: c)
  then show ?thesis
    using push_back_ok [of S ?q tid prio] assms c
    by (auto simp: push_yielded_into_epoch_def pushed_def contains_tid_def same_selection_state_def)
qed

subsection \<open>Restoring a backed-off poller\<close>

lemma entries_ok_remove:
  assumes inv: "entries_ok S q" and e: "e \<in> set (queue q)"
  shows "entries_ok S (q\<lparr>queue := bm_remove (fst e) (queue q)\<rparr>)"
    and "set (tids (bm_remove (fst e) (queue q))) = set (tids (queue q)) - {qv_tid (snd e)}"
proof -
  have eq: "bm_remove (fst e) (queue q) = filter (\<lambda>x. qv_tid (snd x) \<noteq> qv_tid (snd e)) (queue q)"
    by (rule bm_remove_eq_filter_tid [OF inv e])
  show "entries_ok S (q\<lparr>queue := bm_remove (fst e) (queue q)\<rparr>)"
    by (rule entries_ok_filter [OF inv]) (simp_all add: eq)
  show "set (tids (bm_remove (fst e) (queue q))) = set (tids (queue q)) - {qv_tid (snd e)}"
    unfolding eq set_tids by auto
qed

lemma restore_poller_priority_ok:
  assumes closed: "rq_closed S q" and room: "last_back_turn q + 1 < RUN_TIME_TURNS"
  shows "\<exists>r q'. restore_poller_priority q tid = Some (r, q') \<and> rq_closed S q'
    \<and> set (tids (queue q')) = set (tids (queue q)) \<and> same_selection_state q q'"
proof (cases "find_tid (queue q) tid")
  case None
  then show ?thesis using closed by (auto simp: restore_poller_priority_def rq_closed_iff same_selection_state_def)
next
  case (Some e)
  show ?thesis
  proof (cases "poll_upgrade (snd e)")
    case None
    then show ?thesis using Some closed
      by (auto simp: restore_poller_priority_def rq_closed_iff same_selection_state_def split: prod.splits)
  next
    case (Some normal)
    note e = find_tid_Some [OF \<open>find_tid (queue q) tid = Some e\<close>]
    from closed have inv: "entries_ok S q" "tentative_selection q = None" by (simp_all add: rq_closed_iff)
    let ?v = "(snd e)\<lparr>poll_upgrade := None, deadline_restored := LAST_PRIORITY \<le> po_priority (fst e)\<rparr>"
    let ?k = "PrioritizedOrder normal (last_back_turn q + 1)"
    let ?q0 = "q\<lparr>queue := bm_remove (fst e) (queue q)\<rparr>"
    let ?q1 = "q\<lparr>queue := bm_insert ?k ?v (bm_remove (fst e) (queue q)), last_back_turn := last_back_turn q + 1\<rparr>"
    note rm = entries_ok_remove [OF inv(1) e(1)]
    have cnt: "counters_ok q" using entries_okD(3) [OF inv(1)] .
    have gone: "\<not> contains_tid ?q0 (qv_tid ?v)" using rm(2) by (simp add: contains_tid_def)
    obtain q' where q': "bm_get (bm_remove (fst e) (queue q)) ?k = None" "check_poll_upgrade ?q1 = Some q'"
      "entries_ok S q'" "set (tids (queue q')) = insert (qv_tid (snd e)) (set (tids (queue ?q0)))"
      "same_selection_state ?q1 q'"
      using push_inner_ok [OF rm(1) gone, of ?q1 ?k] cnt room by (auto simp: counters_ok_def)
    have same: "same_selection_state q q'" using q'(5) by (simp add: same_selection_state_def)
    have "tid \<in> set (tids (queue q))" using e by (auto simp: set_tids)
    then have "set (tids (queue q')) = set (tids (queue q))" using q'(4) rm(2) e(2) by auto
    then show ?thesis
      using q' same rq_closed_frame [OF closed q'(3) same] Some \<open>find_tid (queue q) tid = Some e\<close> inv(2)
      by (cases e) (auto simp: restore_poller_priority_def Let_def)
  qed
qed

subsection \<open>Suspension\<close>

lemma next_free_spec:
  "bm_get m (next_free m k) = None \<and> po_priority (next_free m k) = po_priority k
   \<and> po_turn k \<le> po_turn (next_free m k)"
proof (induction m k rule: next_free.induct)
  case (1 m key)
  then show ?case by (subst (1 2 3) next_free.simps) auto
qed

lemma entries_ok_mono: "entries_ok S q \<Longrightarrow> S' \<subseteq> S \<Longrightarrow> entries_ok S' q"
  unfolding entries_ok_def suspended_unique_def suspended_pairs_def by blast

lemma suspend_ok:
  assumes closed: "rq_closed S q"
  shows "\<exists>se q'. suspend q tid prio = Some (se, q') \<and> rq_closed (set_option se \<union> S) q'
    \<and> set (tids (queue q')) = set (tids (queue q)) - {tid} \<and> same_selection_state q q'"
proof (cases "find_tid (queue q) tid")
  case None
  then show ?thesis using closed find_tid_None [of "queue q" tid]
    by (auto simp: suspend_def rq_closed_iff same_selection_state_def)
next
  case (Some e)
  note e = find_tid_Some [OF Some]
  from closed have inv: "entries_ok S q" "tentative_selection q = None" by (simp_all add: rq_closed_iff)
  note old = entries_okD [OF inv(1)]
  note rm = entries_ok_remove [OF inv(1) e(1)]
  let ?se = "\<lparr>se_key = fst e, se_value = snd e, persistent_priority = prio\<rparr>"
  let ?q = "q\<lparr>queue := bm_remove (fst e) (queue q)\<rparr>"
  have setq: "set (queue ?q) = set (queue q) - {e}"
    using set_bm_remove_entry [OF old(1) e(1)] by simp
  have sep: "po_turn (se_key a) \<noteq> po_turn (fst e)" if "a \<in> S" "low_turn (se_key a)" for a
    using that inv(1) e(1) by (force simp: entries_ok_def suspended_pairs_def)
  have "suspended_unique (insert ?se S)"
    using inv(1) sep unfolding suspended_unique_def entries_ok_def low_turn_def
    by (metis insert_iff suspended_entry.select_convs(1))
  moreover have "entry_ok ?q e" using old(5) [OF e(1)] by (simp add: entry_ok_def)
  moreover have "po_turn (fst a) \<noteq> po_turn (fst b)"
    if "a \<in> suspended_pairs (insert ?se S)" "b \<in> set (queue ?q)" "low_turn (fst a)" for a b
  proof (cases "a = e")
    case True
    with that old(4) e(1) show ?thesis unfolding setq turns_unique_def by (metis DiffE singletonI)
  next
    case False
    with that(1) have "a \<in> suspended_pairs S" by (auto simp: suspended_pairs_def)
    then show ?thesis using that(2,3) by (rule entries_ok_sep [OF rm(1)])
  qed
  ultimately have "entries_ok (insert ?se S) ?q"
    using rm(1) unfolding entries_ok_def by (simp add: suspended_pairs_def)
  then show ?thesis
    using Some inv(2) rm(2) e(2) closed
    by (cases e) (auto simp: suspend_def rq_closed_iff same_selection_state_def)
qed

lemma restore_ok:
  assumes closed: "rq_closed S q" and se: "se \<in> S" and new: "\<not> contains_tid q (qv_tid (se_value se))"
  shows "\<exists>q'. restore q se prio = Some q' \<and> rq_closed (S - {se}) q'
    \<and> set (tids (queue q')) = insert (qv_tid (se_value se)) (set (tids (queue q)))
    \<and> same_selection_state q q'"
proof -
  from closed have inv: "entries_ok S q" "tentative_selection q = None" by (simp_all add: rq_closed_iff)
  obtain k0 v where kv: "(k0, v) =
      (if persistent_priority se \<noteq> prio
        then (PrioritizedOrder prio (po_turn (se_key se)),
              if poll_upgrade (se_value se) \<noteq> None
              then (se_value se)\<lparr>poll_upgrade := Some prio\<rparr> else se_value se)
        else (se_key se, se_value se))"
    by (metis surj_pair)
  then have turn: "po_turn k0 = po_turn (se_key se)" and tid: "qv_tid v = qv_tid (se_value se)"
    and up: "poll_upgrade (se_value se) = None \<Longrightarrow> poll_upgrade v = None"
    by (auto split: if_splits)
  define k where "k = (if RUN_TIME_TURNS \<le> po_turn k0 then next_free (queue q) k0 else k0)"
  let ?q = "q\<lparr>queue := bm_insert k v (queue q)\<rparr>"
  have inv': "entries_ok (S - {se}) q" using inv(1) by (rule entries_ok_mono) auto
  have sep_in: "(se_key se, se_value se) \<in> suspended_pairs S" using se by (auto simp: suspended_pairs_def)
  then have seok: "entry_ok q (se_key se, se_value se)" using inv(1) by (simp add: entries_ok_def)
  have low: "low_turn k \<longleftrightarrow> low_turn (se_key se)" "low_turn k \<Longrightarrow> po_turn k = po_turn (se_key se)"
    using next_free_spec [of "queue q" k0] turn by (auto simp: low_turn_def k_def)
  have sep: "po_turn (fst x) \<noteq> po_turn k"
    if x: "x \<in> set (queue q) \<union> suspended_pairs (S - {se})" and lowk: "low_turn k" for x
  proof (cases "x \<in> set (queue q)")
    case True
    then show ?thesis using entries_ok_sep [OF inv(1) sep_in] low lowk by fastforce
  next
    case False
    then obtain b where "b \<in> S" "b \<noteq> se" "x = (se_key b, se_value b)"
      using x by (auto simp: suspended_pairs_def)
    then show ?thesis
      using inv(1) low lowk se unfolding entries_ok_def suspended_unique_def by (metis fst_conv)
  qed
  have fresh: "bm_get (queue q) k = None"
  proof (cases "low_turn k")
    case True
    then show ?thesis unfolding bm_get_None_iff using sep by (metis UnI1 imageE)
  next
    case False
    then show ?thesis using next_free_spec [of "queue q" k0] by (auto simp: low_turn_def k_def)
  qed
  have "entry_ok ?q (k, v)"
    using seok up low by (auto simp: entry_ok_def)
  then have "entries_ok (S - {se}) ?q"
    using entries_ok_insert [OF inv' fresh, of v ?q] sep new tid entries_okD(3) [OF inv(1)]
    by (simp add: contains_tid_def counters_ok_def)
  moreover have "set (tids (queue ?q)) = insert (qv_tid v) (set (tids (queue q)))"
    using set_bm_insert_fresh [OF entries_okD(1) [OF inv(1)] fresh] by (simp add: set_tids)
  moreover have "restore q se prio = Some ?q"
    using inv(2) new fresh unfolding restore_def kv [symmetric] k_def by (simp add: Let_def)
  ultimately show ?thesis
    using closed tid by (auto simp: rq_closed_iff same_selection_state_def)
qed

end
