(* ===== verification/Run_Queue_Select.thy ===== *)
theory Run_Queue_Select
  imports Run_Queue_Ops
begin

text \<open>
  Selection from the run queue: which threads are eligible, that a non-empty queue always yields
  one, and that the tentative pop is a transaction (commit removes exactly the selected thread,
  undo leaves the queue as it was).
\<close>

subsection \<open>Eligibility\<close>

lemma eligible_tids_iff: "tid \<in> set (eligible_tids q) \<longleftrightarrow> contains_tid q tid \<and> tid \<notin> excluded_tids q"
  by (auto simp: eligible_tids_def contains_tid_def)

lemma skip_leaves_one:
  assumes "distinct (tids (queue q))" and "skip_tid q = Some tid"
  shows "\<exists>t \<in> set (tids (queue q)). t \<noteq> tid"
proof -
  have "1 < length (tids (queue q))"
    using assms(2) by (auto simp: skip_tid_def tids_def split: option.splits if_splits)
  then have "1 < card (set (tids (queue q)))"
    using assms(1) by (simp add: distinct_card)
  then have "\<not> set (tids (queue q)) \<subseteq> {tid}"
    by (metis card_mono card.empty card_insert_disjoint empty_iff finite.emptyI finite.insertI
        leD One_nat_def)
  then show ?thesis by auto
qed

lemma eligible_nonempty:
  assumes "distinct (tids (queue q))" and "queue q \<noteq> []"
  shows "eligible_tids q \<noteq> []"
proof -
  obtain t0 where t0: "t0 \<in> set (tids (queue q))"
    using assms(2) by (cases "queue q") auto
  let ?skipped = "case skip_tid q of None \<Rightarrow> {} | Some tid \<Rightarrow> {tid}"
  have skipped: "\<exists>t \<in> set (tids (queue q)). t \<notin> ?skipped"
    using t0 skip_leaves_one [OF assms(1)] by (cases "skip_tid q") auto
  have "\<exists>t \<in> set (tids (queue q)). t \<notin> excluded_tids q"
  proof (cases "yield_epoch q")
    case None
    then show ?thesis using skipped by (simp add: excluded_tids_def)
  next
    case (Some epoch)
    then show ?thesis using skipped by (auto simp: excluded_tids_def Let_def list_ex_iff)
  qed
  then show ?thesis by (auto simp: eligible_tids_def filter_empty_conv)
qed

lemma nth_opt_mem: "nth_opt xs i = Some x \<Longrightarrow> x \<in> set xs"
  by (auto simp: nth_opt_def split: if_splits)

lemma nth_opt_less: "i < length xs \<Longrightarrow> nth_opt xs i = Some (xs ! i)"
  by (simp add: nth_opt_def)

text \<open>What a selection leaves alone: everything but the random state and the selection.\<close>

definition same_queue_state :: "'g run_queue \<Rightarrow> 'g run_queue \<Rightarrow> bool" where
  "same_queue_state q q' \<longleftrightarrow>
     queue q' = queue q \<and> last_back_turn q' = last_back_turn q
     \<and> last_front_turn q' = last_front_turn q \<and> poll_upgrades q' = poll_upgrades q
     \<and> yielded_skip q' = yielded_skip q \<and> yield_epoch q' = yield_epoch q
     \<and> yield_streaks q' = yield_streaks q \<and> queued_by_yield q' = queued_by_yield q
     \<and> sched_strategy q' = sched_strategy q \<and> sticky_random_param q' = sticky_random_param q"

lemma random_index_ok:
  assumes "rng_in_range R" and "0 < n"
  shows "\<exists>i g. random_index R n q = Some (i, q\<lparr>prng := g\<rparr>) \<and> i < n"
  using assms by (auto simp: random_index_def rng_in_range_def split: prod.split)
    (metis fst_conv)

lemma random_pick:
  assumes "rng_in_range R" and "eligible_tids q \<noteq> []"
  obtains i g t where "random_index R (length (eligible_tids q)) q = Some (i, q\<lparr>prng := g\<rparr>)"
    "nth_opt (eligible_tids q) i = Some t" "t \<in> set (eligible_tids q)"
proof -
  obtain i g where "random_index R (length (eligible_tids q)) q = Some (i, q\<lparr>prng := g\<rparr>)"
    "i < length (eligible_tids q)"
    using random_index_ok [OF assms(1), of "length (eligible_tids q)" q] assms(2) by auto
  then show thesis using that [of i g "eligible_tids q ! i"] by (simp add: nth_opt_less)
qed

lemma select_next_eligible:
  assumes "rng_in_range R" and "distinct (tids (queue q))" and "queue q \<noteq> []"
    and closed: "tentative_selection q = None" "\<not> tentative_selection_is_exact q"
  shows "\<exists>t q'. select_next R q = Some (Some t, q') \<and> t \<in> set (eligible_tids q)
    \<and> tentative_selection q' = Some t \<and> \<not> tentative_selection_is_exact q'
    \<and> (sched_strategy q = StickyRandom \<longrightarrow> sticky_random_selection q' = Some t)
    \<and> (is_priority_ordered (sched_strategy q) \<longrightarrow> t = hd (eligible_tids q))
    \<and> same_queue_state q q'"
proof -
  have ne: "eligible_tids q \<noteq> []" using assms(2,3) by (rule eligible_nonempty)
  obtain i g t where pick: "random_index R (length (eligible_tids q)) q = Some (i, q\<lparr>prng := g\<rparr>)"
    "nth_opt (eligible_tids q) i = Some t" "t \<in> set (eligible_tids q)"
    using random_pick [OF assms(1) ne] .
  have first: "nth_opt (eligible_tids q) 0 = Some (hd (eligible_tids q))"
    "hd (eligible_tids q) \<in> set (eligible_tids q)"
    using ne by (simp_all add: nth_opt_def hd_conv_nth)
  show ?thesis
  proof (cases "sched_strategy q")
    case SchedNone
    then show ?thesis using first closed by (simp add: select_next_def same_queue_state_def)
  next
    case ConnectBind
    then show ?thesis using first closed by (simp add: select_next_def same_queue_state_def)
  next
    case SchedRandom
    then show ?thesis using pick closed assms(3)
      by (simp add: select_next_def same_queue_state_def is_priority_ordered_def Let_def)
  next
    case StickyRandom
    note sticky = this
    show ?thesis
    proof (cases "\<exists>s. sticky_random_selection q = Some s \<and> s \<notin> excluded_tids q \<and> contains_tid q s")
      case True
      then show ?thesis using sticky closed assms(3)
        by (auto simp: select_next_def same_queue_state_def is_priority_ordered_def eligible_tids_iff Let_def)
    next
      case False
      then show ?thesis using sticky closed assms(3) pick
        by (auto simp: select_next_def same_queue_state_def is_priority_ordered_def Let_def split: option.split)
    qed
  qed
qed

lemma select_next_empty:
  assumes "queue q = []" and "tentative_selection q = None"
  shows "select_next R q = Some (None, q)"
proof -
  have "q\<lparr>tentative_selection := None\<rparr> = q" using assms(2) by simp
  then show ?thesis
    using assms by (cases "sched_strategy q") (simp_all add: select_next_def eligible_tids_def nth_opt_def)
qed

text \<open>The queue as selection sees it: a yield epoch that is over is dropped first.\<close>

definition epoch_settled :: "'g run_queue \<Rightarrow> 'g run_queue" where
  "epoch_settled q = (if yield_epoch_over q then end_yield_epoch q else q)"

lemma epoch_settled_frame [simp]:
  "queue (epoch_settled q) = queue q" "last_back_turn (epoch_settled q) = last_back_turn q"
  "last_front_turn (epoch_settled q) = last_front_turn q"
  "tentative_selection (epoch_settled q) = tentative_selection q"
  "tentative_selection_is_exact (epoch_settled q) = tentative_selection_is_exact q"
  "sched_strategy (epoch_settled q) = sched_strategy q"
  "yielded_skip (epoch_settled q) = yielded_skip q"
  "poll_upgrades (epoch_settled q) = poll_upgrades q"
  "queued_by_yield (epoch_settled q) = queued_by_yield q"
  "sticky_random_param (epoch_settled q) = sticky_random_param q"
  by (simp_all add: epoch_settled_def end_yield_epoch_def)

lemma tentative_pop_next_select:
  "\<not> tentative_selection_is_exact q \<Longrightarrow> tentative_pop_next R q = select_next R (epoch_settled q)"
  by (simp add: tentative_pop_next_def epoch_settled_def)

lemma rq_inv_cong:
  assumes "same_queue_state q q'" "entries_ok S q" "selection_ok q'"
  shows "rq_inv S q'"
  using assms entries_ok_cong [of q' q S] by (simp add: rq_inv_def same_queue_state_def)

lemma tentative_pop_next_ok:
  assumes "rng_in_range R" and closed: "rq_closed S q"
  shows "\<exists>sel q'. tentative_pop_next R q = Some (sel, q') \<and> rq_inv S q' \<and> queue q' = queue q
    \<and> tentative_selection q' = sel \<and> (sel = None \<longleftrightarrow> queue q = [])"
proof -
  let ?e = "epoch_settled q"
  from closed have inv: "entries_ok S ?e" "tentative_selection q = None"
    "\<not> tentative_selection_is_exact q"
    by (simp_all add: rq_closed_iff entries_ok_cong [of ?e q S])
  show ?thesis
  proof (cases "queue q = []")
    case True
    then show ?thesis
      using inv select_next_empty [of ?e R] tentative_pop_next_select [OF inv(3)]
      by (simp add: rq_inv_def selection_ok_def)
  next
    case False
    obtain t q' where t: "select_next R ?e = Some (Some t, q')" "t \<in> set (eligible_tids ?e)"
      "tentative_selection q' = Some t" "\<not> tentative_selection_is_exact q'"
      "sched_strategy ?e = StickyRandom \<longrightarrow> sticky_random_selection q' = Some t" "same_queue_state ?e q'"
      using select_next_eligible [OF assms(1), of ?e] entries_okD(2) [OF inv(1)] False inv by auto
    have "selection_ok q'"
      using t by (auto simp: selection_ok_def same_queue_state_def eligible_tids_iff contains_tid_def)
    then have "rq_inv S q'" using t(6) inv(1) by (rule rq_inv_cong [rotated 2])
    then show ?thesis
      using t False tentative_pop_next_select [OF inv(3)] by (simp add: same_queue_state_def)
  qed
qed

lemma tentative_pop_tid_ok:
  assumes "rq_closed S q"
  shows "\<exists>sel q'. tentative_pop_tid q tid = Some (sel, q') \<and> rq_inv S q' \<and> queue q' = queue q
    \<and> sel = (if contains_tid q tid then Some tid else None)"
proof -
  let ?q = "q\<lparr>tentative_selection := Some tid, tentative_selection_is_exact := True\<rparr>"
  from assms have "entries_ok S ?q" by (simp add: rq_closed_iff entries_ok_cong [of ?q q S])
  then show ?thesis
    using assms by (auto simp: tentative_pop_tid_def rq_closed_def rq_inv_def selection_ok_def contains_tid_def)
qed

subsection \<open>Commit and undo\<close>

lemma take_entry_ok:
  assumes inv: "entries_ok S q" and "contains_tid q tid"
  shows "take_entry q tid = Some (tid, q\<lparr>queue := filter (\<lambda>e. qv_tid (snd e) \<noteq> tid) (queue q)\<rparr>)"
proof -
  obtain e where e: "find_tid (queue q) tid = Some e" "e \<in> set (queue q)" "qv_tid (snd e) = tid"
    using find_tid_contained [OF assms(2)] by blast
  have "bm_get (queue q) (fst e) = Some (snd e)"
    using e(2) entries_okD(1) [OF inv] by (simp add: bm_get_iff)
  then show ?thesis
    using e bm_remove_eq_filter_tid [OF inv e(2)] by (cases e) (simp add: take_entry_def)
qed

lemma commit_selection_ok:
  assumes inv: "rq_inv S q" and sel: "tentative_selection q = Some tid"
  shows "\<exists>q'. commit_selection R q = Some (tid, q') \<and> rq_closed S q'
    \<and> queue q' = filter (\<lambda>e. qv_tid (snd e) \<noteq> tid) (queue q)
    \<and> yielded_skip q' = yielded_skip q \<and> yield_epoch q' = yield_epoch q
    \<and> yield_streaks q' = yield_streaks q \<and> sched_strategy q' = sched_strategy q
    \<and> last_back_turn q' = last_back_turn q \<and> last_front_turn q' = last_front_turn q"
proof -
  from inv sel have ents: "entries_ok S q" and con: "contains_tid q tid"
    by (simp_all add: rq_inv_def selection_ok_def)
  let ?q1 = "q\<lparr>tentative_selection := None, tentative_selection_is_exact := False\<rparr>"
  let ?rest = "filter (\<lambda>e. qv_tid (snd e) \<noteq> tid) (queue q)"
  have taken: "take_entry q1 tid = Some (tid, q1\<lparr>queue := ?rest\<rparr>)"
    if "queue q1 = queue q" "last_back_turn q1 = last_back_turn q"
      "last_front_turn q1 = last_front_turn q" for q1 :: "'a run_queue"
    using take_entry_ok [of S q1 tid] that ents con entries_ok_cong [of q1 q S]
    by (simp add: contains_tid_def)
  have rest: "entries_ok S q2"
    if "queue q2 = ?rest" "last_back_turn q2 = last_back_turn q"
      "last_front_turn q2 = last_front_turn q" for q2 :: "'a run_queue"
    using entries_ok_filter [OF ents that(1,3,2)] .
  show ?thesis
  proof (cases "tentative_selection_is_exact q \<or> sched_strategy q \<noteq> StickyRandom")
    case True
    then show ?thesis
      using sel taken [of ?q1] by (simp add: commit_selection_def rq_closed_iff rest)
  next
    case False
    then have "sticky_random_selection q = Some tid"
      using inv sel by (simp add: rq_inv_def selection_ok_def)
    then show ?thesis
      using sel False taken
      by (simp add: commit_selection_def take_sticky_def rq_closed_iff rest Let_def split: prod.split)
  qed
qed

lemma undo_tentative_pop_ok:
  assumes "rq_inv S q" and "tentative_selection q \<noteq> None"
  shows "\<exists>q'. undo_tentative_pop q = Some q' \<and> rq_closed S q' \<and> queue q' = queue q"
  using assms entries_ok_cong [of "q\<lparr>tentative_selection := None, tentative_selection_is_exact := False\<rparr>" q S]
  by (simp add: undo_tentative_pop_def rq_closed_iff rq_inv_def)

lemma remove_tid_ok:
  assumes "rq_closed S q"
  shows "\<exists>q'. remove_tid q tid = Some (contains_tid q tid, q') \<and> rq_closed S q'
    \<and> queue q' = filter (\<lambda>e. qv_tid (snd e) \<noteq> tid) (queue q)"
proof -
  have "entries_ok S q" using assms by (simp add: rq_closed_iff)
  then show ?thesis
    using assms
    by (auto simp: remove_tid_def rq_closed_iff Let_def contains_tid_def set_tids list_all_iff
        intro: entries_ok_filter)
qed

end
