(* ===== verification/Run_Queue_Order.thy ===== *)
theory Run_Queue_Order
  imports Run_Queue_Ops
begin

text \<open>
  Ordering the round-robin entries by run time: the reordered entries keep their band and value,
  take turns above every turn that \<open>push_back\<close> hands out, and stand in the wanted order; the other
  entries do not move.
\<close>

lemma run_time_turn_ge: "RUN_TIME_TURNS \<le> run_time_turn t"
  by (simp add: run_time_turn_def RUN_TIME_TURNS_def)

definition after_prev :: "prioritized_order option \<Rightarrow> prioritized_order \<Rightarrow> bool" where
  "after_prev prev k \<longleftrightarrow> (case prev of None \<Rightarrow> True | Some p \<Rightarrow> p < k)"

definition prev_band_le :: "prioritized_order option \<Rightarrow> priority \<Rightarrow> bool" where
  "prev_band_le prev prio \<longleftrightarrow> (case prev of None \<Rightarrow> True | Some p \<Rightarrow> po_priority p \<le> prio)"

text \<open>The loop's outcome: the entries it adds, in key order.\<close>

definition order_result ::
  "queue_map \<Rightarrow> (priority \<times> run_time_key \<times> queue_value) list \<Rightarrow> prioritized_order option
   \<Rightarrow> queue_map \<Rightarrow> queue_map \<Rightarrow> bool" where
  "order_result m moved prev m' ks \<longleftrightarrow>
     bm_ok m' \<and> bm_ok ks \<and> set m' = set m \<union> set ks \<and> fst ` set m \<inter> fst ` set ks = {}
     \<and> map snd ks = map (\<lambda>x. snd (snd x)) moved \<and> map (\<lambda>e. po_priority (fst e)) ks = map fst moved
     \<and> (\<forall>e \<in> set ks. RUN_TIME_TURNS \<le> po_turn (fst e) \<and> after_prev prev (fst e))"

definition first_turn :: "prioritized_order option \<Rightarrow> priority \<Rightarrow> nat \<Rightarrow> int" where
  "first_turn prev prio run_time = (case prev of
       Some previous \<Rightarrow>
         if po_priority previous = prio
         then max (run_time_turn run_time) (po_turn previous + 1) else run_time_turn run_time
     | None \<Rightarrow> run_time_turn run_time)"

lemma first_turn_ge: "RUN_TIME_TURNS \<le> first_turn prev prio t"
  using run_time_turn_ge [of t] by (auto simp: first_turn_def split: option.split)

lemma first_turn_after:
  "prev_band_le prev prio \<Longrightarrow> first_turn prev prio t \<le> po_turn k \<Longrightarrow> po_priority k = prio
   \<Longrightarrow> after_prev prev k"
  by (auto simp: first_turn_def after_prev_def prev_band_le_def less_prioritized_order_def
      split: option.splits if_splits)

lemma after_prev_trans: "after_prev prev k \<Longrightarrow> k < k' \<Longrightarrow> after_prev prev k'"
  by (auto simp: after_prev_def split: option.splits)

lemma order_loop_result:
  assumes "bm_ok m" and "sorted (map fst moved)" and "\<forall>x \<in> set moved. prev_band_le prev (fst x)"
  shows "\<exists>m' ks. order_loop moved prev m = Some m' \<and> order_result m moved prev m' ks"
  using assms
proof (induction moved arbitrary: prev m)
  case Nil
  then show ?case by (simp add: order_result_def)
next
  case (Cons x moved)
  obtain prio skey v where x: "x = (prio, skey, v)" by (metis surj_pair)
  define key where "key = next_free m (PrioritizedOrder prio (first_turn prev prio (fst skey)))"
  have key: "bm_get m key = None" "po_priority key = prio" "first_turn prev prio (fst skey) \<le> po_turn key"
    using next_free_spec [of m "PrioritizedOrder prio (first_turn prev prio (fst skey))"]
    by (simp_all add: key_def)
  have step: "order_loop (x # moved) prev m = order_loop moved (Some key) (bm_insert key v m)"
    using key(1) unfolding x order_loop.simps Let_def key_def first_turn_def by simp
  have ok: "bm_ok (bm_insert key v m)" using Cons.prems(1) by (rule bm_insert_ok)
  have band: "\<forall>y \<in> set moved. prev_band_le (Some key) (fst y)"
    using Cons.prems(2) key(2) x by (auto simp: prev_band_le_def)
  obtain m' ks where ih: "order_loop moved (Some key) (bm_insert key v m) = Some m'"
    "order_result (bm_insert key v m) moved (Some key) m' ks"
    using Cons.IH [OF ok _ band] Cons.prems(2) by auto
  have set_ins: "set (bm_insert key v m) = insert (key, v) (set m)"
    by (rule set_bm_insert_fresh [OF Cons.prems(1) key(1)])
  have aft: "after_prev prev key"
    using first_turn_after [OF _ key(3,2)] Cons.prems(3) x by simp
  have gt: "\<forall>e \<in> set ks. key < fst e" using ih(2) by (simp add: order_result_def after_prev_def)
  have "RUN_TIME_TURNS \<le> po_turn key" using first_turn_ge key(3) order_trans by blast
  moreover have "fst ` set m \<inter> fst ` set ((key, v) # ks) = {}"
    using ih(2) key(1) set_ins by (auto simp: order_result_def bm_get_None_iff)
  moreover have "bm_ok ((key, v) # ks)" using ih(2) gt by (simp add: order_result_def bm_ok_Cons)
  moreover have "\<forall>e \<in> set ks. after_prev prev (fst e)" using gt aft after_prev_trans by blast
  ultimately have "order_result m (x # moved) prev m' ((key, v) # ks)"
    using ih(2) set_ins x key(2) aft unfolding order_result_def by auto
  then show ?case using step ih(1) by auto
qed

lemma mset_partition_eq:
  assumes "bm_ok m'" "bm_ok ks" "distinct m" "set m' = set m \<union> set ks" "fst ` set m \<inter> fst ` set ks = {}"
  shows "mset m' = mset m + mset ks"
proof -
  have "set m \<inter> set ks = {}" using assms(5) by blast
  then have "distinct (m @ ks)" using assms(2,3) by (simp add: bm_ok_distinct)
  moreover have "set m' = set (m @ ks)" using assms(4) by simp
  ultimately have "mset m' = mset (m @ ks)"
    using set_eq_iff_mset_eq_distinct [OF bm_ok_distinct [OF assms(1)], of "m @ ks"] by simp
  then show ?thesis by simp
qed

lemma sorted_map_fst:
  "sorted xs \<Longrightarrow> sorted (map fst (xs :: ('a::linorder \<times> 'b::linorder) list))"
  by (induction xs) (auto simp: less_eq_prod_def)

lemma order_by_run_time_result:
  assumes closed: "rq_closed S q" and wanted: "wanted = map_of (rev order)"
  shows "\<exists>m' ks. order_by_run_time q order = Some (q\<lparr>queue := m'\<rparr>)
    \<and> order_result (filter (\<lambda>e. \<not> run_time_picked wanted e) (queue q))
        (map (\<lambda>e. (po_priority (fst e), the (wanted (qv_tid (snd e))), snd e))
          (sort_key (run_time_sort_key wanted) (filter (run_time_picked wanted) (queue q)))) None m' ks"
proof -
  let ?picked = "sort_key (run_time_sort_key wanted) (filter (run_time_picked wanted) (queue q))"
  let ?rest = "filter (\<lambda>e. \<not> run_time_picked wanted e) (queue q)"
  have sel: "tentative_selection q = None" and ok: "bm_ok (queue q)"
    using closed entries_okD(1) by (auto simp: rq_closed_iff)
  have "sorted (map (run_time_sort_key wanted) ?picked)" by simp
  then have "sorted (map fst (map (run_time_sort_key wanted) ?picked))"
    by (rule sorted_map_fst)
  then have "sorted (map (\<lambda>e. po_priority (fst e)) ?picked)"
    by (simp add: run_time_sort_key_def o_def)
  then obtain m' ks where
    "order_loop (map (\<lambda>e. (po_priority (fst e), the (wanted (qv_tid (snd e))), snd e)) ?picked) None ?rest = Some m'"
    "order_result ?rest (map (\<lambda>e. (po_priority (fst e), the (wanted (qv_tid (snd e))), snd e)) ?picked) None m' ks"
    using order_loop_result [OF bm_filter_ok [OF ok, of "\<lambda>e. \<not> run_time_picked wanted e"], of
        "map (\<lambda>e. (po_priority (fst e), the (wanted (qv_tid (snd e))), snd e)) ?picked" None]
    by (auto simp: o_def prev_band_le_def)
  then show ?thesis
    using sel unfolding order_by_run_time_def wanted [symmetric] by (auto simp: Let_def)
qed

text \<open>What the outcome means for the queue as a whole.\<close>

abbreviation entry_band :: "prioritized_order \<times> queue_value \<Rightarrow> priority \<times> queue_value" where
  "entry_band e \<equiv> (po_priority (fst e), snd e)"

lemma order_result_bands:
  assumes "order_result rest
      (map (\<lambda>e. (po_priority (fst e), the (wanted (qv_tid (snd e))), snd e)) picked) None m' ks"
  shows "map entry_band ks = map entry_band picked"
  using assms by (intro map_pair_eq) (simp_all add: order_result_def o_def)

lemma run_time_picked_band:
  assumes "entry_band e' = entry_band e" "run_time_picked wanted e" "0 \<le> po_turn (fst e')"
  shows "run_time_picked wanted e'"
  using assms by (auto simp: run_time_picked_def in_round_robin_order_def)

lemma map_sort_key_bands:
  assumes "map entry_band xs = map entry_band ys"
  shows "map (run_time_sort_key wanted) xs = map (run_time_sort_key wanted) ys"
proof -
  have eq: "run_time_sort_key wanted = (\<lambda>(p, v). (p, the (wanted (qv_tid v)), qv_tid v)) \<circ> (\<lambda>e. entry_band e)"
    by (rule ext) (simp add: run_time_sort_key_def)
  show ?thesis by (simp only: eq map_map [symmetric] assms)
qed

lemma order_by_run_time_ok:
  assumes closed: "rq_closed S q" and wanted: "wanted = map_of (rev order)"
  shows "\<exists>q'. order_by_run_time q order = Some q' \<and> rq_closed S q' \<and> same_selection_state q q'
    \<and> filter (\<lambda>e. \<not> run_time_picked wanted e) (queue q') = filter (\<lambda>e. \<not> run_time_picked wanted e) (queue q)
    \<and> sorted (map (run_time_sort_key wanted) (filter (run_time_picked wanted) (queue q')))
    \<and> mset (map entry_band (queue q')) = mset (map entry_band (queue q))"
proof -
  let ?P = "run_time_picked wanted"
  let ?rest = "filter (\<lambda>e. \<not> ?P e) (queue q)"
  let ?picked = "sort_key (run_time_sort_key wanted) (filter ?P (queue q))"
  obtain m' ks where res: "order_by_run_time q order = Some (q\<lparr>queue := m'\<rparr>)"
    and r: "order_result ?rest
        (map (\<lambda>e. (po_priority (fst e), the (wanted (qv_tid (snd e))), snd e)) ?picked) None m' ks"
    using order_by_run_time_result [OF closed wanted] by blast
  from closed have inv: "entries_ok S q" by (simp add: rq_closed_iff)
  note old = entries_okD [OF inv]
  have m': "bm_ok m'" "bm_ok ks" "set m' = set ?rest \<union> set ks" "fst ` set ?rest \<inter> fst ` set ks = {}"
    and turns: "\<And>e. e \<in> set ks \<Longrightarrow> RUN_TIME_TURNS \<le> po_turn (fst e)"
    using r by (simp_all add: order_result_def)
  note bands = order_result_bands [OF r]
  have ksP: "?P e" if "e \<in> set ks" for e
  proof -
    have "entry_band e \<in> set (map entry_band ks)" using that by simp
    then have "entry_band e \<in> entry_band ` set ?picked" unfolding bands by simp
    then obtain x where x: "entry_band e = entry_band x" "x \<in> set ?picked" by (rule imageE)
    then have "?P x" by simp
    then show ?thesis
      using turns [OF that] run_time_picked_band [OF x(1)] by (simp add: RUN_TIME_TURNS_def)
  qed
  have filt: "filter (\<lambda>e. \<not> ?P e) m' = ?rest" "filter ?P m' = ks"
    using m' ksP old(1) by (auto intro!: bm_ok_set_eq bm_filter_ok)
  have "mset m' = mset ?rest + mset ks"
    using mset_partition_eq [OF m'(1,2) _ m'(3,4)] bm_ok_distinct [OF old(1)] by simp
  moreover have "image_mset entry_band (mset ks) = image_mset entry_band (mset (filter ?P (queue q)))"
    using arg_cong [OF bands, of mset] by simp
  moreover have "image_mset entry_band (mset (queue q)) =
      image_mset entry_band (mset (filter ?P (queue q))) + image_mset entry_band (mset ?rest)"
    unfolding mset_filter by (metis image_mset_union multiset_partition)
  ultimately have band_eq: "mset (map entry_band m') = mset (map entry_band (queue q))"
    by simp
  have "map (run_time_sort_key wanted) ks = map (run_time_sort_key wanted) ?picked"
    using bands by (rule map_sort_key_bands)
  then have sorted: "sorted (map (run_time_sort_key wanted) (filter ?P m'))"
    using filt(2) by (simp del: sort_key_simps)
  have ents: "entries_ok S (q\<lparr>queue := m'\<rparr>)"
  proof -
    have "mset (tids m') = image_mset (\<lambda>b. qv_tid (snd b)) (mset (map entry_band m'))"
      by (simp add: tids_def image_mset.compositionality o_def)
    also have "\<dots> = mset (tids (queue q))"
      unfolding band_eq by (simp add: tids_def image_mset.compositionality o_def)
    finally have "distinct (tids m')" using old(2) by (metis mset_eq_imp_distinct_iff)
    moreover have "turns_unique (set m')"
    proof -
      have "a \<in> set (queue q)" if "a \<in> set m'" "low_turn (fst a)" for a
        using that m'(3) turns by (fastforce simp: low_turn_def)
      then show ?thesis using old(4) unfolding turns_unique_def low_turn_def by metis
    qed
    moreover have eo: "entry_ok (q\<lparr>queue := m'\<rparr>) = entry_ok q"
      by (simp add: entry_ok_def fun_eq_iff)
    moreover have "entry_ok q e" if "e \<in> set m'" for e
    proof (cases "e \<in> set ks")
      case True
      then show ?thesis using turns [OF True] ksP [OF True]
        by (simp add: entry_ok_def low_turn_def run_time_picked_def in_round_robin_order_def)
    next
      case False
      then have "e \<in> set (queue q)" using that m'(3) by simp
      then show ?thesis using old(5) by (simp add: entry_ok_def)
    qed
    moreover have "po_turn (fst a) \<noteq> po_turn (fst b)"
      if "a \<in> suspended_pairs S" "b \<in> set m'" "low_turn (fst a)" for a b
    proof (cases "b \<in> set ks")
      case True
      then show ?thesis using turns [OF True] that(3) by (simp add: low_turn_def)
    next
      case False
      then have "b \<in> set (queue q)" using that(2) m'(3) by simp
      then show ?thesis by (rule entries_ok_sep [OF inv that(1) _ that(3)])
    qed
    ultimately show ?thesis
      using inv m'(1) eo unfolding entries_ok_def by (simp add: counters_ok_def)
  qed
  show ?thesis
    using res rq_closed_frame [OF closed ents] filt sorted band_eq
    by (simp add: same_selection_state_def)
qed

end
