(* ===== verification/Protocol.thy ===== *)
theory Protocol
  imports Prelude
begin

text \<open>
  Components with a call protocol. A component offers a set of calls; a call is legal in some states
  and may panic outside them; an abstract specification says what a call may do to what the client
  sees. The locale below takes the contract for one call and gives it for every history of legal
  calls; the components interpret it on their own state and their own calls.
\<close>

primrec run_calls :: "('c \<Rightarrow> 's \<Rightarrow> 's option) \<Rightarrow> 'c list \<Rightarrow> 's \<Rightarrow> 's option" where
  "run_calls step [] s = Some s"
| "run_calls step (c # cs) s = step c s \<bind> run_calls step cs"

primrec legal_calls :: "('c \<Rightarrow> 's \<Rightarrow> bool) \<Rightarrow> ('c \<Rightarrow> 's \<Rightarrow> 's option) \<Rightarrow> 'c list \<Rightarrow> 's \<Rightarrow> bool" where
  "legal_calls pre step [] s \<longleftrightarrow> True"
| "legal_calls pre step (c # cs) s \<longleftrightarrow>
     pre c s \<and> (case step c s of None \<Rightarrow> True | Some s' \<Rightarrow> legal_calls pre step cs s')"

inductive spec_run :: "('c \<Rightarrow> 'a \<Rightarrow> 'a \<Rightarrow> bool) \<Rightarrow> 'c list \<Rightarrow> 'a \<Rightarrow> 'a \<Rightarrow> bool"
  for spec :: "'c \<Rightarrow> 'a \<Rightarrow> 'a \<Rightarrow> bool" where
  spec_Nil: "spec_run spec [] a a"
| spec_Cons: "spec c a b \<Longrightarrow> spec_run spec cs b d \<Longrightarrow> spec_run spec (c # cs) a d"

inductive_simps spec_run_simps [simp]:
  "spec_run spec [] a b"
  "spec_run spec (c # cs) a b"

lemma run_calls_append:
  "run_calls step (cs @ ds) s = run_calls step cs s \<bind> run_calls step ds"
  by (induction cs arbitrary: s) (simp_all add: Option.bind_assoc cong: bind_option_cong)

lemma legal_calls_append:
  "legal_calls pre step (cs @ ds) s \<longleftrightarrow>
     legal_calls pre step cs s
     \<and> (case run_calls step cs s of None \<Rightarrow> True | Some s' \<Rightarrow> legal_calls pre step ds s')"
  by (induction cs arbitrary: s) (auto split: option.split)

lemma spec_run_unique:
  assumes "\<And>c a b b'. spec c a b \<Longrightarrow> spec c a b' \<Longrightarrow> b = b'"
  shows "spec_run spec cs a b \<Longrightarrow> spec_run spec cs a b' \<Longrightarrow> b = b'"
  using assms by (induction cs arbitrary: a) (simp, simp, blast)

text \<open>A history that returned had, at every call, whatever room the call needs to return.\<close>

lemma legal_calls_returned:
  assumes "\<And>c s s'. step c s = Some s' \<Longrightarrow> room c s"
  shows "legal_calls pre step cs s \<Longrightarrow> run_calls step cs s = Some s'
    \<Longrightarrow> legal_calls (\<lambda>c s. pre c s \<and> room c s) step cs s"
  using assms by (induction cs arbitrary: s) (auto simp: bind_eq_Some_conv)

text \<open>A measure that each call raises by one at most is bounded by the length of the history.\<close>

lemma run_calls_bound:
  fixes f :: "'s \<Rightarrow> int"
  assumes "\<And>c s s'. step c s = Some s' \<Longrightarrow> f s' \<le> f s + 1"
  shows "run_calls step cs s = Some s' \<Longrightarrow> f s' \<le> f s + int (length cs)"
proof (induction cs arbitrary: s)
  case (Cons c cs)
  then obtain s1 where "step c s = Some s1" "run_calls step cs s1 = Some s'"
    by (auto simp: bind_eq_Some_conv)
  then show ?case using Cons.IH [of s1] assms [of c s s1] by simp
qed simp

locale protocol_object =
  fixes inv :: "'s \<Rightarrow> bool"
    and pre :: "'c \<Rightarrow> 's \<Rightarrow> bool"
    and step :: "'c \<Rightarrow> 's \<Rightarrow> 's option"
    and abs :: "'s \<Rightarrow> 'a"
    and spec :: "'c \<Rightarrow> 'a \<Rightarrow> 'a \<Rightarrow> bool"
  assumes call_ok: "inv s \<Longrightarrow> pre c s \<Longrightarrow> \<exists>s'. step c s = Some s' \<and> inv s' \<and> spec c (abs s) (abs s')"
begin

lemma history_ok:
  "inv s \<Longrightarrow> legal_calls pre step cs s
   \<Longrightarrow> \<exists>s'. run_calls step cs s = Some s' \<and> inv s' \<and> spec_run spec cs (abs s) (abs s')"
proof (induction cs arbitrary: s)
  case (Cons c cs)
  from call_ok [OF Cons.prems(1), of c] Cons.prems(2)
  obtain s1 where s1: "step c s = Some s1" "inv s1" "spec c (abs s) (abs s1)" by auto
  with Cons.prems(2) Cons.IH [OF s1(2)] show ?case by auto
qed simp

lemma history_inv:
  assumes "inv s" "legal_calls pre step cs s" "run_calls step cs s = Some s'"
  shows "inv s'"
  using history_ok [OF assms(1,2)] assms(3) by simp

text \<open>A measure that no call lowers is not lowered by a history.\<close>

lemma history_mono:
  fixes f :: "'s \<Rightarrow> 'o::order"
  assumes mono: "\<And>s c s'. inv s \<Longrightarrow> pre c s \<Longrightarrow> step c s = Some s' \<Longrightarrow> f s \<le> f s'"
  shows "inv s \<Longrightarrow> legal_calls pre step cs s \<Longrightarrow> run_calls step cs s = Some s' \<Longrightarrow> f s \<le> f s'"
proof (induction cs arbitrary: s)
  case (Cons c cs)
  from call_ok [OF Cons.prems(1), of c] Cons.prems(2)
  obtain s1 where s1: "step c s = Some s1" "inv s1" by auto
  have "f s \<le> f s1" using mono Cons.prems(1,2) s1(1) by auto
  also have "f s1 \<le> f s'" using Cons.IH [OF s1(2)] Cons.prems(2,3) s1(1) by simp
  finally show ?case .
qed simp

end

end
