(* ===== verification/Run_Queue_Hist.thy ===== *)
theory Run_Queue_Hist
  imports Run_Queue_Select Run_Queue_Order Protocol
begin

text \<open>
  Histories of the run queue: the calls the scheduler makes on it, the protocol those calls follow,
  and what holds along every history that follows it. A state is the queue together with the
  suspended entries that the caller still holds (the values \<open>suspend\<close> returned and \<open>restore\<close> has
  not yet taken back).
\<close>

datatype rq_call =
    PushBack det_tid priority
  | PushYielded det_tid priority
  | PushYieldedIntoEpoch det_tid priority
  | PushPoller det_tid priority nat
  | PushFront det_tid priority
  | PushEagerIoRepoll det_tid
  | RestorePollerPriority det_tid
  | UpgradePollers
  | Suspend det_tid priority
  | Restore suspended_entry priority
  | OrderByRunTime "(det_tid \<times> run_time_key) list"
  | RemoveTid det_tid
  | ConsumeYieldExclusion
  | TentativePopNext
  | TentativePopTid det_tid
  | CommitTentativePop
  | CommitTentativePopYield
  | CommitTentativePopCompletedTurn
  | UndoTentativePop

type_synonym 'g rq_state = "'g run_queue \<times> suspended_entry list"

fun rq_step :: "'g rng \<Rightarrow> rq_call \<Rightarrow> 'g rq_state \<Rightarrow> 'g rq_state option" where
  "rq_step R (PushBack t p) (q, S) = map_option (\<lambda>r. (snd r, S)) (push_back q t p)"
| "rq_step R (PushYielded t p) (q, S) = map_option (\<lambda>r. (snd r, S)) (push_yielded q t p)"
| "rq_step R (PushYieldedIntoEpoch t p) (q, S) =
     map_option (\<lambda>r. (snd r, S)) (push_yielded_into_epoch q t p)"
| "rq_step R (PushPoller t p n) (q, S) = map_option (\<lambda>r. (snd r, S)) (push_poller q t p n)"
| "rq_step R (PushFront t p) (q, S) = map_option (\<lambda>r. (snd r, S)) (push_front q t p)"
| "rq_step R (PushEagerIoRepoll t) (q, S) = map_option (\<lambda>r. (snd r, S)) (push_eager_io_repoll q t)"
| "rq_step R (RestorePollerPriority t) (q, S) =
     map_option (\<lambda>r. (snd r, S)) (restore_poller_priority q t)"
| "rq_step R UpgradePollers (q, S) = map_option (\<lambda>r. (snd r, S)) (upgrade_pollers q)"
| "rq_step R (Suspend t p) (q, S) =
     map_option (\<lambda>(se, q'). (q', case se of None \<Rightarrow> S | Some e \<Rightarrow> e # S)) (suspend q t p)"
| "rq_step R (Restore se p) (q, S) = map_option (\<lambda>q'. (q', removeAll se S)) (restore q se p)"
| "rq_step R (OrderByRunTime ord) (q, S) = map_option (\<lambda>q'. (q', S)) (order_by_run_time q ord)"
| "rq_step R (RemoveTid t) (q, S) = map_option (\<lambda>r. (snd r, S)) (remove_tid q t)"
| "rq_step R ConsumeYieldExclusion (q, S) = Some (consume_yield_exclusion q, S)"
| "rq_step R TentativePopNext (q, S) = map_option (\<lambda>r. (snd r, S)) (tentative_pop_next R q)"
| "rq_step R (TentativePopTid t) (q, S) = map_option (\<lambda>r. (snd r, S)) (tentative_pop_tid q t)"
| "rq_step R CommitTentativePop (q, S) = map_option (\<lambda>r. (snd r, S)) (commit_tentative_pop R q)"
| "rq_step R CommitTentativePopYield (q, S) =
     map_option (\<lambda>r. (snd r, S)) (commit_tentative_pop_yield R q)"
| "rq_step R CommitTentativePopCompletedTurn (q, S) =
     map_option (\<lambda>r. (snd r, S)) (commit_tentative_pop_completed_turn R q)"
| "rq_step R UndoTentativePop (q, S) = map_option (\<lambda>q'. (q', S)) (undo_tentative_pop q)"

text \<open>
  The protocol. Between a tentative pop and its commit or undo nothing else is called; a thread is
  queued only when it is not queued already; priorities given by callers are ordinary ones; a
  suspended entry is restored once; and the back turn counter stays below the band of run time turns,
  that is, fewer than \<open>2 ^ 61\<close> entries are ever queued at the back.
\<close>

definition room :: "'g run_queue \<Rightarrow> bool" where
  "room q \<longleftrightarrow> last_back_turn q + 1 < RUN_TIME_TURNS"

definition may_push :: "'g run_queue \<Rightarrow> det_tid \<Rightarrow> bool" where
  "may_push q t \<longleftrightarrow> tentative_selection q = None \<and> \<not> contains_tid q t"

fun rq_pre :: "rq_call \<Rightarrow> 'g rq_state \<Rightarrow> bool" where
  "rq_pre (PushBack t p) (q, S) \<longleftrightarrow> may_push q t \<and> is_ordinary_priority p \<and> room q"
| "rq_pre (PushYielded t p) (q, S) \<longleftrightarrow>
     may_push q t \<and> is_ordinary_priority p \<and> room q \<and> yielded_skip q = None"
| "rq_pre (PushYieldedIntoEpoch t p) (q, S) \<longleftrightarrow> may_push q t \<and> is_ordinary_priority p \<and> room q"
| "rq_pre (PushPoller t p n) (q, S) \<longleftrightarrow> may_push q t \<and> room q"
| "rq_pre (PushFront t p) (q, S) \<longleftrightarrow> may_push q t \<and> is_ordinary_priority p"
| "rq_pre (PushEagerIoRepoll t) (q, S) \<longleftrightarrow> may_push q t"
| "rq_pre (RestorePollerPriority t) (q, S) \<longleftrightarrow> tentative_selection q = None \<and> room q"
| "rq_pre UpgradePollers (q, S) \<longleftrightarrow> tentative_selection q = None"
| "rq_pre (Suspend t p) (q, S) \<longleftrightarrow> tentative_selection q = None"
| "rq_pre (Restore se p) (q, S) \<longleftrightarrow> se \<in> set S \<and> may_push q (qv_tid (se_value se))"
| "rq_pre (OrderByRunTime ord) (q, S) \<longleftrightarrow> tentative_selection q = None"
| "rq_pre (RemoveTid t) (q, S) \<longleftrightarrow> tentative_selection q = None"
| "rq_pre ConsumeYieldExclusion (q, S) \<longleftrightarrow> True"
| "rq_pre TentativePopNext (q, S) \<longleftrightarrow> tentative_selection q = None"
| "rq_pre (TentativePopTid t) (q, S) \<longleftrightarrow> tentative_selection q = None"
| "rq_pre CommitTentativePop (q, S) \<longleftrightarrow> tentative_selection q \<noteq> None"
| "rq_pre CommitTentativePopYield (q, S) \<longleftrightarrow> tentative_selection q \<noteq> None"
| "rq_pre CommitTentativePopCompletedTurn (q, S) \<longleftrightarrow> tentative_selection q \<noteq> None"
| "rq_pre UndoTentativePop (q, S) \<longleftrightarrow> tentative_selection q \<noteq> None"

text \<open>
  The streak of yields of a thread is a \<open>u32\<close>, and a yield that is counted when it is full overflows.
  A yield needs room in it, in addition to the protocol.
\<close>

fun rq_room :: "rq_call \<Rightarrow> 'g rq_state \<Rightarrow> bool" where
  "rq_room (PushYieldedIntoEpoch t p) (q, S) \<longleftrightarrow> streak_room q t"
| "rq_room _ _ \<longleftrightarrow> True"

abbreviation rq_legal :: "rq_call \<Rightarrow> 'g rq_state \<Rightarrow> bool" where
  "rq_legal c st \<equiv> rq_pre c st \<and> rq_room c st"

lemma rq_step_room: "rq_step R c st = Some st' \<Longrightarrow> rq_room c st"
  using count_yield_room
  by (cases c; cases st) (auto simp: push_yielded_into_epoch_def bind_eq_Some_conv)

text \<open>
  The abstract queue: the set of queued threads and the thread tentatively taken, if any. Selection
  is nondeterministic here; which thread is picked is the subject of the properties of selection.
\<close>

type_synonym abstract_queue = "det_tid set \<times> det_tid option"

fun pushed_by :: "rq_call \<Rightarrow> det_tid option" where
  "pushed_by (PushBack t p) = Some t"
| "pushed_by (PushYielded t p) = Some t"
| "pushed_by (PushYieldedIntoEpoch t p) = Some t"
| "pushed_by (PushPoller t p n) = Some t"
| "pushed_by (PushFront t p) = Some t"
| "pushed_by (PushEagerIoRepoll t) = Some t"
| "pushed_by (Restore se p) = Some (qv_tid (se_value se))"
| "pushed_by _ = None"

fun dropped_by :: "rq_call \<Rightarrow> det_tid option" where
  "dropped_by (Suspend t p) = Some t"
| "dropped_by (RemoveTid t) = Some t"
| "dropped_by _ = None"

fun is_reordering :: "rq_call \<Rightarrow> bool" where
  "is_reordering (RestorePollerPriority t) = True"
| "is_reordering UpgradePollers = True"
| "is_reordering (OrderByRunTime ord) = True"
| "is_reordering ConsumeYieldExclusion = True"
| "is_reordering _ = False"

fun is_commit :: "rq_call \<Rightarrow> bool" where
  "is_commit CommitTentativePop = True"
| "is_commit CommitTentativePopYield = True"
| "is_commit CommitTentativePopCompletedTurn = True"
| "is_commit _ = False"

inductive aq_step :: "rq_call \<Rightarrow> abstract_queue \<Rightarrow> abstract_queue \<Rightarrow> bool" where
  aq_push: "pushed_by c = Some t \<Longrightarrow> t \<notin> Q \<Longrightarrow> aq_step c (Q, None) (insert t Q, None)"
| aq_drop: "dropped_by c = Some t \<Longrightarrow> aq_step c (Q, None) (Q - {t}, None)"
| aq_reorder: "is_reordering c \<Longrightarrow> aq_step c (Q, sel) (Q, sel)"
| aq_pop_empty: "aq_step TentativePopNext ({}, None) ({}, None)"
| aq_pop: "t \<in> Q \<Longrightarrow> aq_step TentativePopNext (Q, None) (Q, Some t)"
| aq_pop_tid: "aq_step (TentativePopTid t) (Q, None) (Q, if t \<in> Q then Some t else None)"
| aq_commit: "is_commit c \<Longrightarrow> t \<in> Q \<Longrightarrow> aq_step c (Q, Some t) (Q - {t}, None)"
| aq_undo: "t \<in> Q \<Longrightarrow> aq_step UndoTentativePop (Q, Some t) (Q, None)"

definition rq_abs :: "'g rq_state \<Rightarrow> abstract_queue" where
  "rq_abs st = (set (tids (queue (fst st))), tentative_selection (fst st))"

definition st_inv :: "'g rq_state \<Rightarrow> bool" where
  "st_inv st \<longleftrightarrow> rq_inv (set (snd st)) (fst st)"

lemmas rq_step_defs = may_push_def room_def st_inv_def rq_abs_def

lemma rq_closedI: "rq_inv S q \<Longrightarrow> tentative_selection q = None \<Longrightarrow> rq_closed S q"
  by (simp add: rq_closed_def)

lemma rq_closedD [intro]: "rq_closed S q \<Longrightarrow> rq_inv S q"
  by (simp add: rq_closed_def)

lemma set_tids_filter_neq [simp]:
  "set (tids (filter (\<lambda>e. qv_tid (snd e) \<noteq> t) m)) = set (tids m) - {t}"
  by (auto simp: set_tids)

text \<open>Every call that follows the protocol returns, keeps the invariant and has its effect.\<close>

definition step_ok :: "'g rng \<Rightarrow> rq_call \<Rightarrow> 'g rq_state \<Rightarrow> bool" where
  "step_ok R c st \<longleftrightarrow> (\<exists>st'. rq_step R c st = Some st' \<and> st_inv st'
     \<and> aq_step c (rq_abs st) (rq_abs st'))"

lemma step_okI:
  assumes "rq_step R c (q, S) = Some (q', S')" "rq_inv (set S') q'"
    "aq_step c (set (tids (queue q)), tentative_selection q)
       (set (tids (queue q')), tentative_selection q')"
  shows "step_ok R c (q, S)"
  using assms by (simp add: step_ok_def st_inv_def rq_abs_def)

text \<open>The same for calls made, and returning, outside a pop transaction.\<close>

lemma step_ok_closed:
  assumes "rq_step R c (q, S) = Some (q', S')" "tentative_selection q = None" "rq_closed (set S') q'"
    "aq_step c (set (tids (queue q)), None) (set (tids (queue q')), None)"
  shows "step_ok R c (q, S)"
  using assms by (intro step_okI [of R c q S q' S']) (simp_all add: rq_closed_def)

lemma step_ok_pushed:
  assumes "rq_step R c (q, S) = Some (q', S')" "may_push q t" "rq_closed (set S') q'"
    "pushed_by c = Some t" "set (tids (queue q')) = insert t (set (tids (queue q)))"
  shows "step_ok R c (q, S)"
  using assms
  by (intro step_ok_closed [of R c q S q' S'])
    (auto simp: may_push_def contains_tid_def intro: aq_push)

lemma step_ok_push_back:
  assumes cl: "rq_closed (set S) q" and pre: "may_push q t" "is_ordinary_priority p" "room q"
  shows "step_ok R (PushBack t p) (q, S)"
    and "yielded_skip q = None \<Longrightarrow> step_ok R (PushYielded t p) (q, S)"
    and "streak_room q t \<Longrightarrow> step_ok R (PushYieldedIntoEpoch t p) (q, S)"
proof -
  note new = pre [unfolded may_push_def room_def]
  from push_back_ok [OF cl _ new(2,3), of t] new(1)
  obtain k q' where "push_back q t p = Some (k, q')" "pushed (set S) q t q'" by blast
  then show "step_ok R (PushBack t p) (q, S)"
    using pre by (intro step_ok_pushed [where q' = q' and S' = S and t = t]) (auto simp: pushed_def)
next
  note new = pre [unfolded may_push_def room_def]
  assume "yielded_skip q = None"
  with push_yielded_ok [OF cl _ new(2,3), of t] new(1)
  obtain k q' where "push_yielded q t p = Some (k, q')" "rq_closed (set S) q'"
    "set (tids (queue q')) = insert t (set (tids (queue q)))" by blast
  then show "step_ok R (PushYielded t p) (q, S)"
    using pre by (intro step_ok_pushed [where q' = q' and S' = S and t = t]) auto
next
  note new = pre [unfolded may_push_def room_def]
  assume "streak_room q t"
  then obtain c where "count_yield q t = Some c" using count_yield_room by blast
  from push_yielded_into_epoch_ok [OF cl _ new(2,3) this] new(1)
  obtain k q' where "push_yielded_into_epoch q t p = Some (k, q')" "rq_closed (set S) q'"
    "set (tids (queue q')) = insert t (set (tids (queue q)))" by blast
  then show "step_ok R (PushYieldedIntoEpoch t p) (q, S)"
    using pre by (intro step_ok_pushed [where q' = q' and S' = S and t = t]) auto
qed

lemma step_ok_push_other:
  assumes cl: "rq_closed (set S) q" and pre: "may_push q t"
  shows "room q \<Longrightarrow> step_ok R (PushPoller t p n) (q, S)"
    and "is_ordinary_priority p \<Longrightarrow> step_ok R (PushFront t p) (q, S)"
    and "step_ok R (PushEagerIoRepoll t) (q, S)"
proof -
  assume "room q"
  with push_poller_ok [OF cl, of t p n] pre
  obtain k q' where "push_poller q t p n = Some (k, q')" "pushed (set S) q t q'"
    by (auto simp: may_push_def room_def)
  then show "step_ok R (PushPoller t p n) (q, S)"
    using pre by (intro step_ok_pushed [where q' = q' and S' = S and t = t]) (auto simp: pushed_def)
next
  assume "is_ordinary_priority p"
  with push_front_ok [OF cl, of t p] pre
  obtain k q' where "push_front q t p = Some (k, q')" "pushed (set S) q t q'"
    by (auto simp: may_push_def)
  then show "step_ok R (PushFront t p) (q, S)"
    using pre by (intro step_ok_pushed [where q' = q' and S' = S and t = t]) (auto simp: pushed_def)
next
  from push_eager_io_repoll_ok [OF cl, of t] pre
  obtain k q' where "push_eager_io_repoll q t = Some (k, q')" "pushed (set S) q t q'"
    by (auto simp: may_push_def)
  then show "step_ok R (PushEagerIoRepoll t) (q, S)"
    using pre by (intro step_ok_pushed [where q' = q' and S' = S and t = t]) (auto simp: pushed_def)
qed

lemma upgrade_tids:
  assumes "set (queue q') = (\<lambda>e. settle_restored (upgrade_entry e)) ` set (queue q)"
  shows "set (tids (queue q')) = set (tids (queue q))"
  unfolding set_tids assms by (simp add: image_image)

lemma step_ok_upgrade:
  assumes cl: "rq_closed (set S) q"
  shows "step_ok R UpgradePollers (q, S)"
proof -
  from cl have "entries_ok (set S) q" by (simp add: rq_closed_iff)
  then obtain q' where q': "do_poll_upgrade q = Some (tids (filter is_movable (queue q)), q')"
    "set (queue q') = (\<lambda>e. settle_restored (upgrade_entry e)) ` set (queue q)"
    "entries_ok (set S) q'" "q' = q\<lparr>poll_upgrades := poll_upgrades q + 1, queue := queue q'\<rparr>"
    by (rule do_poll_upgrade_ok)
  have "same_selection_state q q'" by (subst q'(4)) (simp add: same_selection_state_def)
  with rq_closed_frame [OF cl q'(3)] have "rq_closed (set S) q'" by simp
  then show ?thesis
    using q'(1) upgrade_tids [OF q'(2)] cl
    by (intro step_ok_closed [where q' = q' and S' = S])
      (auto simp: upgrade_pollers_def rq_closed_def intro: aq_reorder)
qed

lemma step_ok_move:
  assumes cl: "rq_closed (set S) q"
  shows "room q \<Longrightarrow> step_ok R (RestorePollerPriority t) (q, S)"
    and "step_ok R (Suspend t p) (q, S)"
    and "se \<in> set S \<Longrightarrow> may_push q (qv_tid (se_value se)) \<Longrightarrow> step_ok R (Restore se p) (q, S)"
    and "step_ok R (RemoveTid t) (q, S)"
proof -
  assume "room q"
  with restore_poller_priority_ok [OF cl, of t]
  obtain r q' where "restore_poller_priority q t = Some (r, q')" "rq_closed (set S) q'"
    "set (tids (queue q')) = set (tids (queue q))" by (auto simp: room_def)
  then show "step_ok R (RestorePollerPriority t) (q, S)"
    using cl by (intro step_ok_closed [where q' = q' and S' = S]) (auto simp: rq_closed_def intro: aq_reorder)
next
  from suspend_ok [OF cl, of t p]
  obtain se q' where "suspend q t p = Some (se, q')" "rq_closed (set_option se \<union> set S) q'"
    "set (tids (queue q')) = set (tids (queue q)) - {t}" by blast
  moreover have "set (case se of None \<Rightarrow> S | Some e \<Rightarrow> e # S) = set_option se \<union> set S"
    by (cases se) simp_all
  ultimately show "step_ok R (Suspend t p) (q, S)"
    using cl by (intro step_ok_closed [where q' = q' and S' = "case se of None \<Rightarrow> S | Some e \<Rightarrow> e # S"])
      (simp_all add: rq_closed_def aq_drop)
next
  assume "se \<in> set S" "may_push q (qv_tid (se_value se))"
  with restore_ok [OF cl, of se p]
  obtain q' where "restore q se p = Some q'" "rq_closed (set S - {se}) q'"
    "set (tids (queue q')) = insert (qv_tid (se_value se)) (set (tids (queue q)))"
    by (auto simp: may_push_def)
  then show "step_ok R (Restore se p) (q, S)"
    using \<open>may_push q (qv_tid (se_value se))\<close>
    by (intro step_ok_pushed [where q' = q' and S' = "removeAll se S"]) auto
next
  from remove_tid_ok [OF cl, of t]
  obtain q' where "remove_tid q t = Some (contains_tid q t, q')" "rq_closed (set S) q'"
    "queue q' = filter (\<lambda>e. qv_tid (snd e) \<noteq> t) (queue q)" by blast
  then show "step_ok R (RemoveTid t) (q, S)"
    using cl by (intro step_ok_closed [where q' = q' and S' = S]) (auto simp: rq_closed_def intro: aq_drop)
qed

lemma entry_band_tids:
  assumes "mset (map entry_band m') = mset (map entry_band m)"
  shows "mset (tids m') = mset (tids m)"
proof -
  have "mset (tids k) = image_mset (\<lambda>b. qv_tid (snd b)) (mset (map entry_band k))" for k
    by (simp add: tids_def image_mset.compositionality o_def)
  then show ?thesis using assms by presburger
qed

lemma step_ok_order:
  assumes cl: "rq_closed (set S) q"
  shows "step_ok R (OrderByRunTime ord) (q, S)"
proof -
  from order_by_run_time_ok [OF cl refl, of ord]
  obtain q' where q': "order_by_run_time q ord = Some q'" "rq_closed (set S) q'"
    "mset (map entry_band (queue q')) = mset (map entry_band (queue q))" by blast
  from entry_band_tids [OF q'(3)] have "set (tids (queue q')) = set (tids (queue q))"
    by (metis set_mset_mset)
  then show ?thesis using q'
    using cl by (intro step_ok_closed [where q' = q' and S' = S]) (auto simp: rq_closed_def intro: aq_reorder)
qed

lemma step_ok_pop:
  assumes R: "rng_in_range R" and cl: "rq_closed (set S) q"
  shows "step_ok R TentativePopNext (q, S)" and "step_ok R (TentativePopTid t) (q, S)"
proof -
  have none: "tentative_selection q = None" using cl by (simp add: rq_closed_def)
  from tentative_pop_next_ok [OF R cl]
  obtain sel q' where q': "tentative_pop_next R q = Some (sel, q')" "rq_inv (set S) q'"
    "queue q' = queue q" "tentative_selection q' = sel" "sel = None \<longleftrightarrow> queue q = []" by auto
  have "aq_step TentativePopNext (set (tids (queue q)), None) (set (tids (queue q)), sel)"
  proof (cases sel)
    case None
    then show ?thesis using q'(5) by (simp add: aq_pop_empty)
  next
    case (Some u)
    then have "u \<in> set (tids (queue q))"
      using q'(2-4) by (simp add: rq_inv_def selection_ok_def contains_tid_def)
    then show ?thesis using Some by (simp add: aq_pop)
  qed
  then show "step_ok R TentativePopNext (q, S)"
    using q' none by (intro step_okI [where q' = q' and S' = S]) simp_all
next
  from tentative_pop_tid_ok [OF cl, of t]
  obtain sel q' where q': "tentative_pop_tid q t = Some (sel, q')" "rq_inv (set S) q'"
    "queue q' = queue q" "sel = (if contains_tid q t then Some t else None)" by blast
  moreover have "tentative_selection q = None" using cl by (simp add: rq_closed_def)
  moreover have "tentative_selection q' = sel"
    using q'(1) by (auto simp: tentative_pop_tid_def Let_def assert_that_def split: if_splits)
  ultimately show "step_ok R (TentativePopTid t) (q, S)"
    using aq_pop_tid [of t "set (tids (queue q))"]
    by (intro step_okI [where q' = q' and S' = S]) (simp_all add: contains_tid_def)
qed

lemma rq_inv_yield_fields:
  assumes "queue q' = queue q" "last_front_turn q' = last_front_turn q"
    "last_back_turn q' = last_back_turn q" "tentative_selection q' = tentative_selection q"
    "tentative_selection_is_exact q' = tentative_selection_is_exact q"
    "sched_strategy q' = sched_strategy q" "sticky_random_selection q' = sticky_random_selection q"
  shows "rq_inv S q' = rq_inv S q"
  using assms entries_ok_cong [OF assms(1-3)]
  by (simp add: rq_inv_def selection_ok_def contains_tid_def split: option.split)

lemma rq_inv_consume [simp]: "rq_inv S (consume_yield_exclusion q) = rq_inv S q"
  by (rule rq_inv_yield_fields) (simp_all add: consume_yield_exclusion_def)

lemma rq_inv_end_epoch [simp]: "rq_inv S (end_yield_epoch q) = rq_inv S q"
  by (rule rq_inv_yield_fields) (simp_all add: end_yield_epoch_def)

lemma step_ok_commit:
  assumes inv: "rq_inv (set S) q" and sel: "tentative_selection q = Some t"
  shows "step_ok R CommitTentativePop (q, S)" and "step_ok R CommitTentativePopYield (q, S)"
    and "step_ok R CommitTentativePopCompletedTurn (q, S)" and "step_ok R UndoTentativePop (q, S)"
proof -
  from commit_selection_ok [OF inv sel, of R]
  obtain q' where q': "commit_selection R q = Some (t, q')" "rq_closed (set S) q'"
    "queue q' = filter (\<lambda>e. qv_tid (snd e) \<noteq> t) (queue q)" by blast
  from q'(2) have inv': "rq_inv (set S) q'" by (rule rq_closedD)
  have "t \<in> set (tids (queue q))"
    using inv sel by (simp add: rq_inv_def selection_ok_def contains_tid_def)
  moreover have "tentative_selection q' = None" using q'(2) by (simp add: rq_closed_def)
  ultimately have taken: "aq_step c (set (tids (queue q)), tentative_selection q)
      (set (tids (queue q')), tentative_selection q')" if "is_commit c" for c
    using q'(3) sel aq_commit [OF that, of t] by simp
  show "step_ok R CommitTentativePop (q, S)"
    using q' inv' taken
    by (intro step_okI [where q' = q' and S' = S]) (simp_all add: commit_tentative_pop_def)
  show "step_ok R CommitTentativePopYield (q, S)"
    using q' inv' taken
    by (intro step_okI [where q' = "consume_yield_exclusion q'" and S' = S])
      (simp_all add: commit_tentative_pop_yield_def, simp add: consume_yield_exclusion_def)
  show "step_ok R CommitTentativePopCompletedTurn (q, S)"
    using q' inv' taken
    by (intro step_okI [where q' = "end_yield_epoch (consume_yield_exclusion q')" and S' = S])
      (simp_all add: commit_tentative_pop_completed_turn_def commit_tentative_pop_def,
        simp add: consume_yield_exclusion_def end_yield_epoch_def)
  from undo_tentative_pop_ok [OF inv] sel
  obtain u where "undo_tentative_pop q = Some u" "rq_closed (set S) u" "queue u = queue q" by blast
  then show "step_ok R UndoTentativePop (q, S)"
    using sel \<open>t \<in> set (tids (queue q))\<close>
    by (intro step_okI [where q' = u and S' = S]) (auto simp: rq_closed_def intro: aq_undo)
qed

lemma step_ok_consume:
  assumes "rq_inv (set S) q"
  shows "step_ok R ConsumeYieldExclusion (q, S)"
  using assms
  by (intro step_okI [where q' = "consume_yield_exclusion q" and S' = S])
    (simp_all, simp add: consume_yield_exclusion_def aq_reorder)

lemma rq_step_legal:
  assumes R: "rng_in_range R" and inv: "st_inv st" and pre: "rq_legal c st"
  shows "step_ok R c st"
proof -
  obtain q S where st: "st = (q, S)" by (cases st)
  have i: "rq_inv (set S) q" using inv st by (simp add: st_inv_def)
  note cl = rq_closedI [OF i]
  show ?thesis
    using pre unfolding st
    by (cases c)
      (auto simp: may_push_def intro: step_ok_consume i step_ok_commit [OF i] step_ok_pop [OF R cl]
        step_ok_order [OF cl] step_ok_move [OF cl] step_ok_upgrade [OF cl]
        step_ok_push_back [OF cl] step_ok_push_other [OF cl])
qed

text \<open>The contract holds of the run queue for every generator that draws within its range.\<close>

interpretation rq: protocol_object "\<lambda>st. rng_in_range R \<and> st_inv st" rq_legal "rq_step R" rq_abs aq_step
  for R :: "'g rng"
  by unfold_locales (use rq_step_legal [unfolded step_ok_def] in blast)

end
