(* ===== verification/Run_Queue_Count.thy ===== *)
theory Run_Queue_Count
  imports Run_Queue_Hist
begin

text \<open>
  The counters of the run queue along a history: how many entries were queued, how many poll upgrades
  ran, and how the two are related.
\<close>

text \<open>A history that follows the protocol and returned had room in every streak it counted.\<close>

lemma rq_returned:
  "legal_calls rq_pre (rq_step R) cs st \<Longrightarrow> run_calls (rq_step R) cs st = Some st'
   \<Longrightarrow> legal_calls rq_legal (rq_step R) cs st"
  using rq_step_room by (rule legal_calls_returned)

subsection \<open>The upgrades owed\<close>

text \<open>The number of queueing operations so far, and the upgrades those operations owe.\<close>

definition queueings :: "'g run_queue \<Rightarrow> int" where
  "queueings q = last_back_turn q - last_front_turn q"

definition upgrade_credit :: "'g run_queue \<Rightarrow> int" where
  "upgrade_credit q = int (poll_upgrades q) - queueings q div int POLLING_UPGRADE_INTERVAL"

lemma div_succ_int:
  assumes "0 < (k :: int)"
  shows "(n + 1) div k = n div k + (if (n + 1) mod k = 0 then 1 else 0)"
proof -
  define d r where "d = n div k" and "r = n mod k"
  have n: "n = k * d + r" and r: "0 \<le> r" "r < k" using assms by (simp_all add: d_def r_def)
  show ?thesis
  proof (cases "r + 1 = k")
    case True
    then have "n + 1 = k * (d + 1) + 0" using n by (simp add: algebra_simps)
    then show ?thesis
      using int_div_pos_eq [of "n + 1" k "d + 1" 0] int_mod_pos_eq [of "n + 1" k "d + 1" 0] assms
      by (simp add: d_def)
  next
    case False
    have "n + 1 = k * d + (r + 1)" using n by simp
    then show ?thesis
      using int_div_pos_eq [of "n + 1" k d "r + 1"] int_mod_pos_eq [of "n + 1" k d "r + 1"] r False
      by (simp add: d_def)
  qed
qed

lemma nat_mod_eq_0:
  assumes "0 \<le> n" "0 < k"
  shows "nat n mod nat k = 0 \<longleftrightarrow> n mod k = 0"
proof -
  have eq: "nat n mod nat k = nat (n mod k)"
    using nat_mod_distrib [OF assms(1) less_imp_le [OF assms(2)]] by (rule sym)
  have "nat x = 0 \<longleftrightarrow> x = 0" if "0 \<le> x" for x :: int using that by simp
  from this [OF pos_mod_sign [OF assms(2)]] show ?thesis unfolding eq .
qed

lemma check_poll_upgrade_turns:
  assumes "check_poll_upgrade q = Some q'"
  shows "last_back_turn q' = last_back_turn q" "last_front_turn q' = last_front_turn q"
  using assms
  by (auto simp: check_poll_upgrade_def do_poll_upgrade_def bind_eq_Some_conv split: if_splits)

lemma check_poll_upgrade_credit:
  assumes "check_poll_upgrade q1 = Some q'" "queueings q1 = queueings q + 1"
    "poll_upgrades q1 = poll_upgrades q"
  shows "upgrade_credit q \<le> upgrade_credit q'"
proof -
  have cnt: "turn_counter q1 = Some (nat (queueings q1))" and pos: "0 \<le> queueings q1"
    using assms(1)
    by (auto simp: check_poll_upgrade_def turn_counter_def queueings_def bind_eq_Some_conv
        assert_that_def split: if_splits)
  have same: "queueings q' = queueings q1"
    using check_poll_upgrade_turns [OF assms(1)] by (simp add: queueings_def)
  have "nat (queueings q1) mod 200 = 0 \<longleftrightarrow> queueings q1 mod 200 = 0"
    using nat_mod_eq_0 [OF pos, of 200] by simp
  then have "poll_upgrades q' = poll_upgrades q1 + (if queueings q1 mod 200 = 0 then 1 else 0)"
    using assms(1) pos cnt
    by (auto simp: check_poll_upgrade_def do_poll_upgrade_def bind_eq_Some_conv
        POLLING_UPGRADE_INTERVAL_def split: if_splits)
  then show ?thesis
    using assms(2,3) same div_succ_int [of 200 "queueings q"]
    by (simp add: upgrade_credit_def POLLING_UPGRADE_INTERVAL_def)
qed

lemma push_credit:
  assumes "push_back_inner q t p up = Some (k, q') \<or> push_front_inner q t p up = Some (k, q')"
  shows "upgrade_credit q \<le> upgrade_credit q'"
  using assms
  by (auto simp: push_back_inner_def push_front_inner_def push_inner_def Let_def bind_eq_Some_conv
      queueings_def elim!: check_poll_upgrade_credit split: if_splits)

lemma upgrade_credit_cong:
  "poll_upgrades q' = poll_upgrades q \<Longrightarrow> last_back_turn q' = last_back_turn q
   \<Longrightarrow> last_front_turn q' = last_front_turn q \<Longrightarrow> upgrade_credit q' = upgrade_credit q"
  by (simp add: upgrade_credit_def queueings_def)

lemma push_back_credit:
  "push_back q t p = Some (k, q') \<Longrightarrow> upgrade_credit q \<le> upgrade_credit q'"
  by (auto simp: push_back_def bind_eq_Some_conv assert_that_def push_safety_check_def
      split: if_splits intro: push_credit)

lemma push_yielded_credit:
  assumes "push_yielded q t p = Some (k, q') \<or> push_yielded_into_epoch q t p = Some (k, q')"
  shows "upgrade_credit q \<le> upgrade_credit q'"
  using assms
proof
  assume "push_yielded q t p = Some (k, q')"
  then have "push_back (q\<lparr>yielded_skip := Some t, queued_by_yield := insert t (queued_by_yield q)\<rparr>) t p
      = Some (k, q')"
    by (auto simp: push_yielded_def assert_that_def split: if_splits)
  from push_back_credit [OF this] show ?thesis by (simp add: upgrade_credit_def queueings_def)
next
  assume "push_yielded_into_epoch q t p = Some (k, q')"
  then obtain c where c: "count_yield q t = Some c"
    "push_back (c\<lparr>queued_by_yield := insert t (queued_by_yield c)\<rparr>) t p = Some (k, q')"
    by (auto simp: push_yielded_into_epoch_def bind_eq_Some_conv)
  from push_back_credit [OF c(2)] count_yield_frame [OF c(1)]
  show ?thesis by (simp add: upgrade_credit_def queueings_def)
qed

lemma push_other_credit:
  assumes "push_poller q t p n = Some (k, q') \<or> push_front q t p = Some (k, q')
    \<or> push_eager_io_repoll q t = Some (k, q')"
  shows "upgrade_credit q \<le> upgrade_credit q'"
  using assms
  by (auto simp: push_poller_def push_front_def push_eager_io_repoll_def bind_eq_Some_conv
      assert_that_def push_safety_check_def split: if_splits intro: push_credit)

lemma upgrade_credit_upgrade:
  "upgrade_pollers q = Some (r, q') \<Longrightarrow> upgrade_credit q \<le> upgrade_credit q'"
  by (auto simp: upgrade_pollers_def do_poll_upgrade_def bind_eq_Some_conv assert_that_def
      upgrade_credit_def queueings_def split: if_splits)

lemma restore_poller_credit:
  assumes "restore_poller_priority q t = Some (r, q')"
  shows "upgrade_credit q \<le> upgrade_credit q'"
  using assms
  by (auto simp: restore_poller_priority_def bind_eq_Some_conv assert_that_def Let_def queueings_def
      elim!: check_poll_upgrade_credit split: if_splits option.splits)

definition same_turns :: "'g run_queue \<Rightarrow> 'g run_queue \<Rightarrow> bool" where
  "same_turns q q' \<longleftrightarrow> poll_upgrades q' = poll_upgrades q \<and> last_back_turn q' = last_back_turn q
     \<and> last_front_turn q' = last_front_turn q"

lemma same_turns_credit: "same_turns q q' \<Longrightarrow> upgrade_credit q \<le> upgrade_credit q'"
  by (simp add: same_turns_def upgrade_credit_def queueings_def)

lemma same_turns_move:
  "suspend q t p = Some (se, q') \<Longrightarrow> same_turns q q'"
  "restore q entry p = Some q' \<Longrightarrow> same_turns q q'"
  "order_by_run_time q ord = Some q' \<Longrightarrow> same_turns q q'"
  "remove_tid q t = Some (b, q') \<Longrightarrow> same_turns q q'"
  "undo_tentative_pop q = Some q' \<Longrightarrow> same_turns q q'"
  "tentative_pop_tid q t = Some (sel, q') \<Longrightarrow> same_turns q q'"
  by (auto simp: same_turns_def suspend_def restore_def order_by_run_time_def remove_tid_def
      undo_tentative_pop_def tentative_pop_tid_def bind_eq_Some_conv assert_that_def Let_def
      split: if_splits option.splits prod.splits)

lemma same_turns_random: "random_index R n q = Some (i, q') \<Longrightarrow> same_turns q q'"
  by (auto simp: same_turns_def random_index_def bind_eq_Some_conv assert_that_def Let_def
      split: if_splits prod.splits)

lemma same_turns_select: "select_next R q = Some (sel, q') \<Longrightarrow> same_turns q q'"
  by (auto simp: same_turns_def select_next_def bind_eq_Some_conv Let_def
      dest!: same_turns_random split: if_splits option.splits sched_heuristic.splits)

lemma same_turns_pop: "tentative_pop_next R q = Some (sel, q') \<Longrightarrow> same_turns q q'"
  by (auto simp: tentative_pop_next_def assert_that_def same_turns_def end_yield_epoch_def
      dest!: same_turns_select split: if_splits)

lemma same_turns_take: "take_entry q t = Some (r, q') \<Longrightarrow> same_turns q q'"
  by (auto simp: take_entry_def same_turns_def bind_eq_Some_conv)

lemma same_turns_sticky: "take_sticky R q = Some (t, q') \<Longrightarrow> same_turns q q'"
  by (auto simp: take_sticky_def case_prod_beta Let_def bind_eq_Some_conv same_turns_def
      dest!: same_turns_take)

lemma same_turns_commit: "commit_selection R q = Some (t, q') \<Longrightarrow> same_turns q q'"
  by (auto simp: commit_selection_def bind_eq_Some_conv assert_that_def Let_def same_turns_def
      dest!: same_turns_take same_turns_sticky split: if_splits)

lemma same_turns_commits:
  "commit_tentative_pop R q = Some (t, q') \<Longrightarrow> same_turns q q'"
  "commit_tentative_pop_yield R q = Some (t, q') \<Longrightarrow> same_turns q q'"
  "commit_tentative_pop_completed_turn R q = Some (t, q') \<Longrightarrow> same_turns q q'"
  "same_turns q (consume_yield_exclusion q)"
  by (auto simp: commit_tentative_pop_def commit_tentative_pop_yield_def bind_eq_Some_conv
      commit_tentative_pop_completed_turn_def consume_yield_exclusion_def end_yield_epoch_def
      same_turns_def dest!: same_turns_commit)

lemmas credit_rules = push_back_credit push_yielded_credit [OF disjI1] push_yielded_credit [OF disjI2]
  push_other_credit [OF disjI1] push_other_credit [OF disjI2, OF disjI1]
  push_other_credit [OF disjI2, OF disjI2] upgrade_credit_upgrade
  restore_poller_credit same_turns_credit [OF same_turns_move(1)]
  same_turns_credit [OF same_turns_move(2)] same_turns_credit [OF same_turns_move(3)]
  same_turns_credit [OF same_turns_move(4)] same_turns_credit [OF same_turns_move(5)]
  same_turns_credit [OF same_turns_move(6)] same_turns_credit [OF same_turns_pop]
  same_turns_credit [OF same_turns_commits(1)] same_turns_credit [OF same_turns_commits(2)]
  same_turns_credit [OF same_turns_commits(3)]

lemma step_credit:
  assumes "rq_step R c st = Some st'"
  shows "upgrade_credit (fst st) \<le> upgrade_credit (fst st')"
proof -
  obtain q S where "st = (q, S)" by (cases st)
  then show ?thesis using assms
    by (cases c) (auto dest: credit_rules simp: same_turns_credit [OF same_turns_commits(4)])
qed

subsection \<open>One call, one step\<close>

definition one_step :: "'g run_queue \<Rightarrow> 'g run_queue \<Rightarrow> bool" where
  "one_step q q' \<longleftrightarrow> queueings q' \<le> queueings q + 1 \<and> poll_upgrades q' \<le> poll_upgrades q + 1"

lemma same_turns_one_step: "same_turns q q' \<Longrightarrow> one_step q q'"
  by (simp add: same_turns_def one_step_def queueings_def)

lemma upgrade_pollers_one_step: "upgrade_pollers q = Some (r, q') \<Longrightarrow> one_step q q'"
  by (auto simp: upgrade_pollers_def do_poll_upgrade_def bind_eq_Some_conv assert_that_def
      one_step_def queueings_def split: if_splits)

lemma check_poll_upgrade_one_step:
  assumes "check_poll_upgrade q1 = Some q'" "queueings q1 = queueings q + 1" "poll_upgrades q1 = poll_upgrades q"
  shows "one_step q q'"
  using assms check_poll_upgrade_turns [OF assms(1)]
  by (auto simp: one_step_def queueings_def check_poll_upgrade_def do_poll_upgrade_def bind_eq_Some_conv
      split: if_splits)

lemma push_one_step:
  assumes "push_back_inner q t p up = Some (k, q') \<or> push_front_inner q t p up = Some (k, q')"
  shows "one_step q q'"
  using assms
  by (auto simp: push_back_inner_def push_front_inner_def push_inner_def Let_def bind_eq_Some_conv
      queueings_def elim!: check_poll_upgrade_one_step split: if_splits)

lemma push_back_one_step: "push_back q t p = Some (k, q') \<Longrightarrow> one_step q q'"
  by (auto simp: push_back_def bind_eq_Some_conv assert_that_def push_safety_check_def
      split: if_splits intro: push_one_step)

lemma push_other_one_step:
  "push_poller q t p n = Some (k, q') \<Longrightarrow> one_step q q'"
  "push_front q t p = Some (k, q') \<Longrightarrow> one_step q q'"
  "push_eager_io_repoll q t = Some (k, q') \<Longrightarrow> one_step q q'"
  by (auto simp: push_poller_def push_front_def push_eager_io_repoll_def bind_eq_Some_conv
      assert_that_def push_safety_check_def split: if_splits intro: push_one_step)

lemma push_yielded_one_step:
  "push_yielded q t p = Some (k, q') \<Longrightarrow> one_step q q'"
  "push_yielded_into_epoch q t p = Some (k, q') \<Longrightarrow> one_step q q'"
proof -
  assume "push_yielded q t p = Some (k, q')"
  then show "one_step q q'"
    by (auto simp: push_yielded_def assert_that_def one_step_def queueings_def dest!: push_back_one_step
        split: if_splits)
next
  assume "push_yielded_into_epoch q t p = Some (k, q')"
  then obtain c where c: "count_yield q t = Some c"
    "push_back (c\<lparr>queued_by_yield := insert t (queued_by_yield c)\<rparr>) t p = Some (k, q')"
    by (auto simp: push_yielded_into_epoch_def bind_eq_Some_conv)
  from push_back_one_step [OF c(2)] count_yield_frame [OF c(1)]
  show "one_step q q'" by (simp add: one_step_def queueings_def)
qed

lemma restore_poller_one_step: "restore_poller_priority q t = Some (r, q') \<Longrightarrow> one_step q q'"
  by (auto simp: restore_poller_priority_def bind_eq_Some_conv assert_that_def Let_def queueings_def
      elim!: check_poll_upgrade_one_step split: if_splits option.splits)
    (simp_all add: one_step_def queueings_def)

lemmas one_step_rules = push_back_one_step push_yielded_one_step push_other_one_step
  upgrade_pollers_one_step restore_poller_one_step same_turns_one_step [OF same_turns_move(1)]
  same_turns_one_step [OF same_turns_move(2)] same_turns_one_step [OF same_turns_move(3)]
  same_turns_one_step [OF same_turns_move(4)] same_turns_one_step [OF same_turns_move(5)]
  same_turns_one_step [OF same_turns_move(6)] same_turns_one_step [OF same_turns_pop]
  same_turns_one_step [OF same_turns_commits(1)] same_turns_one_step [OF same_turns_commits(2)]
  same_turns_one_step [OF same_turns_commits(3)]

lemma step_counters:
  assumes "rq_step R c st = Some st'"
  shows "queueings (fst st') \<le> queueings (fst st) + 1"
    and "int (poll_upgrades (fst st')) \<le> int (poll_upgrades (fst st)) + 1"
proof -
  obtain q S where "st = (q, S)" by (cases st)
  then have "one_step (fst st) (fst st')" using assms
    by (cases c) (auto dest: one_step_rules simp: same_turns_one_step [OF same_turns_commits(4)])
  then show "queueings (fst st') \<le> queueings (fst st) + 1"
    "int (poll_upgrades (fst st')) \<le> int (poll_upgrades (fst st)) + 1"
    by (simp_all add: one_step_def)
qed

end
