(* ===== verification/Run_Queue_Props.thy ===== *)
theory Run_Queue_Props
  imports Run_Queue_Count
begin

text \<open>
  What the run queue promises the scheduler. The generator of the witnesses always draws the first
  index, and the histories are small ones that use every kind of call.
\<close>

definition first_rng :: "unit rng" where
  "first_rng = \<lparr>rng_index = (\<lambda>n g. (0, g)), rng_unit = (\<lambda>g. (0, g))\<rparr>"

abbreviation fresh_rq :: "sched_heuristic \<Rightarrow> unit run_queue" where
  "fresh_rq h \<equiv> new_run_queue h (\<lambda>_. ()) 0 0"

lemma first_rng_in_range: "rng_in_range first_rng"
  by (simp add: rng_in_range_def first_rng_def)

definition sample_calls :: "rq_call list" where
  "sample_calls =
     [PushBack 1 1000, PushPoller 2 1000 3, PushFront 3 1000, PushEagerIoRepoll 4, UpgradePollers,
      TentativePopNext, CommitTentativePop, TentativePopNext, UndoTentativePop, RemoveTid 3,
      OrderByRunTime [(1, (7, 1)), (2, (5, 1))], TentativePopTid 1, CommitTentativePopYield,
      PushYieldedIntoEpoch 1 1000, RestorePollerPriority 2, ConsumeYieldExclusion, PushYielded 5 20,
      TentativePopNext, CommitTentativePopCompletedTurn, Suspend 5 20]"

lemma sample_calls_legal:
  "legal_calls rq_legal (rq_step first_rng) sample_calls (fresh_rq StickyRandom, [])"
  by code_simp

subsection \<open>Histories\<close>

text \<open>
  C3: no history of calls that follows the protocol of the run queue, and in which no yield is counted
  on a full streak, makes it panic: none of its assertions fails, no expected entry is missing, no key
  is inserted twice, no streak of yields overflows. Afterwards the queue is well formed: its keys are
  in order, no thread is queued twice, the turn counters bound the turns in use, and a selection in
  progress names a queued thread. The two turn counters together, and the count of poll upgrades, have
  not passed the number of calls, so that these 64-bit counters stay within their width for every
  history of fewer than \<open>2 ^ 63\<close> calls.
\<close>

theorem run_queue_history_safe:
  fixes R :: "'g rng"
  assumes "rng_in_range R"
    and "legal_calls (\<lambda>c st. rq_pre c st \<and> rq_room c st) (rq_step R) cs
      (new_run_queue h seed_from_u64 seed srp, [])"
  shows "\<exists>q S. run_calls (rq_step R) cs (new_run_queue h seed_from_u64 seed srp, []) = Some (q, S)
    \<and> rq_inv (set S) q \<and> last_back_turn q - last_front_turn q \<le> int (length cs)
    \<and> poll_upgrades q \<le> length cs"
proof -
  let ?st = "(new_run_queue h seed_from_u64 seed srp, []) :: 'g rq_state"
  have "st_inv ?st" by (simp add: st_inv_def rq_inv_new)
  with rq.history_ok [OF _ assms(2)] assms(1)
  obtain st where st: "run_calls (rq_step R) cs ?st = Some st" "st_inv st" by auto
  have "queueings (fst st) \<le> queueings (fst ?st) + int (length cs)"
    using step_counters(1) st(1) by (rule run_calls_bound [where f = "\<lambda>st. queueings (fst st)"])
  moreover have "int (poll_upgrades (fst st)) \<le> int (poll_upgrades (fst ?st)) + int (length cs)"
    using step_counters(2) st(1) by (rule run_calls_bound [where f = "\<lambda>st. int (poll_upgrades (fst st))"])
  ultimately have "queueings (fst st) \<le> int (length cs)" "poll_upgrades (fst st) \<le> length cs"
    by (simp_all add: new_run_queue_def queueings_def)
  then show ?thesis using st by (cases st) (simp add: st_inv_def queueings_def)
qed

theorem run_queue_history_safe_witness:
  "\<exists>q S. run_calls (rq_step first_rng) sample_calls (fresh_rq StickyRandom, []) = Some (q, S)
    \<and> rq_inv (set S) q \<and> last_back_turn q - last_front_turn q \<le> 20 \<and> poll_upgrades q \<le> 20"
proof -
  have "length sample_calls = 20" by (simp add: sample_calls_def)
  then show ?thesis
    using run_queue_history_safe [OF first_rng_in_range sample_calls_legal] by auto
qed

text \<open>
  C4: the run queue refines a set of threads with at most one of them tentatively taken. Along every
  history that follows the protocol, a push adds exactly its thread, a removal or a suspension takes
  exactly its thread, upgrades and reorderings change no membership, a pop takes a queued thread
  whenever there is one, a commit removes exactly the thread the pop took, and an undo leaves it.
\<close>

theorem run_queue_refines_set:
  fixes R :: "'g rng"
  assumes "rng_in_range R"
    and "legal_calls rq_pre (rq_step R) cs (new_run_queue h seed_from_u64 seed srp, [])"
    and "run_calls (rq_step R) cs (new_run_queue h seed_from_u64 seed srp, []) = Some st"
  shows "spec_run aq_step cs ({}, None) (rq_abs st)"
proof -
  have "rq_abs (new_run_queue h seed_from_u64 seed srp, []) = ({}, None)"
    by (simp add: rq_abs_def new_run_queue_def tids_def)
  then show ?thesis
    using rq.history_ok [OF _ rq_returned [OF assms(2,3)]] assms(1,3)
    by (auto simp: st_inv_def rq_inv_new)
qed

definition short_calls :: "rq_call list" where
  "short_calls = [PushBack 1 1000, PushFront 2 1000, TentativePopNext, CommitTentativePop]"

lemma short_calls_legal:
  "legal_calls rq_pre (rq_step first_rng) short_calls (fresh_rq SchedNone, [])"
  by code_simp

lemma short_calls_run:
  "map_option rq_abs (run_calls (rq_step first_rng) short_calls (fresh_rq SchedNone, []))
   = Some ({1}, None)"
  by code_simp

theorem run_queue_refines_set_witness: "spec_run aq_step short_calls ({}, None) ({1}, None)"
proof -
  obtain st where "run_calls (rq_step first_rng) short_calls (fresh_rq SchedNone, []) = Some st"
    "rq_abs st = ({1}, None)"
    using short_calls_run by auto
  then show ?thesis
    using run_queue_refines_set [OF first_rng_in_range short_calls_legal] by metis
qed

subsection \<open>Where a push puts its thread\<close>

lemma check_poll_upgrade_keeps:
  assumes ok: "entries_ok S q" and q': "check_poll_upgrade q = Some q'"
    and e: "e \<in> set (queue q)" "poll_upgrade (snd e) = None" "\<not> deadline_restored (snd e)"
  shows "e \<in> set (queue q')"
proof (cases "q' = q")
  case False
  then have "map_option snd (do_poll_upgrade q) = Some q'"
    using q' by (auto simp: check_poll_upgrade_def bind_eq_Some_conv split: if_splits)
  moreover obtain q2 where "do_poll_upgrade q = Some (tids (filter is_movable (queue q)), q2)"
    "set (queue q2) = (\<lambda>e. settle_restored (upgrade_entry e)) ` set (queue q)"
    by (rule do_poll_upgrade_ok [OF ok])
  ultimately have q': "set (queue q') = (\<lambda>e. settle_restored (upgrade_entry e)) ` set (queue q)" by simp
  have "settle_restored (upgrade_entry e) = e"
    using e(2,3) by (cases e) (simp add: upgrade_entry_def settle_restored_def)
  then show ?thesis using e(1) unfolding q' by (metis imageI)
qed (use e in simp)

abbreviation ordinary_value :: "det_tid \<Rightarrow> queue_value" where
  "ordinary_value t \<equiv> \<lparr>qv_tid = t, poll_upgrade = None, deadline_restored = False,
    upgraded_in_place = False\<rparr>"

lemma push_back_position:
  assumes cl: "rq_closed S q" and pre: "may_push q t" "is_ordinary_priority p" "room q"
    and push: "push_back q t p = Some (k, q')"
  shows "k = PrioritizedOrder p (last_back_turn q + 1)" "last_back_turn q' = last_back_turn q + 1"
    "(k, ordinary_value t) \<in> set (queue q')"
proof -
  let ?k = "PrioritizedOrder p (last_back_turn q + 1)"
  let ?q1 = "q\<lparr>last_back_turn := last_back_turn q + 1, queue := bm_insert ?k (ordinary_value t) (queue q)\<rparr>"
  have inv: "entries_ok S q" using cl by (simp add: rq_closed_iff)
  note cnt = entries_okD(3) [OF inv]
  have ok: "entries_ok S ?q1" and fresh: "bm_get (queue q) ?k = None"
    using push_inner_entries [OF inv, of "ordinary_value t" ?q1 ?k] pre cnt
    by (auto simp: counters_ok_def may_push_def room_def)
  have *: "k = ?k" "check_poll_upgrade ?q1 = Some q'"
    using push pre cl
    by (auto simp: push_back_def push_back_inner_def push_inner_def Let_def push_safety_check_def
        bind_eq_Some_conv split: if_splits)
  have "(?k, ordinary_value t) \<in> set (queue ?q1)"
    using fresh entries_okD(1) [OF inv] by (simp add: set_bm_insert_fresh)
  then show "k = ?k" "last_back_turn q' = last_back_turn q + 1" "(k, ordinary_value t) \<in> set (queue q')"
    using * check_poll_upgrade_keeps [OF ok *(2)] check_poll_upgrade_turns(1) [OF *(2)] by simp_all
qed

text \<open>
  A thread pushed to the back of a priority level runs after every thread of that level: its key
  is the greatest among the round-robin turns of the level (only the band of run time turns, which
  \<open>order_by_run_time\<close> hands out, lies behind it), also when the push triggers a poll upgrade. The
  entry is an ordinary one: no poller and no restored poller.
\<close>

theorem push_back_behind_level:
  assumes "rq_closed S q" "\<not> contains_tid q t" "is_ordinary_priority p"
    "last_back_turn q + 1 < RUN_TIME_TURNS"
  shows "\<exists>k q'. push_back q t p = Some (k, q') \<and> po_priority k = p
    \<and> bm_get (queue q') k = Some (ordinary_value t)
    \<and> (\<forall>e \<in> set (queue q'). po_priority (fst e) = p \<longrightarrow> po_turn (fst e) < RUN_TIME_TURNS \<longrightarrow> fst e \<le> k)"
proof -
  have pre: "may_push q t" "room q" using assms by (simp_all add: may_push_def room_def rq_closed_def)
  from push_back_ok [OF assms] obtain k q' where q': "push_back q t p = Some (k, q')" "rq_closed S q'"
    by (auto simp: pushed_def)
  note pos = push_back_position [OF assms(1) pre(1) assms(3) pre(2) q'(1)]
  have inv: "entries_ok S q'" using q'(2) by (simp add: rq_closed_iff)
  have "fst e \<le> k" if "e \<in> set (queue q')" "po_priority (fst e) = p" "po_turn (fst e) < RUN_TIME_TURNS" for e
    using entries_okD(5) [OF inv that(1)] that(2,3) pos(1,2)
    by (simp add: entry_ok_def low_turn_def less_eq_prioritized_order_def)
  then show ?thesis using q'(1) pos bm_get_iff [OF entries_okD(1) [OF inv]] by auto
qed

theorem push_back_behind_level_witness:
  "\<exists>k q'. push_back (fresh_rq SchedNone) 7 1000 = Some (k, q') \<and> po_priority k = 1000
    \<and> bm_get (queue q') k = Some (ordinary_value 7)
    \<and> (\<forall>e \<in> set (queue q'). po_priority (fst e) = 1000 \<longrightarrow> po_turn (fst e) < RUN_TIME_TURNS \<longrightarrow> fst e \<le> k)"
proof (rule push_back_behind_level)
  show "rq_closed {} (fresh_rq SchedNone)" by (simp add: rq_closed_def rq_inv_new) code_simp
qed (code_simp+)

subsection \<open>Which thread is selected\<close>

lemma hd_filter_least:
  assumes "sorted_wrt (<) (map fst m)" "filter P m \<noteq> []"
  shows "hd (filter P m) \<in> set m" "P (hd (filter P m))"
    "\<forall>e \<in> set m. P e \<longrightarrow> fst (hd (filter P m)) \<le> (fst e :: 'k::linorder)"
proof -
  show "hd (filter P m) \<in> set m" "P (hd (filter P m))"
    using hd_in_set [OF assms(2)] by simp_all
  show "\<forall>e \<in> set m. P e \<longrightarrow> fst (hd (filter P m)) \<le> fst e"
    using assms(1) by (induction m) auto
qed

lemma select_next_priority_ordered:
  "is_priority_ordered (sched_strategy q) \<Longrightarrow>
   select_next R q = Some (nth_opt (eligible_tids q) 0,
     q\<lparr>tentative_selection := nth_opt (eligible_tids q) 0\<rparr>)"
  by (cases "sched_strategy q") (simp_all add: is_priority_ordered_def select_next_def)

lemma selection_head:
  assumes cl: "rq_closed S q" and "queue q \<noteq> []" and "is_priority_ordered (sched_strategy q)"
    and m: "m = filter (\<lambda>e. qv_tid (snd e) \<notin> excluded_tids (epoch_settled q)) (queue q)"
  shows "m \<noteq> []" "\<exists>q'. tentative_pop_next R q = Some (Some (qv_tid (snd (hd m))), q')"
proof -
  let ?q = "epoch_settled q"
  have inv: "entries_ok S q" and ex: "\<not> tentative_selection_is_exact q" using cl by (simp_all add: rq_closed_iff)
  have elig: "eligible_tids ?q = map (\<lambda>e. qv_tid (snd e)) m"
    by (simp add: m eligible_tids_def tids_def filter_map o_def)
  show ne: "m \<noteq> []"
    using eligible_nonempty [of ?q] entries_okD(2) [OF inv] assms(2) unfolding elig by simp
  show "\<exists>q'. tentative_pop_next R q = Some (Some (qv_tid (snd (hd m))), q')"
    using select_next_priority_ordered [of ?q R] assms(3) ne
    unfolding tentative_pop_next_select [OF ex] elig by (simp add: nth_opt_def hd_conv_nth)
qed

text \<open>
  C7: under the heuristics that select by priority, the thread selected is the one with the least key
  (lowest priority number first, then the earliest round-robin turn) among the queued threads that no
  yield excludes. Such a thread always exists when the queue is not empty, and the selection depends
  on nothing random.
\<close>

theorem selection_is_least_key:
  assumes cl: "rq_closed S q" and "queue q \<noteq> []" and "is_priority_ordered (sched_strategy q)"
  shows "\<exists>k v q'. tentative_pop_next R q = Some (Some (qv_tid v), q') \<and> (k, v) \<in> set (queue q)
    \<and> qv_tid v \<notin> excluded_tids (epoch_settled q)
    \<and> (\<forall>e \<in> set (queue q). qv_tid (snd e) \<notin> excluded_tids (epoch_settled q) \<longrightarrow> k \<le> fst e)"
proof -
  let ?P = "\<lambda>e. qv_tid (snd e) \<notin> excluded_tids (epoch_settled q)"
  have inv: "entries_ok S q" using cl by (simp add: rq_closed_iff)
  note sel = selection_head [OF assms refl]
  note h = hd_filter_least [OF entries_okD(1) [OF inv, unfolded bm_ok_def] sel(1)]
  then show ?thesis using sel(2) [of R] by (metis prod.collapse)
qed

text \<open>Queues reached by legal histories, for the witnesses.\<close>

definition state_after :: "sched_heuristic \<Rightarrow> rq_call list \<Rightarrow> unit rq_state" where
  "state_after h cs = the (run_calls (rq_step first_rng) cs (fresh_rq h, []))"

lemma state_after_closed:
  assumes "legal_calls rq_legal (rq_step first_rng) cs (fresh_rq h, [])"
    and "tentative_selection (fst (state_after h cs)) = None"
  shows "rq_closed (set (snd (state_after h cs))) (fst (state_after h cs))"
proof -
  have "st_inv (fresh_rq h, [])" by (simp add: st_inv_def rq_inv_new)
  with assms(1) first_rng_in_range rq.history_ok [of first_rng "(fresh_rq h, [])" cs]
  have "st_inv (state_after h cs)" by (auto simp: state_after_def)
  then show ?thesis using assms(2) by (simp add: rq_closed_def st_inv_def)
qed

definition three_queued :: "rq_call list" where
  "three_queued = [PushBack 1 1000, PushFront 2 1000, PushPoller 3 500 1]"

lemma three_queued_closed:
  "rq_closed (set (snd (state_after h three_queued))) (fst (state_after h three_queued))"
  by (rule state_after_closed; cases h) (hypsubst, code_simp)+

theorem selection_is_least_key_witness:
  "\<exists>k v q'. tentative_pop_next first_rng (fst (state_after ConnectBind three_queued)) =
      Some (Some (qv_tid v), q')
    \<and> (k, v) \<in> set (queue (fst (state_after ConnectBind three_queued)))
    \<and> qv_tid v \<notin> excluded_tids (epoch_settled (fst (state_after ConnectBind three_queued)))
    \<and> (\<forall>e \<in> set (queue (fst (state_after ConnectBind three_queued))).
         qv_tid (snd e) \<notin> excluded_tids (epoch_settled (fst (state_after ConnectBind three_queued)))
         \<longrightarrow> k \<le> fst e)"
  by (rule selection_is_least_key [OF three_queued_closed]) code_simp+

lemma length_gt_1:
  assumes "a \<in> set xs" "b \<in> set xs" "a \<noteq> b"
  shows "1 < length xs"
  using assms by (cases xs; cases "tl xs") auto

lemma skipped_excluded: "skip_tid q = Some t \<Longrightarrow> t \<in> excluded_tids q"
  by (auto simp: excluded_tids_def Let_def split: option.split)

text \<open>
  C8: under every heuristic a thread that yields cedes its turn: if any other thread is queued, the
  next selection is one of the others, whatever their priorities, and the commit of that turn ends
  the exclusion with the yielder still queued.
\<close>

theorem yielded_thread_cedes_a_turn:
  assumes R: "rng_in_range R" and cl: "rq_closed S q" and other: "contains_tid q u"
    and pre: "\<not> contains_tid q t" "is_ordinary_priority p" "last_back_turn q + 1 < RUN_TIME_TURNS"
      "yielded_skip q = None"
  shows "\<exists>k q1 w q2 q3. push_yielded q t p = Some (k, q1)
    \<and> tentative_pop_next R q1 = Some (Some w, q2) \<and> w \<noteq> t \<and> contains_tid q w
    \<and> commit_tentative_pop_completed_turn R q2 = Some (w, q3)
    \<and> yielded_skip q3 = None \<and> contains_tid q3 t"
proof -
  from push_yielded_ok [OF cl pre] obtain k q1 where q1: "push_yielded q t p = Some (k, q1)"
    "rq_closed S q1" "set (tids (queue q1)) = insert t (set (tids (queue q)))" "yielded_skip q1 = Some t"
    by blast
  have inv: "entries_ok S q1" and c1: "tentative_selection q1 = None" "\<not> tentative_selection_is_exact q1"
    using q1(2) by (simp_all add: rq_closed_iff)
  have "1 < length (tids (queue q1))"
    using other pre(1) q1(3) by (intro length_gt_1 [of t _ u]) (auto simp: contains_tid_def)
  then have skip: "skip_tid (epoch_settled q1) = Some t"
    using q1(3,4) by (simp add: skip_tid_def contains_tid_def tids_def)
  have "queue q1 \<noteq> []" using q1(3) by auto
  with select_next_eligible [OF R, of "epoch_settled q1"] entries_okD(2) [OF inv] c1
  obtain w q2 where w: "select_next R (epoch_settled q1) = Some (Some w, q2)"
    "w \<in> set (eligible_tids (epoch_settled q1))" "tentative_selection q2 = Some w"
    by auto
  have "w \<noteq> t" using w(2) skipped_excluded [OF skip] by (auto simp: eligible_tids_def)
  moreover have pop: "tentative_pop_next R q1 = Some (Some w, q2)"
    using w(1) tentative_pop_next_select [OF c1(2)] by simp
  moreover have "contains_tid q w"
    using w(2) q1(3) \<open>w \<noteq> t\<close> by (auto simp: eligible_tids_def contains_tid_def)
  moreover have "rq_inv S q2" "queue q2 = queue q1"
    using tentative_pop_next_ok [OF R q1(2)] pop by auto
  moreover then obtain q3 where "commit_selection R q2 = Some (w, q3)"
    "queue q3 = filter (\<lambda>e. qv_tid (snd e) \<noteq> w) (queue q2)"
    using commit_selection_ok [OF _ w(3)] by blast
  ultimately show ?thesis
    using q1(1,3)
    by (auto simp: commit_tentative_pop_completed_turn_def commit_tentative_pop_def contains_tid_def
        consume_yield_exclusion_def end_yield_epoch_def)
qed

theorem yielded_thread_cedes_a_turn_witness:
  "\<exists>k q1 w q2 q3. push_yielded (fst (state_after StickyRandom three_queued)) 9 1 = Some (k, q1)
    \<and> tentative_pop_next first_rng q1 = Some (Some w, q2) \<and> w \<noteq> 9
    \<and> contains_tid (fst (state_after StickyRandom three_queued)) w
    \<and> commit_tentative_pop_completed_turn first_rng q2 = Some (w, q3)
    \<and> yielded_skip q3 = None \<and> contains_tid q3 9"
  by (rule yielded_thread_cedes_a_turn [OF first_rng_in_range three_queued_closed, of _ 2]) code_simp+

text \<open>
  An epoch stays open while some queued thread outside it is not a fully backed off poller. It holds
  its members off unless the one-turn exclusion of a yielder (\<open>skip_tid\<close>) and the epoch together would
  leave no queued thread to run.
\<close>

definition epoch_open :: "'g run_queue \<Rightarrow> det_tid set \<Rightarrow> bool" where
  "epoch_open q epoch \<longleftrightarrow>
     list_ex (\<lambda>(k, v). qv_tid v \<notin> epoch \<and> \<not> is_fully_backed_off_poller v (po_priority k)) (queue q)"

definition epoch_holds :: "'g run_queue \<Rightarrow> det_tid set \<Rightarrow> bool" where
  "epoch_holds q epoch \<longleftrightarrow> epoch_open q epoch
     \<and> list_ex (\<lambda>(k, v). qv_tid v \<notin> epoch \<and> skip_tid q \<noteq> Some (qv_tid v)) (queue q)"

lemma epoch_over_iff: "yield_epoch q = Some epoch \<Longrightarrow> yield_epoch_over q \<longleftrightarrow> \<not> epoch_open q epoch"
  by (auto simp: yield_epoch_over_def epoch_open_def list_all_iff list_ex_iff)

lemma eligible_in_epoch:
  assumes "yield_epoch q = Some epoch"
  shows "set (eligible_tids (epoch_settled q)) =
    {t. contains_tid q t \<and> skip_tid q \<noteq> Some t \<and> (epoch_holds q epoch \<longrightarrow> t \<notin> epoch)}"
proof -
  let ?skipped = "case skip_tid q of None \<Rightarrow> {} | Some t \<Rightarrow> {t}"
  have skip: "skip_tid (epoch_settled q) = skip_tid q"
    by (simp add: skip_tid_def contains_tid_def split: option.split)
  have skipped: "t \<in> ?skipped \<longleftrightarrow> skip_tid q = Some t" for t by (auto split: option.split)
  have "excluded_tids (epoch_settled q) = (if epoch_holds q epoch then ?skipped \<union> epoch else ?skipped)"
  proof (cases "epoch_open q epoch")
    case True
    then have "epoch_settled q = q" using epoch_over_iff [OF assms] by (simp add: epoch_settled_def)
    moreover have "list_ex (\<lambda>t. t \<notin> ?skipped \<union> epoch) (tids (queue q)) \<longleftrightarrow> epoch_holds q epoch"
      using True by (auto simp: epoch_holds_def list_ex_iff tids_def case_prod_beta skipped)
    ultimately show ?thesis using assms by (simp add: excluded_tids_def Let_def)
  next
    case False
    then show ?thesis
      using skip epoch_over_iff [OF assms]
      by (simp add: excluded_tids_def epoch_settled_def end_yield_epoch_def epoch_holds_def)
  qed
  then show ?thesis using skipped by (auto simp: eligible_tids_def contains_tid_def)
qed

text \<open>
  C9: yield epochs. A selection from a queue with a yield epoch takes a queued thread. It never takes
  the thread whose one-turn exclusion is in force. It takes no member of the epoch either, as long as
  some queued thread outside the epoch is not a fully backed off poller and some queued thread is
  neither in the epoch nor the one excluded for the turn; if the two exclusions together cover the
  queue, only the one-turn exclusion applies. The candidates are exactly the queued threads these
  rules leave. The epoch stays as it is while some queued thread outside it is not a fully backed off
  poller, and ends otherwise.
\<close>

theorem yield_epoch_excludes_members:
  assumes R: "rng_in_range R" and cl: "rq_closed S q" and ne: "queue q \<noteq> []"
    and epoch: "yield_epoch q = Some epoch"
  shows "\<exists>w q'. tentative_pop_next R q = Some (Some w, q') \<and> w \<in> set (eligible_tids (epoch_settled q))
    \<and> set (eligible_tids (epoch_settled q)) =
        {t. contains_tid q t \<and> skip_tid q \<noteq> Some t \<and> (epoch_holds q epoch \<longrightarrow> t \<notin> epoch)}
    \<and> yield_epoch q' = (if epoch_open q epoch then Some epoch else None)"
proof -
  have inv: "entries_ok S q" and c: "tentative_selection q = None" "\<not> tentative_selection_is_exact q"
    using cl by (simp_all add: rq_closed_iff)
  from select_next_eligible [OF R, of "epoch_settled q"] entries_okD(2) [OF inv] c ne
  obtain w q' where w: "select_next R (epoch_settled q) = Some (Some w, q')"
    "w \<in> set (eligible_tids (epoch_settled q))" "same_queue_state (epoch_settled q) q'"
    by auto
  have "yield_epoch (epoch_settled q) = (if epoch_open q epoch then Some epoch else None)"
    using epoch epoch_over_iff [OF epoch] by (simp add: epoch_settled_def end_yield_epoch_def)
  then show ?thesis
    using w tentative_pop_next_select [OF c(2)] eligible_in_epoch [OF epoch]
    by (simp add: same_queue_state_def)
qed

text \<open>
  The queue of the test \<open>a_one_turn_skip_and_a_yield_epoch_never_exclude_everyone\<close>: thread 2 is in the
  epoch, thread 1 is excluded for the turn. With a third thread queued, both exclusions hold.
\<close>

definition two_yields :: "rq_call list" where
  "two_yields = [PushBack 1 1000, PushYieldedIntoEpoch 2 10, TentativePopNext, CommitTentativePopYield,
     PushYieldedIntoEpoch 2 10, TentativePopTid 1, CommitTentativePopYield, PushYielded 1 1000]"

lemma two_yields_closed:
  "rq_closed (set (snd (state_after SchedNone two_yields))) (fst (state_after SchedNone two_yields))"
  by (rule state_after_closed) code_simp+

lemma two_yields_third_closed:
  "rq_closed (set (snd (state_after SchedNone (two_yields @ [PushBack 3 5000]))))
     (fst (state_after SchedNone (two_yields @ [PushBack 3 5000])))"
  by (rule state_after_closed) code_simp+

theorem yield_epoch_excludes_members_witness:
  "(\<exists>q'. tentative_pop_next first_rng (fst (state_after SchedNone two_yields)) = Some (Some 2, q')
      \<and> yield_epoch q' = Some {2})
   \<and> (\<exists>q'. tentative_pop_next first_rng (fst (state_after SchedNone (two_yields @ [PushBack 3 5000]))) =
        Some (Some 3, q') \<and> yield_epoch q' = Some {2})"
proof -
  let ?q = "fst (state_after SchedNone two_yields)"
  let ?q3 = "fst (state_after SchedNone (two_yields @ [PushBack 3 5000]))"
  have q: "yield_epoch ?q = Some {2}" "queue ?q \<noteq> []" "eligible_tids (epoch_settled ?q) = [2]"
    "epoch_open ?q {2}" by code_simp+
  have q3: "yield_epoch ?q3 = Some {2}" "queue ?q3 \<noteq> []" "eligible_tids (epoch_settled ?q3) = [3]"
    "epoch_open ?q3 {2}" by code_simp+
  show ?thesis
    using yield_epoch_excludes_members [OF first_rng_in_range two_yields_closed q(2,1)] q(3,4)
      yield_epoch_excludes_members [OF first_rng_in_range two_yields_third_closed q3(2,1)] q3(3,4) by auto
qed

subsection \<open>Pollers\<close>

text \<open>
  C10: the backoff of a poller. Whatever the attempt count, also past the width of the shift and where
  the product overflows, the priority level of a poller is its normal priority doubled once per
  attempt, capped at the last level.
\<close>

theorem backoff_priority_closed_form:
  "backoff_priority normal attempt =
     (if normal = 0 \<and> 64 \<le> attempt then LAST_PRIORITY else min (normal * 2 ^ attempt) LAST_PRIORITY)"
proof (cases "attempt < 64")
  case True
  have "LAST_PRIORITY \<le> u64_max" by (simp add: LAST_PRIORITY_def u64_max_def)
  then show ?thesis
    using True by (simp add: backoff_priority_def checked_shl_one_def checked_mul_def min_def mult.commute)
next
  case False
  have big: "LAST_PRIORITY \<le> u64_max" by (simp add: LAST_PRIORITY_def u64_max_def)
  have "LAST_PRIORITY \<le> normal * 2 ^ attempt" if "normal \<noteq> 0"
  proof -
    have "LAST_PRIORITY \<le> 2 ^ 64" by (simp add: LAST_PRIORITY_def)
    also have "(2::nat) ^ 64 \<le> 2 ^ attempt" using False by (intro power_increasing) simp_all
    also have "\<dots> \<le> normal * 2 ^ attempt" using that by simp
    finally show ?thesis .
  qed
  then show ?thesis
    using False big by (auto simp: backoff_priority_def checked_shl_one_def min_def)
qed

text \<open>What one upgrade does to one entry.\<close>

definition upgraded :: "prioritized_order \<times> queue_value \<Rightarrow> prioritized_order \<times> queue_value \<Rightarrow> bool" where
  "upgraded e e' \<longleftrightarrow>
     qv_tid (snd e') = qv_tid (snd e) \<and> po_turn (fst e') = po_turn (fst e)
     \<and> (case poll_upgrade (snd e) of
          None \<Rightarrow> po_priority (fst e') = po_priority (fst e) \<and> poll_upgrade (snd e') = None
        | Some normal \<Rightarrow>
            if normal < LAST_PRIORITY
            then po_priority (fst e') = normal \<and> poll_upgrade (snd e') = None
              \<and> \<not> counts_as_poller (snd e') (po_priority (fst e'))
            else fst e' = fst e \<and> poll_upgrade (snd e') = Some normal \<and> upgraded_in_place (snd e'))"

lemma upgrade_entry_upgraded: "upgraded e (settle_restored (upgrade_entry e))"
  by (cases e)
    (auto simp: upgraded_def upgrade_entry_def settle_restored_def counts_as_poller_def
      is_fully_backed_off_poller_def split: option.split)

text \<open>
  C11: a poll upgrade moves every queued poller whose normal priority lies before the last level back
  to that normal priority, as ordinary work and at its old turn within the level; a poller whose
  normal priority is the last level stays where it is and is marked as upgraded in place; every other
  thread keeps its key. It answers exactly the threads it moved, in queue order, and loses none.
\<close>

theorem poll_upgrade_restores_pollers:
  assumes "rq_closed S q"
  shows "\<exists>q'. upgrade_pollers q = Some (tids (filter is_movable (queue q)), q') \<and> rq_closed S q'
    \<and> poll_upgrades q' = poll_upgrades q + 1
    \<and> (\<exists>f. set (queue q') = f ` set (queue q) \<and> (\<forall>e \<in> set (queue q). upgraded e (f e)))"
proof -
  have "entries_ok S q" using assms by (simp add: rq_closed_iff)
  then obtain q' where q': "do_poll_upgrade q = Some (tids (filter is_movable (queue q)), q')"
    "set (queue q') = (\<lambda>e. settle_restored (upgrade_entry e)) ` set (queue q)"
    "entries_ok S q'" "q' = q\<lparr>poll_upgrades := poll_upgrades q + 1, queue := queue q'\<rparr>"
    by (rule do_poll_upgrade_ok)
  have "same_selection_state q q'" by (subst q'(4)) (simp add: same_selection_state_def)
  with rq_closed_frame [OF assms q'(3)] have "rq_closed S q'" by simp
  moreover have "poll_upgrades q' = poll_upgrades q + 1" by (subst q'(4)) simp
  moreover have "upgrade_pollers q = Some (tids (filter is_movable (queue q)), q')"
    using q'(1) assms by (simp add: upgrade_pollers_def rq_closed_def)
  ultimately show ?thesis using q'(2) upgrade_entry_upgraded by blast
qed

lemma is_movable_code [code]:
  "is_movable e \<longleftrightarrow> (case poll_upgrade (snd e) of None \<Rightarrow> False | Some up \<Rightarrow> up < LAST_PRIORITY)"
  by (auto simp: is_movable_def split: option.split)

theorem poll_upgrade_restores_pollers_witness:
  "\<exists>q'. upgrade_pollers (fst (state_after SchedNone three_queued)) = Some ([3], q')
    \<and> poll_upgrades q' = 1"
proof -
  have "tids (filter is_movable (queue (fst (state_after SchedNone three_queued)))) = [3]"
    by code_simp
  moreover have "poll_upgrades (fst (state_after SchedNone three_queued)) = 0" by code_simp
  ultimately show ?thesis
    using poll_upgrade_restores_pollers [OF three_queued_closed, of SchedNone] by auto
qed

text \<open>
  C12: pollers are not starved. Along every history that follows the protocol, if the queue was pushed
  to at least two hundred times, at the back or at the front, then a poll upgrade has run in between,
  whatever else happened.
\<close>

theorem poll_upgrades_keep_up:
  assumes "rng_in_range R" and "rq_inv (set S) q"
    and "legal_calls rq_pre (rq_step R) cs (q, S)" and "run_calls (rq_step R) cs (q, S) = Some (q', S')"
    and "queueings q + int POLLING_UPGRADE_INTERVAL \<le> queueings q'"
  shows "poll_upgrades q < poll_upgrades q'"
proof -
  have "rng_in_range R \<and> st_inv (q, S)" using assms(1,2) by (simp add: st_inv_def)
  then have "upgrade_credit (fst (q, S)) \<le> upgrade_credit (fst (q', S'))"
    by (rule rq.history_mono [where f = "\<lambda>st. upgrade_credit (fst st)", rotated])
      (fact assms rq_returned [OF assms(3,4)] | erule step_credit)+
  moreover have "queueings q div 200 < queueings q' div 200"
    using zdiv_mono1 [of "queueings q + 200" "queueings q'" 200] assms(5)
    by (simp add: POLLING_UPGRADE_INTERVAL_def)
  ultimately show ?thesis unfolding upgrade_credit_def POLLING_UPGRADE_INTERVAL_def by simp
qed

definition two_hundred_pushes :: "rq_call list" where
  "two_hundred_pushes = concat (replicate 100 [PushBack 1 1000, RemoveTid 1, PushFront 2 5, RemoveTid 2])"

lemma two_hundred_pushes_run:
  "legal_calls rq_pre (rq_step first_rng) two_hundred_pushes (fresh_rq SchedNone, [])"
  "map_option (\<lambda>st. (queueings (fst st), snd st))
     (run_calls (rq_step first_rng) two_hundred_pushes (fresh_rq SchedNone, [])) = Some (200, [])"
  "queueings (fresh_rq SchedNone) = 0" "poll_upgrades (fresh_rq SchedNone) = 0"
  by code_simp+

theorem poll_upgrades_keep_up_witness:
  "\<exists>q'. run_calls (rq_step first_rng) two_hundred_pushes (fresh_rq SchedNone, []) = Some (q', [])
    \<and> 0 < poll_upgrades q'"
proof -
  obtain q' where q': "run_calls (rq_step first_rng) two_hundred_pushes (fresh_rq SchedNone, []) =
      Some (q', [])" "queueings q' = 200"
    using two_hundred_pushes_run(2) by auto
  have "queueings (fresh_rq SchedNone) + int POLLING_UPGRADE_INTERVAL \<le> queueings q'"
    using q'(2) two_hundred_pushes_run(3) by (simp add: POLLING_UPGRADE_INTERVAL_def)
  moreover have "rq_inv (set []) (fresh_rq SchedNone)" by (simp add: rq_inv_new)
  ultimately have "poll_upgrades (fresh_rq SchedNone) < poll_upgrades q'"
    using poll_upgrades_keep_up [OF first_rng_in_range _ two_hundred_pushes_run(1) q'(1)] by blast
  then show ?thesis using q'(1) by (simp add: two_hundred_pushes_run(4))
qed

subsection \<open>Suspension, run time order and chaos priorities\<close>

lemma find_tid_mem:
  assumes "distinct (tids m)" "(k, v) \<in> set m" "qv_tid v = t"
  shows "find_tid m t = Some (k, v)"
proof -
  have "t \<in> set (tids m)" using assms(2,3) by (force simp: tids_def)
  then obtain e where e: "find_tid m t = Some e" using find_tid_None by (metis not_None_eq)
  then have "e \<in> set m" "qv_tid (snd e) = qv_tid (snd (k, v))"
    using find_tid_Some [OF e] assms(3) by simp_all
  then have "e = (k, v)" by (intro distinct_map_eqD [OF assms(1) [unfolded tids_def] _ assms(2)])
  then show ?thesis using e by simp
qed

text \<open>
  C13: suspending a queued thread and restoring it at an unchanged persistent priority puts the queue
  back exactly as it was, key and poller state included, so that observing a thread does not change
  the schedule.
\<close>

theorem suspend_restore_round_trip:
  assumes cl: "rq_closed S q" and "contains_tid q t"
  shows "\<exists>se q1. suspend q t p = Some (Some se, q1) \<and> \<not> contains_tid q1 t \<and> restore q1 se p = Some q"
proof -
  have inv: "entries_ok S q" and none: "tentative_selection q = None" using cl by (simp_all add: rq_closed_iff)
  note old = entries_okD [OF inv]
  obtain k v where e: "(k, v) \<in> set (queue q)" "qv_tid v = t"
    using assms(2) by (auto simp: contains_tid_def tids_def)
  have get: "bm_get (queue q) k = Some v" using e(1) old(1) by (simp add: bm_get_iff)
  let ?se = "\<lparr>se_key = k, se_value = v, persistent_priority = p\<rparr>"
  let ?q1 = "q\<lparr>queue := bm_remove k (queue q)\<rparr>"
  have s: "suspend q t p = Some (Some ?se, ?q1)"
    using none find_tid_mem [OF old(2) e] by (simp add: suspend_def)
  have gone: "\<not> contains_tid ?q1 t"
    using entries_ok_remove(2) [OF inv e(1)] e(2) by (simp add: contains_tid_def)
  have free: "bm_get (bm_remove k (queue q)) k = None" by (simp add: bm_get_remove)
  have "restore ?q1 ?se p = Some (q\<lparr>queue := bm_insert k v (bm_remove k (queue q))\<rparr>)"
    using none gone e(2) free next_free.simps [of "bm_remove k (queue q)" k]
    by (simp add: restore_def Let_def)
  also have "bm_insert k v (bm_remove k (queue q)) = queue q"
    using old(1) get by (rule bm.insert_remove_present)
  finally show ?thesis using s gone by auto
qed

theorem suspend_restore_round_trip_witness:
  "\<exists>se q1. suspend (fst (state_after SchedRandom three_queued)) 3 500 = Some (Some se, q1)
    \<and> \<not> contains_tid q1 3 \<and> restore q1 se 500 = Some (fst (state_after SchedRandom three_queued))"
  by (rule suspend_restore_round_trip [OF three_queued_closed]) code_simp

text \<open>
  C14: ordering by run time. The threads given, of the entries in round-robin order, end up sorted by
  priority level, then run time key, then thread; every other entry keeps its place; no entry changes
  its level or its poller state, and none is lost or duplicated.
\<close>

theorem order_by_run_time_sorts:
  assumes "rq_closed S q"
  shows "\<exists>q'. order_by_run_time q order = Some q' \<and> rq_closed S q'
    \<and> filter (\<lambda>e. \<not> run_time_picked (map_of (rev order)) e) (queue q') =
        filter (\<lambda>e. \<not> run_time_picked (map_of (rev order)) e) (queue q)
    \<and> sorted (map (run_time_sort_key (map_of (rev order)))
        (filter (run_time_picked (map_of (rev order))) (queue q')))
    \<and> mset (map (\<lambda>e. (po_priority (fst e), snd e)) (queue q')) =
        mset (map (\<lambda>e. (po_priority (fst e), snd e)) (queue q))"
  using order_by_run_time_ok [OF assms refl, of order] by blast

theorem order_by_run_time_sorts_witness:
  "\<exists>q'. order_by_run_time (fst (state_after SchedNone [PushBack 1 1000, PushBack 2 1000]))
      [(1, 9, 0), (2, 4, 0)] = Some q'
    \<and> sorted (map (run_time_sort_key (map_of (rev [(1, 9, 0), (2, 4, 0)])))
        (filter (run_time_picked (map_of (rev [(1, 9, 0), (2, 4, 0)]))) (queue q')))"
proof -
  have "rq_closed (set (snd (state_after SchedNone [PushBack 1 1000, PushBack 2 1000])))
      (fst (state_after SchedNone [PushBack 1 1000, PushBack 2 1000]))"
    by (rule state_after_closed) code_simp+
  from order_by_run_time_sorts [OF this] show ?thesis by blast
qed

text \<open>
  Chaos priorities. A random word always becomes a priority that users may set, and every such
  priority is reached.
\<close>

theorem entropy_to_priority_range: "entropy_to_priority ` {0..u64_max} = {p. is_ordinary_priority p}"
proof (intro equalityI subsetI)
  fix p assume "p \<in> {p. is_ordinary_priority p}"
  then have p: "1 \<le> p" "p \<le> 10000" by (simp_all add: is_ordinary_priority_def priority_defs)
  then have "p = entropy_to_priority (p - 1)" "p - 1 \<le> u64_max"
    by (simp_all add: entropy_to_priority_def priority_defs u64_max_def Let_def)
  then show "p \<in> entropy_to_priority ` {0..u64_max}" by (intro image_eqI [of _ _ "p - 1"]) simp_all
next
  fix p assume "p \<in> entropy_to_priority ` {0..u64_max}"
  then obtain w where "p = 1 + w mod 10000"
    by (auto simp: entropy_to_priority_def priority_defs Let_def)
  moreover have "w mod 10000 < 10000" by simp
  ultimately show "p \<in> {p. is_ordinary_priority p}"
    by (simp add: is_ordinary_priority_def priority_defs Suc_le_eq)
qed

end
