(* ===== verification/Multimap.thy ===== *)
theory Multimap
  imports BTree
begin

text \<open>
  A \<open>BTreeMap\<close> of nonempty \<open>BTreeSet\<close>s, the shape of the timed event collection: inserting creates
  the inner set on demand, removing drops an inner set that becomes empty, iteration goes through the
  pairs in order. The lemmas reduce all of it to the set of pairs.
\<close>

type_synonym ('k, 'a) btree_multimap = "('k, 'a btree_set) btree_map"

definition mm_set :: "('k::linorder, 'a) btree_multimap \<Rightarrow> 'k \<Rightarrow> 'a btree_set" where
  "mm_set m k = (case bm_get m k of None \<Rightarrow> [] | Some s \<Rightarrow> s)"

definition mm_insert :: "'k::linorder \<Rightarrow> 'a::linorder \<Rightarrow> ('k, 'a) btree_multimap \<Rightarrow> ('k, 'a) btree_multimap" where
  "mm_insert k x m = bm_insert k (bs_insert x (mm_set m k)) m"

definition mm_put :: "'k::linorder \<Rightarrow> 'a btree_set \<Rightarrow> ('k, 'a) btree_multimap \<Rightarrow> ('k, 'a) btree_multimap" where
  "mm_put k s m = (if s = [] then bm_remove k m else bm_insert k s m)"

definition mm_iter :: "('k, 'a) btree_multimap \<Rightarrow> ('k \<times> 'a) list" where
  "mm_iter m = concat (map (\<lambda>(k, s). map (Pair k) s) m)"

definition mm_pairs :: "('k, 'a) btree_multimap \<Rightarrow> ('k \<times> 'a) set" where
  "mm_pairs m = set (mm_iter m)"

definition mm_ok :: "('k::linorder, 'a::linorder) btree_multimap \<Rightarrow> bool" where
  "mm_ok m \<longleftrightarrow> bm_ok m \<and> (\<forall>(k, s) \<in> set m. s \<noteq> [] \<and> bs_ok s)"

subsection \<open>Sets\<close>

lemma set_bs_insert [simp]: "set (bs_insert x s) = insert x (set s)"
  by (induction s) auto

lemma bs_insert_ok: "bs_ok s \<Longrightarrow> bs_ok (bs_insert x s)"
  by (induction s) (auto simp: bs_ok_def)

lemma set_bs_remove [simp]: "set (bs_remove x s) = set s - {x}"
  by (auto simp: bs_remove_def)

lemma bs_remove_ok: "bs_ok s \<Longrightarrow> bs_ok (bs_remove x s)"
  by (induction s) (auto simp: bs_ok_def bs_remove_def)

lemma bs_ok_Nil [simp]: "bs_ok []"
  by (simp add: bs_ok_def)

lemma bs_ok_Cons: "bs_ok (x # s) \<longleftrightarrow> (\<forall>y \<in> set s. x < y) \<and> bs_ok s"
  by (simp add: bs_ok_def)

lemma bs_ok_distinct: "bs_ok s \<Longrightarrow> distinct s"
  by (simp add: bs_ok_def strict_sorted_iff)

subsection \<open>Pairs\<close>

lemma mm_pairs_iff: "(k, x) \<in> mm_pairs m \<longleftrightarrow> (\<exists>s. (k, s) \<in> set m \<and> x \<in> set s)"
  by (auto simp: mm_pairs_def mm_iter_def)

lemma mm_pairs_get: "bm_ok m \<Longrightarrow> (k, x) \<in> mm_pairs m \<longleftrightarrow> x \<in> set (mm_set m k)"
  unfolding mm_pairs_iff mm_set_def by (cases "bm_get m k") (simp_all flip: bm_get_iff)

lemma mm_ok_bm [simp, dest]: "mm_ok m \<Longrightarrow> bm_ok m"
  by (simp add: mm_ok_def)

lemma mm_set_ok: "mm_ok m \<Longrightarrow> bs_ok (mm_set m k)"
  by (auto simp: mm_ok_def mm_set_def bm_get_iff split: option.split)

lemma mm_get_nonempty: "mm_ok m \<Longrightarrow> bm_get m k = Some s \<Longrightarrow> s \<noteq> [] \<and> bs_ok s"
  by (auto simp: mm_ok_def bm_get_iff)

lemma mm_put_ok: "mm_ok m \<Longrightarrow> bs_ok s \<Longrightarrow> mm_ok (mm_put k s m)"
  by (auto simp: mm_ok_def mm_put_def bm_insert_ok bm_remove_ok set_bm_insert)

lemma mm_set_put: "bm_ok m \<Longrightarrow> mm_set (mm_put k s m) j = (if j = k then s else mm_set m j)"
  by (simp add: mm_set_def mm_put_def bm_get_insert bm_get_remove)

lemma mm_pairs_put:
  "mm_ok m \<Longrightarrow> bs_ok s \<Longrightarrow> mm_pairs (mm_put k s m) = {p \<in> mm_pairs m. fst p \<noteq> k} \<union> Pair k ` set s"
  by (auto simp: mm_pairs_get mm_set_put mm_put_ok split: if_splits)

lemma bs_insert_not_Nil [simp]: "bs_insert x s \<noteq> []"
  by (cases s) simp_all

lemma mm_insert_put: "mm_insert k x m = mm_put k (bs_insert x (mm_set m k)) m"
  by (simp add: mm_insert_def mm_put_def)

lemma mm_insert_ok: "mm_ok m \<Longrightarrow> mm_ok (mm_insert k x m)"
  unfolding mm_insert_put by (intro mm_put_ok bs_insert_ok mm_set_ok)

lemma mm_pairs_insert [simp]: "mm_ok m \<Longrightarrow> mm_pairs (mm_insert k x m) = insert (k, x) (mm_pairs m)"
  unfolding mm_insert_put by (auto simp: mm_pairs_put bs_insert_ok mm_set_ok mm_pairs_get)

lemma mm_pairs_remove:
  assumes "mm_ok m"
  shows "mm_pairs (mm_put k (bs_remove x (mm_set m k)) m) = mm_pairs m - {(k, x)}"
  using assms by (auto simp: mm_pairs_put bs_remove_ok mm_set_ok mm_pairs_get)

lemma mm_pairs_empty_iff:
  assumes "mm_ok m"
  shows "mm_pairs m = {} \<longleftrightarrow> m = []"
proof (cases m)
  case (Cons e m')
  obtain k s where e: "e = (k, s)" by (cases e)
  with assms Cons have "s \<noteq> []" by (auto simp: mm_ok_def)
  then have "(k, hd s) \<in> mm_pairs m" by (auto simp: mm_pairs_iff Cons e)
  then show ?thesis using Cons by auto
qed (simp add: mm_pairs_def mm_iter_def)

lemma mm_pairs_Cons: "mm_pairs ((k, s) # m) = Pair k ` set s \<union> mm_pairs m"
  by (simp add: mm_pairs_def mm_iter_def)

subsection \<open>Iteration order\<close>

lemma mm_iter_Cons: "mm_iter ((k, s) # m) = map (Pair k) s @ mm_iter m"
  by (simp add: mm_iter_def)

lemma mm_iter_sorted: "mm_ok m \<Longrightarrow> sorted_wrt (<) (mm_iter m)"
proof (induction m)
  case (Cons e m)
  obtain k s where e: "e = (k, s)" by (cases e)
  from Cons.prems have ok: "mm_ok m" "bs_ok s" and first: "\<forall>e' \<in> set m. k < fst e'"
    by (auto simp: mm_ok_def bm_ok_Cons e)
  have "sorted_wrt (<) (map (Pair k) s)"
    using ok(2) by (simp add: sorted_wrt_map bs_ok_def less_prod_simp)
  moreover have "\<forall>x \<in> set s. \<forall>p \<in> set (mm_iter m). (k, x) < p"
    using first by (fastforce simp: mm_iter_def less_prod_simp)
  ultimately show ?case
    using Cons.IH [OF ok(1)] by (simp add: e mm_iter_Cons sorted_wrt_append)
qed (simp add: mm_iter_def)

text \<open>The head of the first inner set is the least pair.\<close>

lemma mm_first_least:
  assumes "mm_ok ((k, x # s) # m)"
  shows "(k, x) \<in> mm_pairs ((k, x # s) # m)"
    and "\<forall>p \<in> mm_pairs ((k, x # s) # m). (k, x) \<le> p"
  using mm_iter_sorted [OF assms] by (auto simp: mm_pairs_def mm_iter_Cons intro: less_imp_le)

end
