(* ===== verification/Timed_Events.thy ===== *)
theory Timed_Events
  imports Multimap Protocol
begin

text \<open>
  Timed events of the scheduler (detcore/src/scheduler/timed_waiters.rs): threads that sleep until a
  point of virtual time, the alarms and POSIX timers of each process with their re-arming state, the
  controlled real timer deadlines, and the child exit signals. A logical time is its number of
  nanoseconds, a \<open>u64\<close>; adding times saturates. Signals are their Linux numbers.
\<close>

type_synonym logical_time = nat
type_synonym signal = nat

definition SIGALRM :: signal where
  "SIGALRM = 14"

definition SIGCHLD :: signal where
  "SIGCHLD = 17"

subsection \<open>Timers and events\<close>

datatype signal_timer_id =
    Alarm det_pid
  | Posix det_pid int
  | ChildExit (child: det_pid) (parent: det_pid)

datatype timer_signal = Send signal | RefuseRealTime int

datatype signal_target = Process det_tid | Thread det_tid

datatype timed_event =
    SignalEvt signal_timer_id signal_target timer_signal
  | ThreadEvt det_tid

text \<open>
  The derived orders of these types compare the constructor first, in the order of declaration, and
  then the fields from left to right.
\<close>

fun timer_id_key :: "signal_timer_id \<Rightarrow> nat \<times> int \<times> int" where
  "timer_id_key (Alarm pid) = (0, pid, 0)"
| "timer_id_key (Posix pid i) = (1, pid, i)"
| "timer_id_key (ChildExit c p) = (2, c, p)"

fun timer_signal_key :: "timer_signal \<Rightarrow> nat \<times> int" where
  "timer_signal_key (Send s) = (0, int s)"
| "timer_signal_key (RefuseRealTime n) = (1, n)"

fun signal_target_key :: "signal_target \<Rightarrow> nat \<times> int" where
  "signal_target_key (Process t) = (0, t)"
| "signal_target_key (Thread t) = (1, t)"

fun timed_event_key ::
  "timed_event \<Rightarrow> nat \<times> (nat \<times> int \<times> int) \<times> (nat \<times> int) \<times> nat \<times> int" where
  "timed_event_key (SignalEvt i t s) = (0, timer_id_key i, signal_target_key t, timer_signal_key s)"
| "timed_event_key (ThreadEvt t) = (1, (0, t, 0), (0, 0), 0, 0)"

lemma timer_id_key_inj: "timer_id_key a = timer_id_key b \<Longrightarrow> a = b"
  by (cases a; cases b) simp_all

lemma timer_signal_key_inj: "timer_signal_key a = timer_signal_key b \<Longrightarrow> a = b"
  by (cases a; cases b) simp_all

lemma signal_target_key_inj: "signal_target_key a = signal_target_key b \<Longrightarrow> a = b"
  by (cases a; cases b) simp_all

lemma timed_event_key_inj: "timed_event_key a = timed_event_key b \<Longrightarrow> a = b"
  by (cases a; cases b) (auto dest: timer_id_key_inj timer_signal_key_inj signal_target_key_inj)

instantiation signal_timer_id :: linorder
begin

definition less_eq_signal_timer_id :: "signal_timer_id \<Rightarrow> signal_timer_id \<Rightarrow> bool" where
  "less_eq_signal_timer_id a b \<longleftrightarrow> timer_id_key a \<le> timer_id_key b"

definition less_signal_timer_id :: "signal_timer_id \<Rightarrow> signal_timer_id \<Rightarrow> bool" where
  "less_signal_timer_id a b \<longleftrightarrow> timer_id_key a < timer_id_key b"

instance
  by standard
    (auto simp: less_eq_signal_timer_id_def less_signal_timer_id_def intro: timer_id_key_inj)

end

instantiation timed_event :: linorder
begin

definition less_eq_timed_event :: "timed_event \<Rightarrow> timed_event \<Rightarrow> bool" where
  "less_eq_timed_event a b \<longleftrightarrow> timed_event_key a \<le> timed_event_key b"

definition less_timed_event :: "timed_event \<Rightarrow> timed_event \<Rightarrow> bool" where
  "less_timed_event a b \<longleftrightarrow> timed_event_key a < timed_event_key b"

instance
  by standard (auto simp: less_eq_timed_event_def less_timed_event_def intro: timed_event_key_inj)

end

definition process_of :: "signal_timer_id \<Rightarrow> det_pid" where
  "process_of i = (case i of Alarm pid \<Rightarrow> pid | Posix pid _ \<Rightarrow> pid | ChildExit _ p \<Rightarrow> p)"

definition target_tid :: "signal_target \<Rightarrow> det_tid" where
  "target_tid t = (case t of Process tid \<Rightarrow> tid | Thread tid \<Rightarrow> tid)"

datatype alarm_phase = Active | Inactive (copy: bool)

record signal_timer_state =
  deadline :: logical_time
  interval :: logical_time
  phase :: alarm_phase
  target :: signal_target
  sig :: timer_signal

record timed_events =
  te_map :: "(logical_time, timed_event) btree_multimap"
  signal_timers :: "(signal_timer_id, signal_timer_state) btree_map"
  controlled_real_timer_deadlines :: "(det_pid, logical_time) btree_map"

definition empty_timed_events :: timed_events where
  "empty_timed_events = \<lparr>te_map = [], signal_timers = [], controlled_real_timer_deadlines = []\<rparr>"

subsection \<open>The grid of a periodic timer\<close>

definition checked_grid_after :: "logical_time \<Rightarrow> nat \<Rightarrow> logical_time \<Rightarrow> logical_time option" where
  "checked_grid_after prev ivl t = do {
     k \<leftarrow> checked_add (saturating_sub t prev div ivl) 1;
     step \<leftarrow> checked_mul k ivl;
     checked_add prev step
   }"

definition grid_after :: "logical_time \<Rightarrow> logical_time \<Rightarrow> logical_time \<Rightarrow> logical_time" where
  "grid_after prev ivl t =
     (let ivl' = (if ivl = 0 then 1 else ivl)
      in case checked_grid_after prev ivl' t of None \<Rightarrow> u64_max | Some p \<Rightarrow> p)"

subsection \<open>Removing the event of a timer\<close>

fun is_signal_of :: "signal_timer_id \<Rightarrow> timed_event \<Rightarrow> bool" where
  "is_signal_of i (SignalEvt j _ _) \<longleftrightarrow> j = i"
| "is_signal_of i (ThreadEvt _) \<longleftrightarrow> False"

definition clear_old_signal_timer ::
  "signal_timer_id \<Rightarrow> signal_timer_state option \<Rightarrow> timed_events \<Rightarrow> timed_events option" where
  "clear_old_signal_timer i old te = (case old of
       None \<Rightarrow> Some te
     | Some state \<Rightarrow>
         if phase state \<noteq> Active then Some te
         else (case bm_get (te_map te) (deadline state) of
             None \<Rightarrow> Some te
           | Some events \<Rightarrow> do {
               let found = filter (is_signal_of i) events;
               assert_that (length found \<le> 1);
               let events' = (case found of [] \<Rightarrow> events | evt # _ \<Rightarrow> bs_remove evt events);
               Some (te\<lparr>te_map := mm_put (deadline state) events' (te_map te)\<rparr>)
             }))"

definition remove_signal_timer ::
  "signal_timer_id \<Rightarrow> timed_events \<Rightarrow> (signal_timer_state option \<times> timed_events) option" where
  "remove_signal_timer i te = do {
     let old = bm_get (signal_timers te) i;
     te' \<leftarrow> clear_old_signal_timer i old (te\<lparr>signal_timers := bm_remove i (signal_timers te)\<rparr>);
     Some (old, te')
   }"

subsection \<open>Inserting\<close>

definition insert_thread :: "logical_time \<Rightarrow> det_tid \<Rightarrow> timed_events \<Rightarrow> timed_events option" where
  "insert_thread ns dt te = do {
     assert_that (ThreadEvt dt \<notin> set (mm_set (te_map te) ns));
     Some (te\<lparr>te_map := mm_insert ns (ThreadEvt dt) (te_map te)\<rparr>)
   }"

definition insert_signal_timer ::
  "signal_timer_id \<Rightarrow> logical_time \<Rightarrow> signal_target \<Rightarrow> timer_signal \<Rightarrow> logical_time \<Rightarrow> timed_events
   \<Rightarrow> (signal_timer_state option \<times> timed_events) option" where
  "insert_signal_timer i ns tgt sg ivl te = do {
     let old = bm_get (signal_timers te) i;
     let st = \<lparr>deadline = ns, interval = ivl, phase = Active, target = tgt, sig = sg\<rparr>;
     te1 \<leftarrow> clear_old_signal_timer i old (te\<lparr>signal_timers := bm_insert i st (signal_timers te)\<rparr>);
     let evt = SignalEvt i tgt sg;
     assert_that (evt \<notin> set (mm_set (te_map te1) ns));
     Some (old, te1\<lparr>te_map := mm_insert ns evt (te_map te1)\<rparr>)
   }"

definition state_times :: "signal_timer_state \<Rightarrow> logical_time \<times> logical_time" where
  "state_times st = (deadline st, interval st)"

definition insert_alarm ::
  "logical_time \<Rightarrow> det_pid \<Rightarrow> det_tid \<Rightarrow> signal \<Rightarrow> logical_time \<Rightarrow> timed_events
   \<Rightarrow> ((logical_time \<times> logical_time) option \<times> timed_events) option" where
  "insert_alarm ns dp dt sg ivl te = do {
     (old, te') \<leftarrow> insert_signal_timer (Alarm dp) ns (Process dt) (Send sg) ivl te;
     Some (map_option state_times old, te')
   }"

definition insert_posix_timer ::
  "logical_time \<Rightarrow> det_pid \<Rightarrow> signal_target \<Rightarrow> int \<Rightarrow> timer_signal \<Rightarrow> logical_time \<Rightarrow> timed_events
   \<Rightarrow> timed_events option" where
  "insert_posix_timer ns dp tgt timer_id sg ivl te =
     map_option snd (insert_signal_timer (Posix dp timer_id) ns tgt sg ivl te)"

definition insert_child_exit ::
  "logical_time \<Rightarrow> det_pid \<Rightarrow> det_pid \<Rightarrow> det_tid \<Rightarrow> timed_events \<Rightarrow> timed_events" where
  "insert_child_exit ns c p parent_tid te =
     te\<lparr>te_map := mm_insert ns (SignalEvt (ChildExit c p) (Process parent_tid) (Send SIGCHLD)) (te_map te)\<rparr>"

subsection \<open>Controlled real timers\<close>

definition controlled_state :: "det_pid \<Rightarrow> logical_time \<Rightarrow> signal_timer_state" where
  "controlled_state pid d =
     \<lparr>deadline = d, interval = 0, phase = Active, target = Process pid, sig = Send SIGALRM\<rparr>"

definition remove_controlled_real_timer_deadline :: "det_pid \<Rightarrow> timed_events \<Rightarrow> timed_events option" where
  "remove_controlled_real_timer_deadline pid te =
     (let old = map_option (controlled_state pid) (bm_get (controlled_real_timer_deadlines te) pid)
      in clear_old_signal_timer (Alarm pid) old
           (te\<lparr>controlled_real_timer_deadlines := bm_remove pid (controlled_real_timer_deadlines te)\<rparr>))"

definition insert_controlled_real_timer_deadline ::
  "logical_time \<Rightarrow> det_pid \<Rightarrow> timed_events \<Rightarrow> timed_events option" where
  "insert_controlled_real_timer_deadline d pid te = do {
     assert_that (bm_get (signal_timers te) (Alarm pid) = None);
     te1 \<leftarrow> remove_controlled_real_timer_deadline pid te;
     Some (te1\<lparr>controlled_real_timer_deadlines := bm_insert pid d (controlled_real_timer_deadlines te1),
       te_map := mm_insert d (SignalEvt (Alarm pid) (Process pid) (Send SIGALRM)) (te_map te1)\<rparr>)
   }"

subsection \<open>Removing\<close>

definition remove_alarm ::
  "det_pid \<Rightarrow> timed_events \<Rightarrow> ((logical_time \<times> logical_time) option \<times> timed_events) option" where
  "remove_alarm dp te = do {
     (old, te') \<leftarrow> remove_signal_timer (Alarm dp) te;
     Some (map_option state_times old, te')
   }"

definition remove_posix_timer :: "det_pid \<Rightarrow> int \<Rightarrow> timed_events \<Rightarrow> timed_events option" where
  "remove_posix_timer dp timer_id te = map_option snd (remove_signal_timer (Posix dp timer_id) te)"

primrec remove_signal_timers :: "signal_timer_id list \<Rightarrow> timed_events \<Rightarrow> timed_events option" where
  "remove_signal_timers [] te = Some te"
| "remove_signal_timers (i # is) te = do {
     (_, te') \<leftarrow> remove_signal_timer i te;
     remove_signal_timers is te'
   }"

fun is_posix_of :: "det_pid \<Rightarrow> signal_timer_id \<Rightarrow> bool" where
  "is_posix_of dp (Posix pid _) \<longleftrightarrow> pid = dp"
| "is_posix_of dp _ \<longleftrightarrow> False"

fun is_timer_of :: "det_pid \<Rightarrow> signal_timer_id \<Rightarrow> bool" where
  "is_timer_of dp (Alarm pid) \<longleftrightarrow> pid = dp"
| "is_timer_of dp (Posix pid _) \<longleftrightarrow> pid = dp"
| "is_timer_of dp (ChildExit _ _) \<longleftrightarrow> False"

definition remove_posix_timers :: "det_pid \<Rightarrow> timed_events \<Rightarrow> timed_events option" where
  "remove_posix_timers dp te =
     remove_signal_timers (filter (is_posix_of dp) (map fst (signal_timers te))) te"

definition remove_process_timers :: "det_pid \<Rightarrow> timed_events \<Rightarrow> timed_events option" where
  "remove_process_timers dp te = do {
     te1 \<leftarrow> remove_controlled_real_timer_deadline dp te;
     remove_signal_timers (filter (is_timer_of dp) (map fst (signal_timers te1))) te1
   }"

text \<open>The loop of \<open>remove\<close>: the updated sets, and the last key whose set became empty.\<close>

fun remove_loop ::
  "det_tid \<Rightarrow> (logical_time, timed_event) btree_multimap \<Rightarrow> bool \<Rightarrow> logical_time option
   \<Rightarrow> ((logical_time, timed_event) btree_multimap \<times> logical_time option) option" where
  "remove_loop dt [] already_removed to_remove = Some ([], to_remove)"
| "remove_loop dt ((time_key, events) # m) already_removed to_remove = do {
     let removed = (ThreadEvt dt \<in> set events);
     let events' = bs_remove (ThreadEvt dt) events;
     assert_that (\<not> (removed \<and> already_removed));
     (m', to_remove') \<leftarrow> remove_loop dt m (already_removed \<or> removed)
       (if events' = [] then Some time_key else to_remove);
     Some ((time_key, events') # m', to_remove')
   }"

definition remove_thread :: "det_tid \<Rightarrow> timed_events \<Rightarrow> timed_events option" where
  "remove_thread dt te = do {
     (m, to_remove) \<leftarrow> remove_loop dt (te_map te) False None;
     Some (te\<lparr>te_map := (case to_remove of None \<Rightarrow> m | Some time \<Rightarrow> bm_remove time m)\<rparr>)
   }"

subsection \<open>Expiry and re-arming\<close>

definition signal_timer_after_fire ::
  "signal_timer_id \<Rightarrow> logical_time \<Rightarrow> bool option \<Rightarrow> logical_time \<Rightarrow> timed_events \<Rightarrow> timed_events option" where
  "signal_timer_after_fire i fired_at inactive_with_copy now te =
     (case bm_get (signal_timers te) i of
        None \<Rightarrow> Some te
      | Some state \<Rightarrow>
          if phase state \<noteq> Active \<or> interval state = 0
             \<or> deadline state \<noteq> saturating_add fired_at (interval state)
          then Some te
          else do {
            te1 \<leftarrow> clear_old_signal_timer i (Some state) te;
            entry \<leftarrow> bm_get (signal_timers te1) i;
            case inactive_with_copy of
              Some c \<Rightarrow>
                Some (te1\<lparr>signal_timers :=
                  bm_insert i (entry\<lparr>deadline := fired_at, phase := Inactive c\<rparr>) (signal_timers te1)\<rparr>)
            | None \<Rightarrow>
                (let nxt = grid_after fired_at (interval state) now
                 in Some (te1\<lparr>signal_timers := bm_insert i (entry\<lparr>deadline := nxt\<rparr>) (signal_timers te1),
                      te_map := mm_insert nxt (SignalEvt i (target state) (sig state)) (te_map te1)\<rparr>))
          })"

definition alarm_after_fire ::
  "det_pid \<Rightarrow> logical_time \<Rightarrow> bool option \<Rightarrow> logical_time \<Rightarrow> timed_events \<Rightarrow> timed_events option" where
  "alarm_after_fire dp fired_at inactive_with_copy now te =
     signal_timer_after_fire (Alarm dp) fired_at inactive_with_copy now te"

definition signal_timer_rearm_after ::
  "signal_timer_id \<Rightarrow> logical_time \<Rightarrow> timed_events \<Rightarrow> logical_time option \<times> timed_events" where
  "signal_timer_rearm_after i t te =
     (case bm_get (signal_timers te) i of
        None \<Rightarrow> (None, te)
      | Some state \<Rightarrow>
          (case phase state of
             Active \<Rightarrow> (None, te)
           | Inactive _ \<Rightarrow>
               (let nxt = grid_after (deadline state) (interval state) t
                in (Some nxt,
                    te\<lparr>signal_timers :=
                         bm_insert i (state\<lparr>deadline := nxt, phase := Active\<rparr>) (signal_timers te),
                       te_map := mm_insert nxt (SignalEvt i (target state) (sig state)) (te_map te)\<rparr>))))"

definition alarm_rearm_after ::
  "det_pid \<Rightarrow> logical_time \<Rightarrow> timed_events \<Rightarrow> logical_time option \<times> timed_events" where
  "alarm_rearm_after dp t te = signal_timer_rearm_after (Alarm dp) t te"

definition alarm_set_copy :: "det_pid \<Rightarrow> bool \<Rightarrow> timed_events \<Rightarrow> timed_events" where
  "alarm_set_copy dp c te =
     (case bm_get (signal_timers te) (Alarm dp) of
        None \<Rightarrow> te
      | Some state \<Rightarrow>
          (case phase state of
             Active \<Rightarrow> te
           | Inactive _ \<Rightarrow>
               te\<lparr>signal_timers := bm_insert (Alarm dp) (state\<lparr>phase := Inactive c\<rparr>) (signal_timers te)\<rparr>))"

text \<open>What a pop does to the timer whose event it took.\<close>

definition settle_popped :: "logical_time \<Rightarrow> timed_event \<Rightarrow> timed_events \<Rightarrow> timed_events" where
  "settle_popped time_ns evt te = (case evt of
       ThreadEvt _ \<Rightarrow> te
     | SignalEvt i _ _ \<Rightarrow>
         (let controlled = (case i of
                Alarm pid \<Rightarrow> bm_get (controlled_real_timer_deadlines te) pid = Some time_ns
              | _ \<Rightarrow> False)
          in if controlled
             then te\<lparr>controlled_real_timer_deadlines :=
                    bm_remove (process_of i) (controlled_real_timer_deadlines te)\<rparr>
             else (case bm_get (signal_timers te) i of
                 None \<Rightarrow> te
               | Some state \<Rightarrow>
                   if deadline state \<noteq> time_ns then te
                   else if interval state = 0
                   then te\<lparr>signal_timers := bm_remove i (signal_timers te)\<rparr>
                   else (let nxt = saturating_add time_ns (interval state)
                         in te\<lparr>signal_timers := bm_insert i (state\<lparr>deadline := nxt\<rparr>) (signal_timers te),
                               te_map := mm_insert nxt evt (te_map te)\<rparr>))))"

definition pop_if_before ::
  "logical_time \<Rightarrow> timed_events \<Rightarrow> ((logical_time \<times> timed_event) option \<times> timed_events) option" where
  "pop_if_before current_time te = (case te_map te of
       [] \<Rightarrow> Some (None, te)
     | (time_ns, events) # rest \<Rightarrow>
         if time_ns \<le> current_time
         then (case events of
             [] \<Rightarrow> None
           | evt # events' \<Rightarrow>
               Some (Some (time_ns, evt),
                 settle_popped time_ns evt
                   (te\<lparr>te_map := (if events' = [] then rest else (time_ns, events') # rest)\<rparr>)))
         else Some (None, te))"

definition pop :: "timed_events \<Rightarrow> ((logical_time \<times> timed_event) option \<times> timed_events) option" where
  "pop te = pop_if_before u64_max te"

subsection \<open>Queries\<close>

definition alarm_state :: "det_pid \<Rightarrow> timed_events \<Rightarrow> (logical_time \<times> logical_time) option" where
  "alarm_state pid te = map_option state_times (bm_get (signal_timers te) (Alarm pid))"

definition thread_deadline :: "det_tid \<Rightarrow> timed_events \<Rightarrow> logical_time option" where
  "thread_deadline tid te =
     map_option fst (find (\<lambda>(_, events). ThreadEvt tid \<in> set events) (te_map te))"

definition alarm_time :: "det_pid \<Rightarrow> timed_events \<Rightarrow> logical_time option" where
  "alarm_time dp te = (case bm_get (signal_timers te) (Alarm dp) of
       None \<Rightarrow> None
     | Some state \<Rightarrow> if phase state = Active then Some (deadline state) else None)"

definition alarm_phase_of :: "det_pid \<Rightarrow> timed_events \<Rightarrow> alarm_phase option" where
  "alarm_phase_of dp te = map_option phase (bm_get (signal_timers te) (Alarm dp))"

definition signal_timer_state_of ::
  "signal_timer_id \<Rightarrow> timed_events \<Rightarrow> (logical_time \<times> logical_time \<times> alarm_phase) option" where
  "signal_timer_state_of i te =
     map_option (\<lambda>st. (deadline st, interval st, phase st)) (bm_get (signal_timers te) i)"

definition is_inactive :: "alarm_phase \<Rightarrow> bool" where
  "is_inactive p \<longleftrightarrow> p \<noteq> Active"

definition inactive_posix_timers :: "det_pid \<Rightarrow> signal \<Rightarrow> timed_events \<Rightarrow> signal_timer_id list" where
  "inactive_posix_timers dp sg te =
     map fst (filter (\<lambda>(i, state). is_posix_of dp i \<and> is_inactive (phase state) \<and> sig state = Send sg)
       (signal_timers te))"

definition inactive_alarm_processes :: "timed_events \<Rightarrow> det_pid list" where
  "inactive_alarm_processes te =
     List.map_filter (\<lambda>(i, state). case i of
         Alarm pid \<Rightarrow> if is_inactive (phase state) then Some pid else None
       | _ \<Rightarrow> None) (signal_timers te)"

definition signal_timer_period :: "signal_timer_id \<Rightarrow> timed_events \<Rightarrow> logical_time option" where
  "signal_timer_period i te = (case bm_get (signal_timers te) i of
       None \<Rightarrow> None
     | Some state \<Rightarrow> if interval state \<noteq> 0 then Some (interval state) else None)"

definition next_deadline :: "timed_events \<Rightarrow> logical_time option" where
  "next_deadline te = (case te_map te of [] \<Rightarrow> None | (time_ns, _) # _ \<Rightarrow> Some time_ns)"

definition is_empty_te :: "timed_events \<Rightarrow> bool" where
  "is_empty_te te \<longleftrightarrow> te_map te = []"

definition len_te :: "timed_events \<Rightarrow> nat" where
  "len_te te = length (te_map te)"

definition holds_nothing :: "timed_events \<Rightarrow> bool" where
  "holds_nothing te \<longleftrightarrow>
     te_map te = [] \<and> signal_timers te = [] \<and> controlled_real_timer_deadlines te = []"

definition iter_te :: "timed_events \<Rightarrow> (logical_time \<times> timed_event) list" where
  "iter_te te = mm_iter (te_map te)"

end
