(* ===== verification/Timed_Events_Inv.thy ===== *)
theory Timed_Events_Inv
  imports Timed_Events
begin

text \<open>
  The invariant of the timed events and its preservation. It is stated on the set \<open>E\<close> of queued
  (time, event) pairs, the timer table \<open>T\<close> and the controlled deadlines \<open>C\<close>: the queued signal events
  are exactly the events due, one per armed timer, a thread waits for one point of time at most, and
  a process has either a controlled real timer or an alarm of its own.
\<close>

type_synonym agenda = "(logical_time \<times> timed_event) set"

fun is_child_exit :: "signal_timer_id \<Rightarrow> bool" where
  "is_child_exit (ChildExit _ _) = True"
| "is_child_exit _ = False"

definition due ::
  "(signal_timer_id \<rightharpoonup> signal_timer_state) \<Rightarrow> (det_pid \<rightharpoonup> logical_time) \<Rightarrow> signal_timer_id
   \<Rightarrow> (logical_time \<times> signal_target \<times> timer_signal) option" where
  "due T C i = (case T i of
       Some st \<Rightarrow> if phase st = Active then Some (deadline st, target st, sig st) else None
     | None \<Rightarrow> (case i of
           Alarm pid \<Rightarrow> map_option (\<lambda>d. (d, Process pid, Send SIGALRM)) (C pid)
         | _ \<Rightarrow> None))"

definition agenda_ok ::
  "agenda \<Rightarrow> (signal_timer_id \<rightharpoonup> signal_timer_state) \<Rightarrow> (det_pid \<rightharpoonup> logical_time) \<Rightarrow> bool" where
  "agenda_ok E T C \<longleftrightarrow>
     (\<forall>i k tgt sg. \<not> is_child_exit i \<longrightarrow> (k, SignalEvt i tgt sg) \<in> E \<longleftrightarrow> due T C i = Some (k, tgt, sg))
     \<and> (\<forall>t k k'. (k, ThreadEvt t) \<in> E \<longrightarrow> (k', ThreadEvt t) \<in> E \<longrightarrow> k = k')
     \<and> (\<forall>i. is_child_exit i \<longrightarrow> T i = None)
     \<and> (\<forall>pid. C pid \<noteq> None \<longrightarrow> T (Alarm pid) = None)"

definition te_inv :: "timed_events \<Rightarrow> bool" where
  "te_inv te \<longleftrightarrow>
     mm_ok (te_map te) \<and> bm_ok (signal_timers te) \<and> bm_ok (controlled_real_timer_deadlines te)
     \<and> agenda_ok (mm_pairs (te_map te)) (bm_get (signal_timers te))
         (bm_get (controlled_real_timer_deadlines te))"

definition without :: "signal_timer_id \<Rightarrow> agenda \<Rightarrow> agenda" where
  "without i E = {p \<in> E. \<not> is_signal_of i (snd p)}"

lemma is_signal_of_iff: "is_signal_of i e \<longleftrightarrow> (\<exists>tgt sg. e = SignalEvt i tgt sg)"
  by (cases e) auto

lemma without_iff [simp]:
  "(k, SignalEvt j tgt sg) \<in> without i E \<longleftrightarrow> j \<noteq> i \<and> (k, SignalEvt j tgt sg) \<in> E"
  "(k, ThreadEvt t) \<in> without i E \<longleftrightarrow> (k, ThreadEvt t) \<in> E"
  by (auto simp: without_def)

lemma te_inv_empty: "te_inv empty_timed_events"
  by (auto simp: te_inv_def empty_timed_events_def agenda_ok_def due_def mm_ok_def mm_pairs_def
      mm_iter_def bm_get_def split: signal_timer_id.split)

lemma due_other [simp]: "j \<noteq> i \<Longrightarrow> due (T(i := x)) C j = due T C j"
  by (simp add: due_def)

lemma due_controlled [simp]: "i \<noteq> Alarm pid \<Longrightarrow> due T (C(pid := x)) i = due T C i"
  by (auto simp: due_def split: signal_timer_id.split option.split)

lemma due_removed: "C' = C \<or> (\<exists>pid. i = Alarm pid \<and> C' = C(pid := None))
  \<Longrightarrow> (\<And>pid. i = Alarm pid \<Longrightarrow> C' pid = None) \<Longrightarrow> due (T(i := None)) C' i = None"
  by (auto simp: due_def split: signal_timer_id.split)

subsection \<open>Changes to the agenda\<close>

lemma agenda_ok_thread_insert:
  "agenda_ok E T C \<Longrightarrow> (\<And>k. (k, ThreadEvt t) \<notin> E) \<Longrightarrow> agenda_ok (insert (ns, ThreadEvt t) E) T C"
  unfolding agenda_ok_def by auto

lemma agenda_ok_thread_remove:
  "agenda_ok E T C \<Longrightarrow> agenda_ok {p \<in> E. snd p \<noteq> ThreadEvt t} T C"
  unfolding agenda_ok_def by auto

lemma agenda_ok_child_exit:
  "agenda_ok E T C \<Longrightarrow> is_child_exit i \<Longrightarrow> agenda_ok (insert (ns, SignalEvt i tgt sg) E) T C"
  unfolding agenda_ok_def by auto

lemma agenda_ok_drop:
  assumes "agenda_ok E T C" and "\<And>i tgt sg. e = SignalEvt i tgt sg \<Longrightarrow> is_child_exit i"
  shows "agenda_ok (E - {(k, e)}) T C"
  using assms unfolding agenda_ok_def by blast

lemma agenda_ok_timer_remove:
  assumes ok: "agenda_ok E T C" and i: "\<not> is_child_exit i" and C: "\<And>pid. i = Alarm pid \<Longrightarrow> C pid = None"
  shows "agenda_ok (without i E) (T(i := None)) C"
proof -
  have here: "due (T(i := None)) C i = None"
    using C by (auto simp: due_def split: signal_timer_id.split)
  have mem: "(k, SignalEvt j tgt sg) \<in> without i E \<longleftrightarrow>
      (if j = i then due (T(i := None)) C i = Some (k, tgt, sg) else (k, SignalEvt j tgt sg) \<in> E)" for j k tgt sg
    unfolding here by simp
  show ?thesis
    unfolding agenda_ok_def mem without_iff(2)
    using ok i C unfolding agenda_ok_def by (auto split: if_splits)
qed

lemma agenda_ok_timer_set:
  assumes ok: "agenda_ok E T C" and i: "\<not> is_child_exit i" and C: "\<And>pid. i = Alarm pid \<Longrightarrow> C pid = None"
    and E': "E' = (if phase st = Active then insert (deadline st, SignalEvt i (target st) (sig st)) (without i E)
                   else without i E)"
  shows "agenda_ok E' (T(i \<mapsto> st)) C"
proof -
  have here: "due (T(i \<mapsto> st)) C i = (if phase st = Active then Some (deadline st, target st, sig st) else None)"
    by (simp add: due_def)
  have mem: "(k, SignalEvt j tgt sg) \<in> E' \<longleftrightarrow>
      (if j = i then due (T(i \<mapsto> st)) C i = Some (k, tgt, sg) else (k, SignalEvt j tgt sg) \<in> E)" for j k tgt sg
    unfolding E' here by auto
  have thr: "(k, ThreadEvt t) \<in> E' \<longleftrightarrow> (k, ThreadEvt t) \<in> E" for k t
    unfolding E' by simp
  show ?thesis
    unfolding agenda_ok_def mem thr
    using ok i C unfolding agenda_ok_def by (auto split: if_splits)
qed

lemma agenda_ok_controlled_remove:
  assumes ok: "agenda_ok E T C" and T: "C pid \<noteq> None"
  shows "agenda_ok (without (Alarm pid) E) T (C(pid := None))"
proof -
  have none: "T (Alarm pid) = None" using ok T by (simp add: agenda_ok_def)
  then have here: "due T (C(pid := None)) (Alarm pid) = None" by (simp add: due_def)
  have mem: "(k, SignalEvt j tgt sg) \<in> without (Alarm pid) E \<longleftrightarrow>
      (if j = Alarm pid then due T (C(pid := None)) (Alarm pid) = Some (k, tgt, sg)
       else (k, SignalEvt j tgt sg) \<in> E)" for j k tgt sg
    unfolding here by simp
  show ?thesis
    unfolding agenda_ok_def mem without_iff(2)
    using ok none unfolding agenda_ok_def by (auto split: if_splits)
qed

lemma agenda_ok_controlled_set:
  assumes ok: "agenda_ok E T C" and T: "T (Alarm pid) = None"
  shows "agenda_ok (insert (d, SignalEvt (Alarm pid) (Process pid) (Send SIGALRM)) (without (Alarm pid) E))
    T (C(pid \<mapsto> d))"
proof -
  let ?E = "insert (d, SignalEvt (Alarm pid) (Process pid) (Send SIGALRM)) (without (Alarm pid) E)"
  have here: "due T (C(pid \<mapsto> d)) (Alarm pid) = Some (d, Process pid, Send SIGALRM)"
    using T by (simp add: due_def)
  have mem: "(k, SignalEvt j tgt sg) \<in> ?E \<longleftrightarrow>
      (if j = Alarm pid then due T (C(pid \<mapsto> d)) (Alarm pid) = Some (k, tgt, sg)
       else (k, SignalEvt j tgt sg) \<in> E)" for j k tgt sg
    unfolding here by auto
  have thr: "(k, ThreadEvt t) \<in> ?E \<longleftrightarrow> (k, ThreadEvt t) \<in> E" for k t by simp
  show ?thesis
    unfolding agenda_ok_def mem thr
    using ok T unfolding agenda_ok_def by (auto split: if_splits)
qed

lemma agenda_ok_due:
  "agenda_ok E T C \<Longrightarrow> \<not> is_child_exit i \<Longrightarrow> (k, SignalEvt i tgt sg) \<in> E \<longleftrightarrow> due T C i = Some (k, tgt, sg)"
  by (simp add: agenda_ok_def)

lemma agenda_ok_without_pop:
  assumes "agenda_ok E T C" "\<not> is_child_exit i" "(k, SignalEvt i tgt sg) \<in> E"
  shows "E - {(k, SignalEvt i tgt sg)} = without i E"
  using assms by (auto simp: without_def is_signal_of_iff agenda_ok_due)

subsection \<open>Operations on one timer\<close>

lemma filter_le_one:
  assumes "distinct xs" "\<And>x. x \<in> set xs \<Longrightarrow> P x \<Longrightarrow> x = a"
  shows "filter P xs = [] \<and> (\<forall>x \<in> set xs. \<not> P x) \<or> filter P xs = [a] \<and> a \<in> set xs \<and> P a"
proof (cases "\<exists>x \<in> set xs. P x")
  case True
  then have a: "a \<in> set xs" "P a" using assms(2) by auto
  have "filter P xs = filter (\<lambda>x. x = a) xs" using assms(2) a(2) by (intro filter_cong) auto
  moreover have "filter (\<lambda>x. x = a) xs = [a]"
    using assms(1) a(1) by (induction xs) (auto simp: filter_empty_conv)
  ultimately show ?thesis using a by simp
qed (auto simp: filter_empty_conv)

lemma clear_old_signal_timer_ok:
  assumes ok: "mm_ok (te_map te)"
    and own: "\<And>k e. (k, e) \<in> mm_pairs (te_map te) \<Longrightarrow> is_signal_of i e
      \<Longrightarrow> \<exists>st. old = Some st \<and> phase st = Active \<and> k = deadline st \<and> e = SignalEvt i (target st) (sig st)"
  shows "\<exists>m'. clear_old_signal_timer i old te = Some (te\<lparr>te_map := m'\<rparr>) \<and> mm_ok m'
    \<and> mm_pairs m' = without i (mm_pairs (te_map te))"
proof -
  have same: ?thesis
    if "clear_old_signal_timer i old te = Some te" "\<And>p. p \<in> mm_pairs (te_map te) \<Longrightarrow> \<not> is_signal_of i (snd p)"
    using that ok by (intro exI [of _ "te_map te"]) (auto simp: without_def)
  consider (idle) "\<And>st. old = Some st \<Longrightarrow> phase st \<noteq> Active"
    | (gone) st where "old = Some st" "phase st = Active" "bm_get (te_map te) (deadline st) = None"
    | (there) st es where "old = Some st" "phase st = Active" "bm_get (te_map te) (deadline st) = Some es"
    by (cases old) auto
  then show ?thesis
  proof cases
    case idle
    then show ?thesis
      using own by (intro same) (force simp: clear_old_signal_timer_def split: option.split)+
  next
    case gone
    then have "mm_set (te_map te) (deadline st) = []" by (simp add: mm_set_def)
    then have "(deadline st, e) \<notin> mm_pairs (te_map te)" for e using ok by (simp add: mm_pairs_get)
    then show ?thesis
      using own gone by (intro same) (force simp: clear_old_signal_timer_def)+
  next
    case there
    let ?k = "deadline st" and ?a = "SignalEvt i (target st) (sig st)"
    have es: "mm_set (te_map te) ?k = es" "bs_ok es"
      using there(3) mm_get_nonempty [OF ok there(3)] by (simp_all add: mm_set_def)
    have only: "e = ?a" if "e \<in> set es" "is_signal_of i e" for e
      using own [of ?k e] that there(1) ok es(1) by (simp add: mm_pairs_get)
    from filter_le_one [of es "is_signal_of i" ?a, OF bs_ok_distinct [OF es(2)] only]
    have res: "clear_old_signal_timer i old te =
        Some (te\<lparr>te_map := mm_put ?k (bs_remove ?a es) (te_map te)\<rparr>)"
    proof
      assume f: "filter (is_signal_of i) es = [] \<and> (\<forall>x \<in> set es. \<not> is_signal_of i x)"
      then have "bs_remove ?a es = es" by (auto simp: bs_remove_def filter_id_conv)
      then show ?thesis using there f by (simp add: clear_old_signal_timer_def)
    next
      assume "filter (is_signal_of i) es = [?a] \<and> ?a \<in> set es \<and> is_signal_of i ?a"
      then show ?thesis using there by (simp add: clear_old_signal_timer_def)
    qed
    have "mm_pairs (te_map te) - {(?k, ?a)} = without i (mm_pairs (te_map te))"
      using own there(1) by (fastforce simp: without_def is_signal_of_iff)
    then show ?thesis
      using res mm_pairs_remove [OF ok, of ?k ?a] mm_put_ok [OF ok bs_remove_ok [OF es(2)], of ?k ?a]
      by (intro exI [of _ "mm_put ?k (bs_remove ?a es) (te_map te)"]) (simp add: es(1))
  qed
qed

text \<open>The timer table entry of a timer is the owner of its queued events.\<close>

lemma timer_owns:
  assumes "te_inv te" "\<not> is_child_exit i" "\<And>pid. i = Alarm pid \<Longrightarrow> bm_get (controlled_real_timer_deadlines te) pid = None"
    and "(k, e) \<in> mm_pairs (te_map te)" "is_signal_of i e"
  shows "\<exists>st. bm_get (signal_timers te) i = Some st \<and> phase st = Active \<and> k = deadline st
    \<and> e = SignalEvt i (target st) (sig st)"
proof -
  obtain tgt sg where e: "e = SignalEvt i tgt sg" using assms(5) by (auto simp: is_signal_of_iff)
  have "due (bm_get (signal_timers te)) (bm_get (controlled_real_timer_deadlines te)) i = Some (k, tgt, sg)"
    using assms(1,2,4) agenda_ok_due unfolding te_inv_def e by blast
  then show ?thesis
    using assms(3) e by (auto simp: due_def split: option.splits if_splits signal_timer_id.splits)
qed

lemma te_invD:
  assumes "te_inv te"
  shows "mm_ok (te_map te)" "bm_ok (signal_timers te)" "bm_ok (controlled_real_timer_deadlines te)"
    "agenda_ok (mm_pairs (te_map te)) (bm_get (signal_timers te)) (bm_get (controlled_real_timer_deadlines te))"
  using assms by (simp_all add: te_inv_def)

abbreviation events :: "timed_events \<Rightarrow> agenda" where
  "events te \<equiv> mm_pairs (te_map te)"

abbreviation controlled :: "timed_events \<Rightarrow> signal_timer_id \<Rightarrow> bool" where
  "controlled te i \<equiv> \<exists>pid. i = Alarm pid \<and> bm_get (controlled_real_timer_deadlines te) pid \<noteq> None"

lemma insert_signal_timer_ok:
  assumes inv: "te_inv te" and i: "\<not> is_child_exit i" and c: "\<not> controlled te i"
  shows "\<exists>te'. insert_signal_timer i ns tgt sg ivl te = Some (bm_get (signal_timers te) i, te') \<and> te_inv te'
    \<and> events te' = insert (ns, SignalEvt i tgt sg) (without i (events te))
    \<and> bm_get (signal_timers te') = (bm_get (signal_timers te))
        (i \<mapsto> \<lparr>deadline = ns, interval = ivl, phase = Active, target = tgt, sig = sg\<rparr>)
    \<and> controlled_real_timer_deadlines te' = controlled_real_timer_deadlines te"
proof -
  note old = te_invD [OF inv]
  let ?st = "\<lparr>deadline = ns, interval = ivl, phase = Active, target = tgt, sig = sg\<rparr>"
  let ?te = "te\<lparr>signal_timers := bm_insert i ?st (signal_timers te)\<rparr>"
  obtain m' where m': "clear_old_signal_timer i (bm_get (signal_timers te) i) ?te = Some (?te\<lparr>te_map := m'\<rparr>)"
    "mm_ok m'" "mm_pairs m' = without i (events te)"
    using clear_old_signal_timer_ok [of ?te i "bm_get (signal_timers te) i"] old(1)
      timer_owns [OF inv i] c by auto
  have "SignalEvt i tgt sg \<notin> set (mm_set m' ns)"
    using m'(2,3) mm_pairs_get [of m' ns "SignalEvt i tgt sg"] by simp
  then have res: "insert_signal_timer i ns tgt sg ivl te = Some (bm_get (signal_timers te) i,
      ?te\<lparr>te_map := mm_insert ns (SignalEvt i tgt sg) m'\<rparr>)"
    using m'(1) by (simp add: insert_signal_timer_def Let_def)
  have "agenda_ok (insert (ns, SignalEvt i tgt sg) (without i (events te)))
      ((bm_get (signal_timers te))(i \<mapsto> ?st)) (bm_get (controlled_real_timer_deadlines te))"
    by (rule agenda_ok_timer_set [OF old(4) i]) (use c in auto)
  then have "te_inv (?te\<lparr>te_map := mm_insert ns (SignalEvt i tgt sg) m'\<rparr>)"
    using m'(2,3) old by (simp add: te_inv_def mm_insert_ok bm_insert_ok bm_get_insert)
  then show ?thesis using res m'(2,3) old(2) by (simp add: bm_get_insert)
qed

lemma remove_signal_timer_ok:
  assumes inv: "te_inv te" and i: "\<not> is_child_exit i"
  shows "\<exists>te'. remove_signal_timer i te = Some (bm_get (signal_timers te) i, te') \<and> te_inv te'
    \<and> events te' = (if controlled te i then events te else without i (events te))
    \<and> signal_timers te' = bm_remove i (signal_timers te)
    \<and> controlled_real_timer_deadlines te' = controlled_real_timer_deadlines te"
proof (cases "controlled te i")
  case True
  note old = te_invD [OF inv]
  from True old(4) have none: "bm_get (signal_timers te) i = None" by (auto simp: agenda_ok_def)
  then have "bm_remove i (signal_timers te) = signal_timers te"
    using old(2) by (simp add: bm.remove_absent)
  then show ?thesis
    using True none inv by (intro exI [of _ te]) (simp add: remove_signal_timer_def clear_old_signal_timer_def)
next
  case False
  note old = te_invD [OF inv]
  let ?te = "te\<lparr>signal_timers := bm_remove i (signal_timers te)\<rparr>"
  obtain m' where m': "clear_old_signal_timer i (bm_get (signal_timers te) i) ?te = Some (?te\<lparr>te_map := m'\<rparr>)"
    "mm_ok m'" "mm_pairs m' = without i (events te)"
    using clear_old_signal_timer_ok [of ?te i "bm_get (signal_timers te) i"] old(1)
      timer_owns [OF inv i] False by auto
  have "agenda_ok (without i (events te)) ((bm_get (signal_timers te))(i := None))
      (bm_get (controlled_real_timer_deadlines te))"
    by (rule agenda_ok_timer_remove [OF old(4) i]) (use False in auto)
  then have "te_inv (?te\<lparr>te_map := m'\<rparr>)"
    using m'(2,3) old by (simp add: te_inv_def bm_remove_ok bm_get_remove)
  then show ?thesis
    using m' False
    by (intro exI [of _ "?te\<lparr>te_map := m'\<rparr>"]) (auto simp: remove_signal_timer_def Let_def)
qed

end
