(* ===== verification/Timed_Events_Ops.thy ===== *)
theory Timed_Events_Ops
  imports Timed_Events_Inv
begin

text \<open>
  Every operation of the timed events keeps the invariant and changes the agenda as it should; none
  of their panics is reachable under the preconditions stated here.
\<close>

subsection \<open>Thread events and child exits\<close>

lemma insert_thread_ok:
  assumes inv: "te_inv te" and new: "\<And>k. (k, ThreadEvt t) \<notin> events te"
  shows "\<exists>te'. insert_thread ns t te = Some te' \<and> te_inv te' \<and> events te' = insert (ns, ThreadEvt t) (events te)
    \<and> signal_timers te' = signal_timers te"
proof -
  note old = te_invD [OF inv]
  have "ThreadEvt t \<notin> set (mm_set (te_map te) ns)"
    using new [of ns] old(1) by (simp add: mm_pairs_get)
  then show ?thesis
    using old agenda_ok_thread_insert [OF old(4) new]
    by (simp add: insert_thread_def te_inv_def mm_insert_ok)
qed

lemma insert_child_exit_ok:
  assumes inv: "te_inv te"
  shows "te_inv (insert_child_exit ns c p ptid te)"
    and "events (insert_child_exit ns c p ptid te) =
      insert (ns, SignalEvt (ChildExit c p) (Process ptid) (Send SIGCHLD)) (events te)"
  using te_invD [OF inv]
  by (simp_all add: insert_child_exit_def te_inv_def mm_insert_ok agenda_ok_child_exit)

lemma bs_remove_empty_iff: "bs_ok s \<Longrightarrow> s \<noteq> [] \<Longrightarrow> bs_remove x s = [] \<longleftrightarrow> s = [x]"
  by (cases s; cases "tl s") (auto simp: bs_remove_def bs_ok_def filter_empty_conv)

definition unique_in :: "'a \<Rightarrow> ('k, 'a) btree_multimap \<Rightarrow> bool" where
  "unique_in x m \<longleftrightarrow> (\<forall>a \<in> set m. \<forall>b \<in> set m. x \<in> set (snd a) \<longrightarrow> x \<in> set (snd b) \<longrightarrow> a = b)"

lemma remove_loop_ok:
  assumes "mm_ok m" "unique_in (ThreadEvt t) m" "already \<Longrightarrow> \<forall>e \<in> set m. ThreadEvt t \<notin> set (snd e)"
  shows "remove_loop t m already tr =
    Some (map (\<lambda>(k, s). (k, bs_remove (ThreadEvt t) s)) m,
      case find (\<lambda>e. snd e = [ThreadEvt t]) m of None \<Rightarrow> tr | Some e \<Rightarrow> Some (fst e))"
  using assms
proof (induction m arbitrary: already tr)
  case (Cons e m)
  obtain k s where e: "e = (k, s)" by (cases e)
  let ?x = "ThreadEvt t"
  from Cons.prems(1) have ok: "mm_ok m" "s \<noteq> []" "bs_ok s" and notin: "(k, s) \<notin> set m"
    by (auto simp: mm_ok_def bm_ok_Cons e)
  have uniq: "unique_in ?x m" using Cons.prems(2) by (auto simp: unique_in_def)
  have rest: "\<forall>e \<in> set m. ?x \<notin> set (snd e)" if "already \<or> ?x \<in> set s"
    using that Cons.prems(2,3) notin by (auto simp: unique_in_def e)
  have none: "find (\<lambda>e. snd e = [?x]) m = None" if "?x \<in> set s"
    using rest that by (auto simp: find_None_iff)
  have IH: "remove_loop t m (already \<or> ?x \<in> set s) tr' =
    Some (map (\<lambda>(k, s). (k, bs_remove ?x s)) m,
      case find (\<lambda>e. snd e = [?x]) m of None \<Rightarrow> tr' | Some e \<Rightarrow> Some (fst e))" for tr'
    using Cons.IH [OF ok(1) uniq, of "already \<or> ?x \<in> set s" tr'] rest by blast
  have "\<not> (?x \<in> set s \<and> already)" using Cons.prems(3) by (auto simp: e)
  then show ?case
    using IH none bs_remove_empty_iff [OF ok(3,2), of ?x]
    by (auto simp: e Let_def split: option.split)
qed simp

lemma agenda_unique:
  assumes "te_inv te"
  shows "unique_in (ThreadEvt t) (te_map te)"
  unfolding unique_in_def
proof (intro ballI impI)
  fix a b
  assume ab: "a \<in> set (te_map te)" "b \<in> set (te_map te)" "ThreadEvt t \<in> set (snd a)" "ThreadEvt t \<in> set (snd b)"
  then have "(fst a, ThreadEvt t) \<in> events te" "(fst b, ThreadEvt t) \<in> events te"
    by (metis mm_pairs_iff prod.collapse)+
  then have "fst a = fst b" using te_invD(4) [OF assms] by (auto simp: agenda_ok_def)
  moreover have "distinct (map fst (te_map te))" using te_invD(1) [OF assms] by (simp add: bm_okD_distinct)
  ultimately show "a = b" using ab(1,2) by (auto dest: distinct_map_eqD)
qed

definition drained :: "det_tid \<Rightarrow> (logical_time, timed_event) btree_multimap \<Rightarrow> (logical_time, timed_event) btree_multimap" where
  "drained t m = filter (\<lambda>e. snd e \<noteq> []) (map (\<lambda>(k, s). (k, bs_remove (ThreadEvt t) s)) m)"

lemma remove_thread_drained:
  assumes inv: "te_inv te"
  shows "remove_thread t te = Some (te\<lparr>te_map := drained t (te_map te)\<rparr>)"
proof -
  let ?m = "te_map te" and ?x = "ThreadEvt t"
  let ?M = "map (\<lambda>(k, s). (k, bs_remove ?x s)) ?m"
  note old = te_invD [OF inv]
  have emptied: "bs_remove ?x (snd e) = [] \<longleftrightarrow> snd e = [?x]" if "e \<in> set ?m" for e
    using that old(1) by (intro bs_remove_empty_iff) (auto simp: mm_ok_def)
  have "drained t ?m = (case find (\<lambda>e. snd e = [?x]) ?m of None \<Rightarrow> ?M | Some e \<Rightarrow> bm_remove (fst e) ?M)"
  proof (cases "find (\<lambda>e. snd e = [?x]) ?m")
    case None
    then have "\<forall>e \<in> set ?M. snd e \<noteq> []" using emptied by (fastforce simp: find_None_iff)
    then show ?thesis using None by (simp add: drained_def filter_id_conv)
  next
    case (Some e)
    then have e: "e \<in> set ?m" "snd e = [?x]" by (auto dest: find_SomeD)
    have "bs_remove ?x (snd e') = [] \<longleftrightarrow> fst e' = fst e" if "e' \<in> set ?m" for e'
    proof
      assume "bs_remove ?x (snd e') = []"
      then have "e' = e"
        using emptied [OF that] agenda_unique [OF inv, of t] that e by (auto simp: unique_in_def)
      then show "fst e' = fst e" by simp
    next
      assume "fst e' = fst e"
      then have "e' = e" using distinct_map_eqD [OF bm_okD_distinct that e(1)] old(1) by simp
      then show "bs_remove ?x (snd e') = []" using e(2) by (simp add: bs_remove_def)
    qed
    then show ?thesis
      using Some by (auto simp: drained_def bm_remove_def eq_commute [of "[]"] intro!: filter_cong)
  qed
  then show ?thesis
    using remove_loop_ok [OF old(1) agenda_unique [OF inv, of t], where already = False and tr = None]
    by (cases "find (\<lambda>e. snd e = [?x]) ?m") (simp_all add: remove_thread_def)
qed

lemma drained_ok: "mm_ok m \<Longrightarrow> mm_ok (drained t m)"
proof -
  assume ok: "mm_ok m"
  have "map fst (map (\<lambda>(k, s). (k, bs_remove (ThreadEvt t) s)) m) = map fst m"
    by (simp add: case_prod_beta o_def)
  then have "bm_ok (map (\<lambda>(k, s). (k, bs_remove (ThreadEvt t) s)) m)"
    using mm_ok_bm [OF ok] by (simp only: bm_ok_def)
  then show ?thesis
    using ok by (auto simp: mm_ok_def drained_def bm_filter_ok bs_remove_ok)
qed

lemma drained_pairs: "mm_pairs (drained t m) = {p \<in> mm_pairs m. snd p \<noteq> ThreadEvt t}"
proof (induction m)
  case (Cons e m)
  obtain k s where e: "e = (k, s)" by (cases e)
  have "drained t (e # m) =
      (if bs_remove (ThreadEvt t) s = [] then drained t m else (k, bs_remove (ThreadEvt t) s) # drained t m)"
    by (simp add: drained_def e)
  moreover have "Pair k ` (set s - {ThreadEvt t}) = {p \<in> Pair k ` set s. snd p \<noteq> ThreadEvt t}" by auto
  moreover have "set s - {ThreadEvt t} = {}" if "bs_remove (ThreadEvt t) s = []"
    using set_bs_remove [of "ThreadEvt t" s] that by simp
  ultimately show ?case using Cons.IH by (auto simp: e mm_pairs_Cons)
qed (simp add: drained_def mm_pairs_def mm_iter_def)

lemma remove_thread_ok:
  assumes inv: "te_inv te"
  shows "\<exists>te'. remove_thread t te = Some te' \<and> te_inv te' \<and> events te' = {p \<in> events te. snd p \<noteq> ThreadEvt t}
    \<and> signal_timers te' = signal_timers te"
  using te_invD [OF inv] remove_thread_drained [OF inv, of t] agenda_ok_thread_remove [of _ _ _ t]
  by (simp add: te_inv_def drained_ok drained_pairs)

subsection \<open>Controlled real timers\<close>

lemma remove_controlled_ok:
  assumes inv: "te_inv te"
  shows "\<exists>te'. remove_controlled_real_timer_deadline pid te = Some te' \<and> te_inv te'
    \<and> events te' = (if controlled te (Alarm pid) then without (Alarm pid) (events te) else events te)
    \<and> signal_timers te' = signal_timers te
    \<and> controlled_real_timer_deadlines te' = bm_remove pid (controlled_real_timer_deadlines te)"
proof (cases "bm_get (controlled_real_timer_deadlines te) pid")
  case None
  then have "bm_remove pid (controlled_real_timer_deadlines te) = controlled_real_timer_deadlines te"
    using te_invD(3) [OF inv] by (simp add: bm.remove_absent)
  then show ?thesis
    using None inv
    by (intro exI [of _ te])
      (simp add: remove_controlled_real_timer_deadline_def clear_old_signal_timer_def Let_def)
next
  case (Some d)
  note old = te_invD [OF inv]
  let ?te = "te\<lparr>controlled_real_timer_deadlines := bm_remove pid (controlled_real_timer_deadlines te)\<rparr>"
  have "bm_get (signal_timers te) (Alarm pid) = None" using old(4) Some by (auto simp: agenda_ok_def)
  then have due: "due (bm_get (signal_timers te)) (bm_get (controlled_real_timer_deadlines te)) (Alarm pid)
      = Some (d, Process pid, Send SIGALRM)" using Some by (simp add: due_def)
  have own: "\<exists>st. Some (controlled_state pid d) = Some st \<and> phase st = Active \<and> k = deadline st
      \<and> e = SignalEvt (Alarm pid) (target st) (sig st)"
    if "(k, e) \<in> events te" "is_signal_of (Alarm pid) e" for k e
    using that agenda_ok_due [OF old(4), of "Alarm pid"] due
    by (auto simp: is_signal_of_iff controlled_state_def)
  obtain m' where m': "clear_old_signal_timer (Alarm pid) (Some (controlled_state pid d)) ?te
      = Some (?te\<lparr>te_map := m'\<rparr>)" "mm_ok m'" "mm_pairs m' = without (Alarm pid) (events te)"
    using clear_old_signal_timer_ok [of ?te "Alarm pid" "Some (controlled_state pid d)"] old(1) own by auto
  have "agenda_ok (without (Alarm pid) (events te)) (bm_get (signal_timers te))
      ((bm_get (controlled_real_timer_deadlines te))(pid := None))"
    by (rule agenda_ok_controlled_remove [OF old(4)]) (simp add: Some)
  then have "te_inv (?te\<lparr>te_map := m'\<rparr>)"
    using m'(2,3) old by (simp add: te_inv_def bm_remove_ok bm_get_remove)
  then show ?thesis
    using m' Some
    by (intro exI [of _ "?te\<lparr>te_map := m'\<rparr>"])
      (auto simp: remove_controlled_real_timer_deadline_def Let_def)
qed

lemma insert_controlled_ok:
  assumes inv: "te_inv te" and none: "bm_get (signal_timers te) (Alarm pid) = None"
  shows "\<exists>te'. insert_controlled_real_timer_deadline d pid te = Some te' \<and> te_inv te'
    \<and> events te' = insert (d, SignalEvt (Alarm pid) (Process pid) (Send SIGALRM)) (without (Alarm pid) (events te))
    \<and> signal_timers te' = signal_timers te"
proof -
  from remove_controlled_ok [OF inv, of pid]
  obtain te1 where te1: "remove_controlled_real_timer_deadline pid te = Some te1" "te_inv te1"
    "events te1 = (if controlled te (Alarm pid) then without (Alarm pid) (events te) else events te)"
    "signal_timers te1 = signal_timers te" by blast
  note old = te_invD [OF te1(2)]
  let ?e = "SignalEvt (Alarm pid) (Process pid) (Send SIGALRM)"
  let ?te = "te1\<lparr>controlled_real_timer_deadlines := bm_insert pid d (controlled_real_timer_deadlines te1),
    te_map := mm_insert d ?e (te_map te1)\<rparr>"
  have "without (Alarm pid) (events te1) = events te1"
  proof -
    have "due (bm_get (signal_timers te)) (bm_get (controlled_real_timer_deadlines te)) (Alarm pid) = None"
      if "\<not> controlled te (Alarm pid)" using that none by (simp add: due_def)
    then have "\<not> is_signal_of (Alarm pid) e" if "(k, e) \<in> events te" "\<not> controlled te (Alarm pid)" for k e
      using that agenda_ok_due [OF te_invD(4) [OF inv], of "Alarm pid"] by (auto simp: is_signal_of_iff)
    then show ?thesis unfolding te1(3) by (auto simp: without_def)
  qed
  moreover have "without (Alarm pid) (events te1) = without (Alarm pid) (events te)"
    unfolding te1(3) by (auto simp: without_def)
  ultimately have E: "events te1 = without (Alarm pid) (events te)" by simp
  have "te_inv ?te"
    using agenda_ok_controlled_set [OF old(4), of pid d] old none te1(4) E
      \<open>without (Alarm pid) (events te1) = events te1\<close>
    by (simp add: te_inv_def mm_insert_ok bm_insert_ok bm_get_insert)
  then show ?thesis
    using te1 none E old(1) by (simp add: insert_controlled_real_timer_deadline_def)
qed

subsection \<open>Removing the timers of a process\<close>

lemma remove_signal_timers_ok:
  assumes "te_inv te" "\<And>i. i \<in> set is \<Longrightarrow> \<not> is_child_exit i" "\<And>i. i \<in> set is \<Longrightarrow> \<not> controlled te i"
  shows "\<exists>te'. remove_signal_timers is te = Some te' \<and> te_inv te'
    \<and> events te' = {p \<in> events te. \<forall>i \<in> set is. \<not> is_signal_of i (snd p)}
    \<and> bm_get (signal_timers te') = (\<lambda>j. if j \<in> set is then None else bm_get (signal_timers te) j)
    \<and> controlled_real_timer_deadlines te' = controlled_real_timer_deadlines te"
  using assms
proof (induction "is" arbitrary: te)
  case (Cons i "is")
  have i: "\<not> is_child_exit i" "\<not> controlled te i" using Cons.prems(2,3) [of i] by simp_all
  from remove_signal_timer_ok [OF Cons.prems(1) i(1)]
  obtain te1 where te1: "remove_signal_timer i te = Some (bm_get (signal_timers te) i, te1)" "te_inv te1"
    "events te1 = without i (events te)" "signal_timers te1 = bm_remove i (signal_timers te)"
    "controlled_real_timer_deadlines te1 = controlled_real_timer_deadlines te"
    unfolding if_not_P [OF i(2)] by blast
  have "\<not> controlled te1 j" if "j \<in> set is" for j using Cons.prems(3) [of j] that te1(5) by simp
  with Cons.IH [OF te1(2)] Cons.prems(2)
  obtain te2 where te2: "remove_signal_timers is te1 = Some te2" "te_inv te2"
    "events te2 = {p \<in> events te1. \<forall>i \<in> set is. \<not> is_signal_of i (snd p)}"
    "bm_get (signal_timers te2) = (\<lambda>j. if j \<in> set is then None else bm_get (signal_timers te1) j)"
    "controlled_real_timer_deadlines te2 = controlled_real_timer_deadlines te1"
    by (meson list.set_intros(2))
  have "events te2 = {p \<in> events te. \<forall>j \<in> set (i # is). \<not> is_signal_of j (snd p)}"
    unfolding te2(3) te1(3) by (auto simp: without_def)
  moreover have "bm_get (signal_timers te2) = (\<lambda>j. if j \<in> set (i # is) then None else bm_get (signal_timers te) j)"
    unfolding te2(4) te1(4) by (auto simp: bm_get_remove)
  ultimately show ?case using te1(1,5) te2(1,2,5) by simp
qed simp

subsection \<open>Expiry and re-arming\<close>

lemma te_inv_timer_set:
  assumes inv: "te_inv te" and i: "\<not> is_child_exit i" and c: "\<not> controlled te i"
    and m: "mm_ok m" "mm_pairs m = (if phase st = Active
      then insert (deadline st, SignalEvt i (target st) (sig st)) (without i (events te))
      else without i (events te))"
  shows "te_inv (te\<lparr>te_map := m, signal_timers := bm_insert i st (signal_timers te)\<rparr>)"
proof -
  note old = te_invD [OF inv]
  have "agenda_ok (mm_pairs m) ((bm_get (signal_timers te))(i \<mapsto> st)) (bm_get (controlled_real_timer_deadlines te))"
    by (rule agenda_ok_timer_set [OF old(4) i _ m(2)]) (use c in auto)
  then show ?thesis using m(1) old by (simp add: te_inv_def bm_insert_ok bm_get_insert)
qed

lemma timer_of_inv:
  assumes inv: "te_inv te" and st: "bm_get (signal_timers te) i = Some st"
  shows "\<not> is_child_exit i" "\<not> controlled te i"
  using te_invD(4) [OF inv] st by (auto simp: agenda_ok_def)

lemma signal_timer_after_fire_ok:
  assumes inv: "te_inv te"
  shows "\<exists>te'. signal_timer_after_fire i fired c now te = Some te' \<and> te_inv te'
    \<and> without i (events te') = without i (events te)"
proof (cases "signal_timer_after_fire i fired c now te = Some te")
  case True
  then show ?thesis using inv by blast
next
  case False
  note old = te_invD [OF inv]
  from False obtain st where st: "bm_get (signal_timers te) i = Some st"
    and live: "phase st = Active" "interval st \<noteq> 0" "deadline st = saturating_add fired (interval st)"
    by (auto simp: signal_timer_after_fire_def split: option.splits if_splits)
  note i = timer_of_inv [OF inv st]
  obtain m' where m': "clear_old_signal_timer i (Some st) te = Some (te\<lparr>te_map := m'\<rparr>)"
    "mm_ok m'" "mm_pairs m' = without i (events te)"
    using clear_old_signal_timer_ok [OF old(1), of i "Some st"] timer_owns [OF inv i(1)] i(2) st by auto
  show ?thesis
  proof (cases c)
    case (Some b)
    let ?st = "st\<lparr>deadline := fired, phase := Inactive b\<rparr>"
    let ?te = "te\<lparr>te_map := m', signal_timers := bm_insert i ?st (signal_timers te)\<rparr>"
    have "te_inv ?te" by (rule te_inv_timer_set [OF inv i m'(2)]) (simp add: m'(3))
    moreover have "signal_timer_after_fire i fired c now te = Some ?te"
      using st live m'(1) Some by (simp add: signal_timer_after_fire_def)
    moreover have "without i (events ?te) = without i (events te)" using m'(3) by (auto simp: without_def)
    ultimately show ?thesis by blast
  next
    case None
    let ?nxt = "grid_after fired (interval st) now"
    let ?st = "st\<lparr>deadline := ?nxt\<rparr>"
    let ?te = "te\<lparr>te_map := mm_insert ?nxt (SignalEvt i (target st) (sig st)) m',
      signal_timers := bm_insert i ?st (signal_timers te)\<rparr>"
    have "te_inv ?te"
      by (rule te_inv_timer_set [OF inv i]) (simp_all add: m'(2,3) mm_insert_ok live(1))
    moreover have "signal_timer_after_fire i fired c now te = Some ?te"
      using st live m'(1) None by (simp add: signal_timer_after_fire_def Let_def)
    moreover have "without i (events ?te) = without i (events te)"
      using m'(2,3) by (auto simp: without_def)
    ultimately show ?thesis by blast
  qed
qed

lemma inactive_without:
  assumes inv: "te_inv te" and st: "bm_get (signal_timers te) i = Some st" and off: "phase st \<noteq> Active"
  shows "without i (events te) = events te"
  using timer_owns [OF inv timer_of_inv(1) [OF inv st]] timer_of_inv(2) [OF inv st] st off
  by (fastforce simp: without_def)

lemma signal_timer_rearm_after_ok:
  assumes inv: "te_inv te"
  shows "te_inv (snd (signal_timer_rearm_after i t te))"
    and "without i (events (snd (signal_timer_rearm_after i t te))) = without i (events te)"
proof -
  note old = te_invD [OF inv]
  have "te_inv (snd (signal_timer_rearm_after i t te))
    \<and> without i (events (snd (signal_timer_rearm_after i t te))) = without i (events te)"
  proof (cases "snd (signal_timer_rearm_after i t te) = te")
    case False
    then obtain st b where st: "bm_get (signal_timers te) i = Some st" "phase st = Inactive b"
      by (auto simp: signal_timer_rearm_after_def split: option.splits alarm_phase.splits)
    let ?nxt = "grid_after (deadline st) (interval st) t"
    let ?te = "te\<lparr>te_map := mm_insert ?nxt (SignalEvt i (target st) (sig st)) (te_map te),
      signal_timers := bm_insert i (st\<lparr>deadline := ?nxt, phase := Active\<rparr>) (signal_timers te)\<rparr>"
    have "te_inv ?te"
      by (rule te_inv_timer_set [OF inv timer_of_inv [OF inv st(1)]])
        (use old(1) st in \<open>simp_all add: mm_insert_ok inactive_without [OF inv st(1)]\<close>)
    moreover have "snd (signal_timer_rearm_after i t te) = ?te"
      using st by (simp add: signal_timer_rearm_after_def Let_def)
    moreover have "without i (events ?te) = without i (events te)"
      using old(1) by (auto simp: without_def)
    ultimately show ?thesis by simp
  qed (simp add: inv)
  then show "te_inv (snd (signal_timer_rearm_after i t te))"
    "without i (events (snd (signal_timer_rearm_after i t te))) = without i (events te)" by simp_all
qed

lemma alarm_set_copy_ok:
  assumes inv: "te_inv te"
  shows "te_inv (alarm_set_copy pid b te)" and "events (alarm_set_copy pid b te) = events te"
proof -
  have "te_inv (alarm_set_copy pid b te) \<and> events (alarm_set_copy pid b te) = events te"
  proof (cases "alarm_set_copy pid b te = te")
    case False
    then obtain st c where st: "bm_get (signal_timers te) (Alarm pid) = Some st" "phase st = Inactive c"
      by (auto simp: alarm_set_copy_def split: option.splits alarm_phase.splits)
    have "te_inv (te\<lparr>te_map := te_map te,
        signal_timers := bm_insert (Alarm pid) (st\<lparr>phase := Inactive b\<rparr>) (signal_timers te)\<rparr>)"
      by (rule te_inv_timer_set [OF inv timer_of_inv [OF inv st(1)]])
        (use te_invD(1) [OF inv] st in \<open>simp_all add: inactive_without [OF inv st(1)]\<close>)
    then show ?thesis using st by (simp add: alarm_set_copy_def)
  qed (simp add: inv)
  then show "te_inv (alarm_set_copy pid b te)" "events (alarm_set_copy pid b te) = events te" by simp_all
qed

subsection \<open>Popping\<close>

text \<open>The re-armed event of a periodic timer after its pop at \<open>k\<close>.\<close>

definition rearmed :: "timed_events \<Rightarrow> logical_time \<Rightarrow> timed_event \<Rightarrow> agenda" where
  "rearmed te k e = (case e of
       ThreadEvt _ \<Rightarrow> {}
     | SignalEvt i _ _ \<Rightarrow>
         (case bm_get (signal_timers te) i of
            None \<Rightarrow> {}
          | Some st \<Rightarrow> if interval st = 0 then {} else {(saturating_add k (interval st), e)}))"

lemma mm_tail_ok:
  assumes "mm_ok ((k, x # s) # m)"
  defines "m' \<equiv> (if s = [] then m else (k, s) # m)"
  shows "mm_ok m'" "mm_pairs m' = mm_pairs ((k, x # s) # m) - {(k, x)}"
proof -
  show "mm_ok m'" using assms by (auto simp: mm_ok_def bm_ok_Cons bs_ok_Cons)
  have "x \<notin> set s" "\<forall>e \<in> set m. fst e \<noteq> k"
    using assms by (auto simp: mm_ok_def bm_ok_Cons bs_ok_Cons)
  moreover from this(2) have "(k, x) \<notin> mm_pairs m" by (force simp: mm_pairs_iff)
  ultimately show "mm_pairs m' = mm_pairs ((k, x # s) # m) - {(k, x)}"
    by (auto simp: m'_def mm_pairs_Cons)
qed

lemma settle_popped_ok:
  assumes inv: "te_inv te" and e: "(k, e) \<in> events te"
    and m: "mm_ok m" "mm_pairs m = events te - {(k, e)}"
  shows "te_inv (settle_popped k e (te\<lparr>te_map := m\<rparr>))"
    and "events (settle_popped k e (te\<lparr>te_map := m\<rparr>)) = events te - {(k, e)} \<union> rearmed te k e"
proof -
  note old = te_invD [OF inv]
  let ?goal = "\<lambda>te'. te_inv te' \<and> events te' = events te - {(k, e)} \<union> rearmed te k e"
  have plain: "?goal (te\<lparr>te_map := m\<rparr>)" if "\<And>i tgt sg. e = SignalEvt i tgt sg \<Longrightarrow> is_child_exit i"
  proof -
    have "rearmed te k e = {}"
      using that old(4) by (auto simp: rearmed_def agenda_ok_def split: timed_event.split)
    then show ?thesis using m old agenda_ok_drop [OF old(4) that] by (simp add: te_inv_def)
  qed
  have "?goal (settle_popped k e (te\<lparr>te_map := m\<rparr>))"
  proof (cases e)
    case (ThreadEvt t)
    then show ?thesis using plain by (simp add: settle_popped_def)
  next
    case (SignalEvt i tgt sg)
    show ?thesis
    proof (cases "is_child_exit i")
      case True
      then have "bm_get (signal_timers te) i = None" using old(4) by (simp add: agenda_ok_def)
      then have "settle_popped k e (te\<lparr>te_map := m\<rparr>) = te\<lparr>te_map := m\<rparr>"
        using True by (cases i) (simp_all add: SignalEvt settle_popped_def)
      then show ?thesis using plain True SignalEvt by simp
    next
      case False
      have due: "due (bm_get (signal_timers te)) (bm_get (controlled_real_timer_deadlines te)) i = Some (k, tgt, sg)"
        using agenda_ok_due [OF old(4) False] e SignalEvt by simp
      have rest: "mm_pairs m = without i (events te)"
        using m(2) agenda_ok_without_pop [OF old(4) False] e SignalEvt by simp
      show ?thesis
      proof (cases "bm_get (signal_timers te) i")
        case None
        then obtain pid where pid: "i = Alarm pid" "bm_get (controlled_real_timer_deadlines te) pid = Some k"
          using due by (auto simp: due_def split: signal_timer_id.splits)
        then have "settle_popped k e (te\<lparr>te_map := m\<rparr>) = te\<lparr>te_map := m,
            controlled_real_timer_deadlines := bm_remove pid (controlled_real_timer_deadlines te)\<rparr>"
          by (simp add: SignalEvt settle_popped_def process_of_def)
        moreover have "rearmed te k e = {}" using None by (simp add: rearmed_def SignalEvt)
        ultimately show ?thesis
          using agenda_ok_controlled_remove [OF old(4), of pid] pid m rest old
          by (simp add: te_inv_def bm_remove_ok bm_get_remove)
      next
        case (Some st)
        note i = timer_of_inv [OF inv Some]
        have st: "phase st = Active" "deadline st = k" "target st = tgt" "sig st = sg"
          using due Some by (auto simp: due_def split: if_splits)
        have nc: "\<not> (case i of
            Alarm pid \<Rightarrow> bm_get (controlled_real_timer_deadlines (te\<lparr>te_map := m\<rparr>)) pid = Some k | _ \<Rightarrow> False)"
          using i(2) by (auto split: signal_timer_id.split)
        show ?thesis
        proof (cases "interval st = 0")
          case True
          then have "settle_popped k e (te\<lparr>te_map := m\<rparr>) = te\<lparr>te_map := m, signal_timers := bm_remove i (signal_timers te)\<rparr>"
            using nc Some st(2) by (simp add: SignalEvt settle_popped_def)
          moreover have "agenda_ok (without i (events te)) ((bm_get (signal_timers te))(i := None))
              (bm_get (controlled_real_timer_deadlines te))"
            by (rule agenda_ok_timer_remove [OF old(4) i(1)]) (use i(2) in auto)
          moreover have "rearmed te k e = {}" using Some True by (simp add: rearmed_def SignalEvt)
          ultimately show ?thesis
            using m rest old by (simp add: te_inv_def bm_remove_ok bm_get_remove)
        next
          case periodic: False
          let ?n = "saturating_add k (interval st)"
          let ?te = "te\<lparr>te_map := mm_insert ?n e m, signal_timers := bm_insert i (st\<lparr>deadline := ?n\<rparr>) (signal_timers te)\<rparr>"
          have "settle_popped k e (te\<lparr>te_map := m\<rparr>) = ?te"
            using nc Some st(2) periodic by (simp add: SignalEvt settle_popped_def Let_def)
          moreover have "te_inv ?te"
            by (rule te_inv_timer_set [OF inv i])
              (simp_all add: mm_insert_ok m(1) rest st SignalEvt)
          moreover have "rearmed te k e = {(?n, e)}" using Some periodic by (simp add: rearmed_def SignalEvt)
          ultimately show ?thesis using m by simp
        qed
      qed
    qed
  qed
  then show "te_inv (settle_popped k e (te\<lparr>te_map := m\<rparr>))"
    "events (settle_popped k e (te\<lparr>te_map := m\<rparr>)) = events te - {(k, e)} \<union> rearmed te k e" by simp_all
qed

lemma pop_if_before_ok:
  assumes inv: "te_inv te"
  shows "(\<forall>p \<in> events te. now < fst p) \<and> pop_if_before now te = Some (None, te)
    \<or> (\<exists>p te'. p \<in> events te \<and> fst p \<le> now \<and> (\<forall>q \<in> events te. p \<le> q)
         \<and> pop_if_before now te = Some (Some p, te') \<and> te_inv te'
         \<and> events te' = events te - {p} \<union> rearmed te (fst p) (snd p))"
proof (cases "te_map te")
  case Nil
  then show ?thesis by (simp add: pop_if_before_def mm_pairs_def mm_iter_def)
next
  case (Cons a m)
  note old = te_invD [OF inv]
  obtain k x s where a: "a = (k, x # s)"
    using old(1) Cons by (cases a; cases "snd a") (auto simp: mm_ok_def)
  have ok: "mm_ok ((k, x # s) # m)" using old(1) Cons a by simp
  note least = mm_first_least [OF ok, folded a, folded Cons]
  show ?thesis
  proof (cases "k \<le> now")
    case True
    let ?te = "settle_popped k x (te\<lparr>te_map := (if s = [] then m else (k, s) # m)\<rparr>)"
    have "pop_if_before now te = Some (Some (k, x), ?te)"
      using True by (simp add: pop_if_before_def Cons a)
    moreover have "te_inv ?te" "events ?te = events te - {(k, x)} \<union> rearmed te k x"
      using settle_popped_ok [OF inv least(1) mm_tail_ok(1) [OF ok]] mm_tail_ok(2) [OF ok]
      by (simp_all add: Cons a)
    ultimately show ?thesis using least True by (intro disjI2 exI [of _ "(k, x)"] exI [of _ ?te]) simp
  next
    case False
    then have "now < fst p" if "p \<in> events te" for p
      using least(2) that by (force simp: less_eq_prod_def)
    then show ?thesis using False by (simp add: pop_if_before_def Cons a)
  qed
qed

end
