(* ===== verification/Timed_Events_Hist.thy ===== *)
theory Timed_Events_Hist
  imports Timed_Events_Ops
begin

text \<open>
  Histories of the timed events: the calls the scheduler makes, the protocol, and what each call does,
  first to the agenda, the set of queued (time, event) pairs, and then exactly, to a plan of which the
  agenda is a function.
\<close>

datatype te_call =
    InsertThread logical_time det_tid
  | InsertAlarm logical_time det_pid det_tid signal logical_time
  | InsertPosixTimer logical_time det_pid signal_target int timer_signal logical_time
  | InsertChildExit logical_time det_pid det_pid det_tid
  | InsertControlled logical_time det_pid
  | RemoveControlled det_pid
  | RemoveAlarm det_pid
  | RemovePosixTimer det_pid int
  | RemovePosixTimers det_pid
  | RemoveProcessTimers det_pid
  | RemoveThread det_tid
  | SignalTimerAfterFire signal_timer_id logical_time "bool option" logical_time
  | SignalTimerRearmAfter signal_timer_id logical_time
  | AlarmSetCopy det_pid bool
  | PopIfBefore logical_time

fun te_step :: "te_call \<Rightarrow> timed_events \<Rightarrow> timed_events option" where
  "te_step (InsertThread ns t) te = insert_thread ns t te"
| "te_step (InsertAlarm ns p t s ivl) te = map_option snd (insert_alarm ns p t s ivl te)"
| "te_step (InsertPosixTimer ns p tgt n s ivl) te = insert_posix_timer ns p tgt n s ivl te"
| "te_step (InsertChildExit ns c p t) te = Some (insert_child_exit ns c p t te)"
| "te_step (InsertControlled d p) te = insert_controlled_real_timer_deadline d p te"
| "te_step (RemoveControlled p) te = remove_controlled_real_timer_deadline p te"
| "te_step (RemoveAlarm p) te = map_option snd (remove_alarm p te)"
| "te_step (RemovePosixTimer p n) te = remove_posix_timer p n te"
| "te_step (RemovePosixTimers p) te = remove_posix_timers p te"
| "te_step (RemoveProcessTimers p) te = remove_process_timers p te"
| "te_step (RemoveThread t) te = remove_thread t te"
| "te_step (SignalTimerAfterFire i k c now) te = signal_timer_after_fire i k c now te"
| "te_step (SignalTimerRearmAfter i t) te = Some (snd (signal_timer_rearm_after i t te))"
| "te_step (AlarmSetCopy p b) te = Some (alarm_set_copy p b te)"
| "te_step (PopIfBefore now) te = map_option snd (pop_if_before now te)"

text \<open>
  The protocol: a thread is inserted only while it does not wait already, and a process uses either
  the controlled real timer or the alarm of its own, never both at once. The time of a pop is a
  \<open>u64\<close>.
\<close>

fun te_pre :: "te_call \<Rightarrow> timed_events \<Rightarrow> bool" where
  "te_pre (InsertThread ns t) te \<longleftrightarrow> thread_deadline t te = None"
| "te_pre (InsertAlarm ns p t s ivl) te \<longleftrightarrow> bm_get (controlled_real_timer_deadlines te) p = None"
| "te_pre (InsertControlled d p) te \<longleftrightarrow> bm_get (signal_timers te) (Alarm p) = None"
| "te_pre (PopIfBefore now) te \<longleftrightarrow> now \<le> u64_max"
| "te_pre _ te \<longleftrightarrow> True"

text \<open>
  What a call may do to the agenda, the event of the timer it names left open where that depends on
  the state of the timer.
\<close>

definition agenda_pop :: "logical_time \<Rightarrow> agenda \<Rightarrow> agenda \<Rightarrow> bool" where
  "agenda_pop now E E' \<longleftrightarrow>
     (\<forall>p \<in> E. now < fst p) \<and> E' = E
     \<or> (\<exists>p \<in> E. fst p \<le> now \<and> (\<forall>q \<in> E. p \<le> q)
          \<and> (E' = E - {p} \<or> (\<exists>k i tgt sg. fst p \<le> k \<and> snd p = SignalEvt i tgt sg \<and> E' = E - {p} \<union> {(k, snd p)})))"

definition is_timer_event :: "(signal_timer_id \<Rightarrow> bool) \<Rightarrow> logical_time \<times> timed_event \<Rightarrow> bool" where
  "is_timer_event P p \<longleftrightarrow> (case snd p of SignalEvt i _ _ \<Rightarrow> P i | ThreadEvt _ \<Rightarrow> False)"

fun agenda_spec :: "te_call \<Rightarrow> agenda \<Rightarrow> agenda \<Rightarrow> bool" where
  "agenda_spec (InsertThread ns t) E E' \<longleftrightarrow> E' = insert (ns, ThreadEvt t) E"
| "agenda_spec (InsertAlarm ns p t s ivl) E E' \<longleftrightarrow>
     E' = insert (ns, SignalEvt (Alarm p) (Process t) (Send s)) (without (Alarm p) E)"
| "agenda_spec (InsertPosixTimer ns p tgt n s ivl) E E' \<longleftrightarrow>
     E' = insert (ns, SignalEvt (Posix p n) tgt s) (without (Posix p n) E)"
| "agenda_spec (InsertChildExit ns c p t) E E' \<longleftrightarrow>
     E' = insert (ns, SignalEvt (ChildExit c p) (Process t) (Send SIGCHLD)) E"
| "agenda_spec (InsertControlled d p) E E' \<longleftrightarrow>
     E' = insert (d, SignalEvt (Alarm p) (Process p) (Send SIGALRM)) (without (Alarm p) E)"
| "agenda_spec (RemoveControlled p) E E' \<longleftrightarrow> E' = E \<or> E' = without (Alarm p) E"
| "agenda_spec (RemoveAlarm p) E E' \<longleftrightarrow> E' = E \<or> E' = without (Alarm p) E"
| "agenda_spec (RemovePosixTimer p n) E E' \<longleftrightarrow> E' = without (Posix p n) E"
| "agenda_spec (RemovePosixTimers p) E E' \<longleftrightarrow> E' = {x \<in> E. \<not> is_timer_event (is_posix_of p) x}"
| "agenda_spec (RemoveProcessTimers p) E E' \<longleftrightarrow> E' = {x \<in> E. \<not> is_timer_event (is_timer_of p) x}"
| "agenda_spec (RemoveThread t) E E' \<longleftrightarrow> E' = {x \<in> E. snd x \<noteq> ThreadEvt t}"
| "agenda_spec (SignalTimerAfterFire i k c now) E E' \<longleftrightarrow> without i E' = without i E"
| "agenda_spec (SignalTimerRearmAfter i t) E E' \<longleftrightarrow> without i E' = without i E"
| "agenda_spec (AlarmSetCopy p b) E E' \<longleftrightarrow> E' = E"
| "agenda_spec (PopIfBefore now) E E' \<longleftrightarrow> agenda_pop now E E'"

definition te_step_ok :: "te_call \<Rightarrow> timed_events \<Rightarrow> bool" where
  "te_step_ok c te \<longleftrightarrow> (\<exists>te'. te_step c te = Some te' \<and> te_inv te' \<and> agenda_spec c (events te) (events te'))"

lemma thread_deadline_None:
  "thread_deadline t te = None \<longleftrightarrow> (\<forall>k. (k, ThreadEvt t) \<notin> events te)"
  by (auto simp: thread_deadline_def find_None_iff mm_pairs_iff)

lemma te_step_insert_ok:
  assumes inv: "te_inv te"
  shows "thread_deadline t te = None \<Longrightarrow> te_step_ok (InsertThread ns t) te"
    and "bm_get (controlled_real_timer_deadlines te) p = None \<Longrightarrow> te_step_ok (InsertAlarm ns p t s ivl) te"
    and "te_step_ok (InsertPosixTimer ns p tgt n sg ivl) te"
    and "te_step_ok (InsertChildExit ns c p t) te"
    and "bm_get (signal_timers te) (Alarm p) = None \<Longrightarrow> te_step_ok (InsertControlled d p) te"
proof -
  assume "thread_deadline t te = None"
  then show "te_step_ok (InsertThread ns t) te"
    using insert_thread_ok [OF inv, of t ns] unfolding thread_deadline_None by (auto simp: te_step_ok_def)
next
  assume "bm_get (controlled_real_timer_deadlines te) p = None"
  then show "te_step_ok (InsertAlarm ns p t s ivl) te"
    using insert_signal_timer_ok [OF inv, of "Alarm p" ns "Process t" "Send s" ivl]
    by (auto simp: te_step_ok_def insert_alarm_def)
next
  show "te_step_ok (InsertPosixTimer ns p tgt n sg ivl) te"
    using insert_signal_timer_ok [OF inv, of "Posix p n" ns tgt sg ivl]
    by (auto simp: te_step_ok_def insert_posix_timer_def)
  show "te_step_ok (InsertChildExit ns c p t) te"
    using insert_child_exit_ok [OF inv] by (simp add: te_step_ok_def)
next
  assume "bm_get (signal_timers te) (Alarm p) = None"
  then show "te_step_ok (InsertControlled d p) te"
    using insert_controlled_ok [OF inv, of p d] by (auto simp: te_step_ok_def)
qed

lemma te_step_remove_ok:
  assumes inv: "te_inv te"
  shows "te_step_ok (RemoveControlled p) te" and "te_step_ok (RemoveAlarm p) te"
    and "te_step_ok (RemovePosixTimer p n) te" and "te_step_ok (RemoveThread t) te"
proof -
  show "te_step_ok (RemoveControlled p) te"
    using remove_controlled_ok [OF inv, of p] by (auto simp: te_step_ok_def)
  obtain te' where "remove_signal_timer (Alarm p) te = Some (bm_get (signal_timers te) (Alarm p), te')"
    "te_inv te'" "events te' = events te \<or> events te' = without (Alarm p) (events te)"
    using remove_signal_timer_ok [OF inv, of "Alarm p"] by (cases "controlled te (Alarm p)") auto
  then show "te_step_ok (RemoveAlarm p) te" by (simp add: te_step_ok_def remove_alarm_def)
  show "te_step_ok (RemovePosixTimer p n) te"
    using remove_signal_timer_ok [OF inv, of "Posix p n"] by (auto simp: te_step_ok_def remove_posix_timer_def)
  show "te_step_ok (RemoveThread t) te"
    using remove_thread_ok [OF inv, of t] by (auto simp: te_step_ok_def)
qed

text \<open>Removing every listed timer that a predicate selects removes every queued event it selects.\<close>

lemma timer_event_listed:
  assumes inv: "te_inv te" and P: "\<And>i. P i \<Longrightarrow> \<not> is_child_exit i" "\<And>i. P i \<Longrightarrow> \<not> controlled te i"
    and p: "p \<in> events te"
  shows "is_timer_event P p \<longleftrightarrow>
    (\<exists>i \<in> set (filter P (map fst (signal_timers te))). is_signal_of i (snd p))"
proof -
  have "i \<in> fst ` set (signal_timers te)" if "P i" "is_signal_of i (snd p)" for i
  proof -
    have "\<exists>st. bm_get (signal_timers te) i = Some st"
      using timer_owns [OF inv P(1) [OF that(1)], of "fst p" "snd p"] P(2) [OF that(1)] p that(2) by auto
    then obtain st where "bm_get (signal_timers te) i = Some st" by blast
    then show ?thesis using te_invD(2) [OF inv] by (force simp: bm_get_iff)
  qed
  then show ?thesis
    by (cases "snd p") (auto simp: is_timer_event_def)
qed

lemma remove_selected_ok:
  assumes inv: "te_inv te" and P: "\<And>i. P i \<Longrightarrow> \<not> is_child_exit i" "\<And>i. P i \<Longrightarrow> \<not> controlled te i"
  shows "\<exists>te'. remove_signal_timers (filter P (map fst (signal_timers te))) te = Some te' \<and> te_inv te'
    \<and> events te' = {x \<in> events te. \<not> is_timer_event P x}"
proof -
  let ?is = "filter P (map fst (signal_timers te))"
  have "\<not> is_child_exit i" "\<not> controlled te i" if "i \<in> set ?is" for i
    using P [of i] that by simp_all
  from remove_signal_timers_ok [OF inv this]
  obtain te' where te': "remove_signal_timers ?is te = Some te'" "te_inv te'"
    "events te' = {x \<in> events te. \<forall>i \<in> set ?is. \<not> is_signal_of i (snd x)}" by blast
  have "events te' = {x \<in> events te. \<not> is_timer_event P x}"
    unfolding te'(3) using timer_event_listed [OF inv P] by blast
  then show ?thesis using te'(1,2) by blast
qed

lemma te_step_remove_all_ok:
  assumes inv: "te_inv te"
  shows "te_step_ok (RemovePosixTimers p) te" and "te_step_ok (RemoveProcessTimers p) te"
proof -
  have "\<not> is_child_exit i" "\<not> controlled te i" if "is_posix_of p i" for i
    using that by (cases i; simp)+
  from remove_selected_ok [OF inv this] show "te_step_ok (RemovePosixTimers p) te"
    by (simp add: te_step_ok_def remove_posix_timers_def)
next
  obtain te1 where te1: "remove_controlled_real_timer_deadline p te = Some te1" "te_inv te1"
    "events te1 = (if controlled te (Alarm p) then without (Alarm p) (events te) else events te)"
    "controlled_real_timer_deadlines te1 = bm_remove p (controlled_real_timer_deadlines te)"
    using remove_controlled_ok [OF inv, of p] by blast
  have "\<not> is_child_exit i" "\<not> controlled te1 i" if "is_timer_of p i" for i
    using that te1(4) by (cases i; simp add: bm_get_remove)+
  from remove_selected_ok [OF te1(2) this]
  obtain te' where te': "remove_process_timers p te = Some te'" "te_inv te'"
    "events te' = {x \<in> events te1. \<not> is_timer_event (is_timer_of p) x}"
    by (auto simp: remove_process_timers_def te1(1))
  have "events te' = {x \<in> events te. \<not> is_timer_event (is_timer_of p) x}"
    unfolding te'(3) te1(3) by (auto simp: without_def is_timer_event_def is_signal_of_iff)
  then show "te_step_ok (RemoveProcessTimers p) te" using te'(1,2) by (simp add: te_step_ok_def)
qed

lemma rearmed_cases: "rearmed te k e = {} \<or> (\<exists>x. rearmed te k e = {x})"
  by (simp add: rearmed_def split: timed_event.split option.split)

lemma rearmed_later:
  assumes "x \<in> rearmed te k e"
  shows "snd x = e" and "k \<le> u64_max \<Longrightarrow> k \<le> fst x" and "\<exists>i tgt sg. e = SignalEvt i tgt sg"
  using assms by (auto simp: rearmed_def saturating_add_def split: timed_event.splits option.splits if_splits)

lemma te_step_fire_ok:
  assumes inv: "te_inv te"
  shows "te_step_ok (SignalTimerAfterFire i k c now) te" and "te_step_ok (SignalTimerRearmAfter i t) te"
    and "te_step_ok (AlarmSetCopy p b) te"
  using signal_timer_after_fire_ok [OF inv] signal_timer_rearm_after_ok [OF inv] alarm_set_copy_ok [OF inv]
  by (simp_all add: te_step_ok_def)

lemma te_step_pop_ok:
  assumes inv: "te_inv te" and now: "now \<le> u64_max"
  shows "te_step_ok (PopIfBefore now) te"
  using pop_if_before_ok [OF inv, of now]
proof (elim disjE exE conjE)
  assume "pop_if_before now te = Some (None, te)" "\<forall>p \<in> events te. now < fst p"
  then show ?thesis using inv by (simp add: te_step_ok_def agenda_pop_def)
next
  fix p te'
  assume p: "p \<in> events te" "fst p \<le> now" "\<forall>q \<in> events te. p \<le> q"
    and te': "pop_if_before now te = Some (Some p, te')" "te_inv te'"
      "events te' = events te - {p} \<union> rearmed te (fst p) (snd p)"
  consider "rearmed te (fst p) (snd p) = {}" | x where "rearmed te (fst p) (snd p) = {x}"
    using rearmed_cases [of te "fst p" "snd p"] by blast
  then have "agenda_pop now (events te) (events te')"
  proof cases
    case 1
    then show ?thesis using p te'(3) by (auto simp: agenda_pop_def)
  next
    case (2 x)
    have "x = (fst x, snd p)" "fst p \<le> fst x" "\<exists>i tgt sg. snd p = SignalEvt i tgt sg"
      using rearmed_later [of x te "fst p" "snd p"] 2 p(2) now by (auto simp: prod_eq_iff)
    then have "\<exists>k i tgt sg. fst p \<le> k \<and> snd p = SignalEvt i tgt sg \<and> events te' = events te - {p} \<union> {(k, snd p)}"
      using 2 te'(3) by metis
    then show ?thesis using p unfolding agenda_pop_def by blast
  qed
  then show ?thesis using te'(1,2) by (simp add: te_step_ok_def)
qed

lemma te_step_legal: "te_inv te \<Longrightarrow> te_pre c te \<Longrightarrow> te_step_ok c te"
  by (cases c)
    (simp_all add: te_step_insert_ok te_step_remove_ok te_step_remove_all_ok te_step_fire_ok te_step_pop_ok)

subsection \<open>The plan\<close>

text \<open>
  A plan is what the clients of the timed events ask for: the waits of threads and the child exit
  signals, as a set of (time, event) pairs, the state of every alarm and POSIX timer, and the
  controlled real timer deadline of every process that has one. The agenda follows from it: the pairs
  of the set, and for each armed timer and each controlled deadline its signal at its time.
\<close>

type_synonym plan =
  "agenda \<times> (signal_timer_id \<rightharpoonup> signal_timer_state) \<times> (det_pid \<rightharpoonup> logical_time)"

definition is_plain :: "logical_time \<times> timed_event \<Rightarrow> bool" where
  "is_plain p \<longleftrightarrow> (case snd p of ThreadEvt _ \<Rightarrow> True | SignalEvt i _ _ \<Rightarrow> is_child_exit i)"

definition plain_part :: "agenda \<Rightarrow> agenda" where
  "plain_part E = {p \<in> E. is_plain p}"

definition plan_of :: "timed_events \<Rightarrow> plan" where
  "plan_of te = (plain_part (events te), bm_get (signal_timers te),
     bm_get (controlled_real_timer_deadlines te))"

fun agenda_of :: "plan \<Rightarrow> agenda" where
  "agenda_of (W, T, C) = W
     \<union> {(deadline st, SignalEvt i (target st) (sig st)) | i st. T i = Some st \<and> phase st = Active}
     \<union> {(d, SignalEvt (Alarm pid) (Process pid) (Send SIGALRM)) | pid d. C pid = Some d}"

text \<open>The first point after \<open>t\<close> of the grid through \<open>prev\<close>, or the end of time.\<close>

definition next_on_grid :: "logical_time \<Rightarrow> logical_time \<Rightarrow> logical_time \<Rightarrow> logical_time" where
  "next_on_grid prev ivl t = min u64_max (prev + ((t - prev) div max 1 ivl + 1) * max 1 ivl)"

definition fired_timer ::
  "logical_time \<Rightarrow> bool option \<Rightarrow> logical_time \<Rightarrow> signal_timer_state \<Rightarrow> signal_timer_state" where
  "fired_timer fired c now st =
     (if phase st \<noteq> Active \<or> interval st = 0 \<or> deadline st \<noteq> min u64_max (fired + interval st) then st
      else case c of
          Some b \<Rightarrow> st\<lparr>deadline := fired, phase := Inactive b\<rparr>
        | None \<Rightarrow> st\<lparr>deadline := next_on_grid fired (interval st) now\<rparr>)"

definition rearmed_timer :: "logical_time \<Rightarrow> signal_timer_state \<Rightarrow> signal_timer_state" where
  "rearmed_timer t st =
     (if phase st = Active then st
      else st\<lparr>deadline := next_on_grid (deadline st) (interval st) t, phase := Active\<rparr>)"

definition copied_timer :: "bool \<Rightarrow> signal_timer_state \<Rightarrow> signal_timer_state" where
  "copied_timer b st = (if phase st = Active then st else st\<lparr>phase := Inactive b\<rparr>)"

fun plan_effect :: "te_call \<Rightarrow> plan \<Rightarrow> plan" where
  "plan_effect (InsertThread ns t) (W, T, C) = (insert (ns, ThreadEvt t) W, T, C)"
| "plan_effect (InsertAlarm ns p t s ivl) (W, T, C) = (W, T(Alarm p \<mapsto>
     \<lparr>deadline = ns, interval = ivl, phase = Active, target = Process t, sig = Send s\<rparr>), C)"
| "plan_effect (InsertPosixTimer ns p tgt n s ivl) (W, T, C) = (W, T(Posix p n \<mapsto>
     \<lparr>deadline = ns, interval = ivl, phase = Active, target = tgt, sig = s\<rparr>), C)"
| "plan_effect (InsertChildExit ns c p t) (W, T, C) =
     (insert (ns, SignalEvt (ChildExit c p) (Process t) (Send SIGCHLD)) W, T, C)"
| "plan_effect (InsertControlled d p) (W, T, C) = (W, T, C(p \<mapsto> d))"
| "plan_effect (RemoveControlled p) (W, T, C) = (W, T, C(p := None))"
| "plan_effect (RemoveAlarm p) (W, T, C) = (W, T(Alarm p := None), C)"
| "plan_effect (RemovePosixTimer p n) (W, T, C) = (W, T(Posix p n := None), C)"
| "plan_effect (RemovePosixTimers p) (W, T, C) = (W, (\<lambda>i. if is_posix_of p i then None else T i), C)"
| "plan_effect (RemoveProcessTimers p) (W, T, C) =
     (W, (\<lambda>i. if is_timer_of p i then None else T i), C(p := None))"
| "plan_effect (RemoveThread t) (W, T, C) = ({x \<in> W. snd x \<noteq> ThreadEvt t}, T, C)"
| "plan_effect (SignalTimerAfterFire i fired c now) (W, T, C) =
     (W, T(i := map_option (fired_timer fired c now) (T i)), C)"
| "plan_effect (SignalTimerRearmAfter i t) (W, T, C) = (W, T(i := map_option (rearmed_timer t) (T i)), C)"
| "plan_effect (AlarmSetCopy p b) (W, T, C) =
     (W, T(Alarm p := map_option (copied_timer b) (T (Alarm p))), C)"
| "plan_effect (PopIfBefore now) (W, T, C) = (W, T, C)"

text \<open>
  What taking a pair off the agenda does: a wait or a child exit is over; a timer that fires moves on
  by its interval, or is gone when it has none; a controlled deadline is gone.
\<close>

fun plan_take :: "logical_time \<times> timed_event \<Rightarrow> plan \<Rightarrow> plan" where
  "plan_take (k, ThreadEvt t) (W, T, C) = (W - {(k, ThreadEvt t)}, T, C)"
| "plan_take (k, SignalEvt i tgt sg) (W, T, C) =
     (if is_child_exit i then (W - {(k, SignalEvt i tgt sg)}, T, C)
      else case T i of
          None \<Rightarrow> (W, T, C(process_of i := None))
        | Some st \<Rightarrow>
            (W, T(i := if interval st = 0 then None
                       else Some (st\<lparr>deadline := min u64_max (k + interval st)\<rparr>)), C))"

definition plan_pop :: "logical_time \<Rightarrow> plan \<Rightarrow> plan \<Rightarrow> bool" where
  "plan_pop now v v' \<longleftrightarrow>
     (if \<forall>p \<in> agenda_of v. now < fst p then v' = v
      else \<exists>p \<in> agenda_of v. (\<forall>q \<in> agenda_of v. p \<le> q) \<and> v' = plan_take p v)"

definition te_spec :: "te_call \<Rightarrow> plan \<Rightarrow> plan \<Rightarrow> bool" where
  "te_spec c v v' \<longleftrightarrow> (case c of PopIfBefore now \<Rightarrow> plan_pop now v v' | _ \<Rightarrow> v' = plan_effect c v)"

text \<open>The specification leaves nothing open.\<close>

lemma plan_pop_unique: "plan_pop now v a \<Longrightarrow> plan_pop now v b \<Longrightarrow> a = b"
  by (auto simp: plan_pop_def split: if_splits dest: order_antisym)

lemma te_spec_unique: "te_spec c v a \<Longrightarrow> te_spec c v b \<Longrightarrow> a = b"
  by (cases c) (auto simp: te_spec_def dest: plan_pop_unique)

lemma agenda_of_plan:
  assumes inv: "te_inv te"
  shows "agenda_of (plan_of te) = events te"
proof -
  note ok = te_invD(4) [OF inv]
  have "(k, SignalEvt i tgt sg) \<in> agenda_of (plan_of te) \<longleftrightarrow> (k, SignalEvt i tgt sg) \<in> events te" for k i tgt sg
  proof (cases "is_child_exit i")
    case True
    then show ?thesis using ok by (auto simp: plan_of_def plain_part_def is_plain_def agenda_ok_def)
  next
    case False
    have "(k, SignalEvt i tgt sg) \<in> agenda_of (plan_of te) \<longleftrightarrow>
      due (bm_get (signal_timers te)) (bm_get (controlled_real_timer_deadlines te)) i = Some (k, tgt, sg)"
      using False ok
      by (auto simp: plan_of_def plain_part_def is_plain_def due_def agenda_ok_def split: option.splits signal_timer_id.splits)
    then show ?thesis using agenda_ok_due [OF ok False] by simp
  qed
  moreover have "(k, ThreadEvt t) \<in> agenda_of (plan_of te) \<longleftrightarrow> (k, ThreadEvt t) \<in> events te" for k t
    by (simp add: plan_of_def plain_part_def is_plain_def)
  ultimately show ?thesis by (metis (no_types) set_eqI surj_pair timed_event.exhaust)
qed

lemma grid_after_next: "grid_after prev ivl t = next_on_grid prev ivl t"
proof -
  define v where "v = max 1 ivl"
  define k where "k = (t - prev) div v + 1"
  have v: "(if ivl = 0 then 1 else ivl) = v" "1 \<le> v" by (auto simp: v_def max_def)
  have "k \<le> prev + k * v" "k * v \<le> prev + k * v" using v(2) by (simp_all add: trans_le_add2)
  then have k: "k \<le> prev + k * v" "k * v \<le> prev + k * v" "Suc ((t - prev) div v) = k"
    "v + (t - prev) div v * v = k * v" by (simp_all add: k_def)
  then show ?thesis
    unfolding grid_after_def next_on_grid_def Let_def v(1) v_def [symmetric] k_def [symmetric]
    using k by (auto simp: checked_grid_after_def checked_add_def checked_mul_def saturating_sub_def min_def)
qed

subsubsection \<open>The tables\<close>

lemma clear_old_tables:
  "clear_old_signal_timer i old te = Some te' \<Longrightarrow> signal_timers te' = signal_timers te
   \<and> controlled_real_timer_deadlines te' = controlled_real_timer_deadlines te"
  by (auto simp: clear_old_signal_timer_def bind_eq_Some_conv assert_that_def Let_def
      split: option.splits if_splits)

definition tables :: "timed_events \<Rightarrow> (signal_timer_id \<rightharpoonup> signal_timer_state) \<times> (det_pid \<rightharpoonup> logical_time)" where
  "tables te = (bm_get (signal_timers te), bm_get (controlled_real_timer_deadlines te))"

lemma plan_of_tables: "plan_of te = (plain_part (events te), tables te)"
  by (auto simp: plan_of_def tables_def)

lemma tables_insert:
  "insert_thread ns t te = Some te' \<Longrightarrow> tables te' = tables te"
  "tables (insert_child_exit ns c p t te) = tables te"
  "remove_controlled_real_timer_deadline p te = Some te' \<Longrightarrow>
     tables te' = (fst (tables te), (snd (tables te))(p := None))"
  "remove_signal_timer i te = Some (r, te') \<Longrightarrow> tables te' = ((fst (tables te))(i := None), snd (tables te))"
  "remove_thread t te = Some te' \<Longrightarrow> tables te' = tables te"
  by (auto simp: tables_def insert_thread_def insert_child_exit_def
      remove_controlled_real_timer_deadline_def remove_signal_timer_def remove_thread_def bind_eq_Some_conv
      assert_that_def bm_get_remove Let_def dest!: clear_old_tables split: if_splits)

lemma tables_insert_timer:
  assumes "te_inv te" "insert_signal_timer i ns tgt sg ivl te = Some (r, te')"
  shows "tables te' = ((fst (tables te))(i \<mapsto>
    \<lparr>deadline = ns, interval = ivl, phase = Active, target = tgt, sig = sg\<rparr>), snd (tables te))"
  using assms(2) te_invD(2) [OF assms(1)]
  by (auto simp: tables_def insert_signal_timer_def bind_eq_Some_conv assert_that_def bm_get_insert Let_def
      dest!: clear_old_tables split: if_splits)

lemma tables_insert_controlled:
  assumes "te_inv te" "insert_controlled_real_timer_deadline d p te = Some te'"
  shows "tables te' = (fst (tables te), (snd (tables te))(p \<mapsto> d))"
proof -
  obtain te1 where te1: "remove_controlled_real_timer_deadline p te = Some te1"
    "te' = te1\<lparr>controlled_real_timer_deadlines := bm_insert p d (controlled_real_timer_deadlines te1),
       te_map := mm_insert d (SignalEvt (Alarm p) (Process p) (Send SIGALRM)) (te_map te1)\<rparr>"
    using assms(2)
    by (auto simp: insert_controlled_real_timer_deadline_def bind_eq_Some_conv assert_that_def split: if_splits)
  have "te_inv te1" using remove_controlled_ok [OF assms(1), of p] te1(1) by auto
  then show ?thesis
    using te1(2) tables_insert(3) [OF te1(1)] te_invD(3) by (simp add: tables_def bm_get_insert)
qed

lemma tables_remove_all:
  assumes "te_inv te" "remove_signal_timers (filter P (map fst (signal_timers te))) te = Some te'"
  shows "tables te' = ((\<lambda>i. if P i then None else fst (tables te) i), snd (tables te))"
proof -
  have *: "remove_signal_timers is te = Some te' \<Longrightarrow>
      tables te' = ((\<lambda>i. if i \<in> set is then None else fst (tables te) i), snd (tables te))" for "is" te te'
    by (induction "is" arbitrary: te) (auto simp: bind_eq_Some_conv fun_eq_iff dest!: tables_insert(4))
  have "bm_get (signal_timers te) i = None" if "i \<notin> fst ` set (signal_timers te)" for i
    using that by (simp add: bm_get_None_iff)
  then have "(if i \<in> set (filter P (map fst (signal_timers te))) then None else fst (tables te) i) =
      (if P i then None else fst (tables te) i)" for i
    by (auto simp: tables_def)
  then show ?thesis using * [OF assms(2)] by simp
qed

lemma tables_after_fire:
  assumes inv: "te_inv te" and "signal_timer_after_fire i fired c now te = Some te'"
  shows "tables te' = ((fst (tables te))(i := map_option (fired_timer fired c now) (fst (tables te) i)),
    snd (tables te))"
proof (cases "bm_get (signal_timers te) i")
  case None
  then show ?thesis using assms(2) by (auto simp: signal_timer_after_fire_def tables_def)
next
  case (Some st)
  show ?thesis
  proof (cases "phase st \<noteq> Active \<or> interval st = 0 \<or> deadline st \<noteq> saturating_add fired (interval st)")
    case True
    then have "te' = te" using assms(2) Some by (auto simp: signal_timer_after_fire_def)
    moreover have "fired_timer fired c now st = st"
      using True by (simp add: fired_timer_def saturating_add_def min.commute)
    ultimately show ?thesis using Some by (simp add: tables_def fun_upd_idem)
  next
    case False
    then obtain te1 where te1: "clear_old_signal_timer i (Some st) te = Some te1"
      using assms(2) Some by (auto simp: signal_timer_after_fire_def bind_eq_Some_conv)
    note t1 = clear_old_tables [OF te1]
    have "fired_timer fired c now st = (case c of
        Some b \<Rightarrow> st\<lparr>deadline := fired, phase := Inactive b\<rparr>
      | None \<Rightarrow> st\<lparr>deadline := next_on_grid fired (interval st) now\<rparr>)"
      using False by (simp add: fired_timer_def saturating_add_def min.commute)
    then show ?thesis
      using assms(2) Some False te1 t1 te_invD(2) [OF inv]
      by (cases c) (auto simp: signal_timer_after_fire_def tables_def bm_get_insert grid_after_next Let_def)
  qed
qed

lemma tables_rearm:
  assumes inv: "te_inv te"
  shows "tables (snd (signal_timer_rearm_after i t te)) =
    ((fst (tables te))(i := map_option (rearmed_timer t) (fst (tables te) i)), snd (tables te))"
  using te_invD(2) [OF inv]
  by (auto simp: tables_def signal_timer_rearm_after_def rearmed_timer_def grid_after_next bm_get_insert
      Let_def fun_upd_idem split: option.split alarm_phase.split)

lemma tables_set_copy:
  assumes inv: "te_inv te"
  shows "tables (alarm_set_copy p b te) =
    ((fst (tables te))(Alarm p := map_option (copied_timer b) (fst (tables te) (Alarm p))), snd (tables te))"
  using te_invD(2) [OF inv]
  by (auto simp: tables_def alarm_set_copy_def copied_timer_def bm_get_insert
      fun_upd_idem split: option.split alarm_phase.split)

lemma tables_settle:
  assumes inv: "te_inv te" and e: "(k, e) \<in> events te"
  shows "tables (settle_popped k e (te\<lparr>te_map := m\<rparr>)) = snd (plan_take (k, e) (W, tables te))"
proof (cases e)
  case (ThreadEvt t)
  then show ?thesis by (simp add: settle_popped_def tables_def)
next
  case (SignalEvt i tgt sg)
  note ok = te_invD(4) [OF inv]
  show ?thesis
  proof (cases "is_child_exit i")
    case True
    then have "bm_get (signal_timers te) i = None" using ok by (simp add: agenda_ok_def)
    then show ?thesis using True by (cases i) (simp_all add: SignalEvt settle_popped_def tables_def)
  next
    case False
    have due: "due (bm_get (signal_timers te)) (bm_get (controlled_real_timer_deadlines te)) i = Some (k, tgt, sg)"
      using agenda_ok_due [OF ok False] e SignalEvt by simp
    show ?thesis
    proof (cases "bm_get (signal_timers te) i")
      case None
      then obtain pid where "i = Alarm pid" "bm_get (controlled_real_timer_deadlines te) pid = Some k"
        using due by (auto simp: due_def split: signal_timer_id.splits)
      then show ?thesis
        using None by (simp add: SignalEvt settle_popped_def tables_def process_of_def bm_get_remove)
    next
      case (Some st)
      have "deadline st = k" using due Some by (auto simp: due_def split: if_splits)
      moreover have "\<not> controlled te i" by (rule timer_of_inv(2) [OF inv Some])
      ultimately show ?thesis
        using Some False te_invD(2) [OF inv]
        by (cases i) (simp_all add: SignalEvt settle_popped_def tables_def Let_def bm_get_insert bm_get_remove
            saturating_add_def min.commute)
    qed
  qed
qed

subsubsection \<open>Every call has its effect on the plan\<close>

lemma plan_take_parts:
  "plan_take p (W, tables te) = (if is_plain p then W - {p} else W, snd (plan_take p (W, tables te)))"
  by (cases p; cases "snd p") (auto simp: is_plain_def tables_def split: option.split)

lemma rearmed_plain:
  assumes "te_inv te"
  shows "plain_part (rearmed te k e) = {}"
  using te_invD(4) [OF assms]
  by (auto simp: rearmed_def plain_part_def is_plain_def agenda_ok_def split: timed_event.splits option.splits if_splits)

lemma pop_settles:
  "pop_if_before now te = Some (Some p, te') \<Longrightarrow> \<exists>m. te' = settle_popped (fst p) (snd p) (te\<lparr>te_map := m\<rparr>)"
  by (auto simp: pop_if_before_def split: list.splits if_splits prod.splits)

lemma te_step_plan_pop:
  assumes inv: "te_inv te" and step: "te_step (PopIfBefore now) te = Some te'"
  shows "plan_pop now (plan_of te) (plan_of te')"
  using pop_if_before_ok [OF inv, of now]
proof (elim disjE exE conjE)
  assume "pop_if_before now te = Some (None, te)" "\<forall>p \<in> events te. now < fst p"
  then have "te' = te" "\<forall>p \<in> events te. now < fst p" using step by simp_all
  then show ?thesis unfolding plan_pop_def agenda_of_plan [OF inv] by simp
next
  fix p te2
  assume p: "p \<in> events te" "fst p \<le> now" "\<forall>q \<in> events te. p \<le> q"
    and te2: "pop_if_before now te = Some (Some p, te2)"
      "events te2 = events te - {p} \<union> rearmed te (fst p) (snd p)"
  obtain m where m: "te2 = settle_popped (fst p) (snd p) (te\<lparr>te_map := m\<rparr>)"
    using pop_settles [OF te2(1)] by blast
  have "plain_part (events te2) =
      (if is_plain p then plain_part (events te) - {p} else plain_part (events te))"
    unfolding te2(2) using rearmed_plain [OF inv, of "fst p" "snd p"] by (auto simp: plain_part_def)
  moreover have "tables te2 = snd (plan_take p (plain_part (events te), tables te))"
    using tables_settle [OF inv, of "fst p" "snd p"] p(1) m by simp
  ultimately have "plan_of te2 = plan_take p (plan_of te)"
    unfolding plan_of_tables by (subst plan_take_parts) simp
  moreover have "te' = te2" using step te2(1) by simp
  moreover have "\<not> (\<forall>q \<in> events te. now < fst q)" using p(1,2) by (meson not_le)
  ultimately show ?thesis using p(1,3) unfolding plan_pop_def agenda_of_plan [OF inv] by auto
qed

lemma plain_without [simp]:
  "\<not> is_child_exit i \<Longrightarrow> plain_part (without i E) = plain_part E"
  by (auto simp: plain_part_def without_def is_plain_def is_signal_of_iff)

lemma plain_filter [simp]:
  "plain_part (insert (k, ThreadEvt t) E) = insert (k, ThreadEvt t) (plain_part E)"
  "plain_part (insert (k, SignalEvt i tgt sg) E) =
     (if is_child_exit i then insert (k, SignalEvt i tgt sg) (plain_part E) else plain_part E)"
  "plain_part {x \<in> E. Q x} = {x \<in> plain_part E. Q x}"
  by (auto simp: plain_part_def is_plain_def)

lemma plain_timer_event:
  "(\<And>i. P i \<Longrightarrow> \<not> is_child_exit i) \<Longrightarrow> {x \<in> plain_part E. \<not> is_timer_event P x} = plain_part E"
  by (auto simp: plain_part_def is_plain_def is_timer_event_def split: timed_event.splits)

lemma plain_named:
  assumes "te_inv te" "signal_timer_after_fire i k c now te = Some te' \<or> snd (signal_timer_rearm_after i t te) = te'"
    "without i (events te') = without i (events te)"
  shows "plain_part (events te') = plain_part (events te)"
proof (cases "is_child_exit i")
  case True
  then have "bm_get (signal_timers te) i = None" using te_invD(4) [OF assms(1)] by (simp add: agenda_ok_def)
  then have "te' = te" using assms(2) by (auto simp: signal_timer_after_fire_def signal_timer_rearm_after_def)
  then show ?thesis by simp
next
  case False
  then show ?thesis using plain_without assms(3) by metis
qed

lemma is_posix_of_plain: "is_posix_of p i \<Longrightarrow> \<not> is_child_exit i" "is_timer_of p i \<Longrightarrow> \<not> is_child_exit i"
  by (cases i; simp)+

lemma te_step_plain:
  assumes inv: "te_inv te" and pre: "te_pre c te" and step: "te_step c te = Some te'"
    and c: "\<And>now. c \<noteq> PopIfBefore now"
  shows "plain_part (events te') = fst (plan_effect c (plain_part (events te), t))"
proof -
  have spec: "agenda_spec c (events te) (events te')"
    using te_step_legal [OF inv pre] step by (simp add: te_step_ok_def)
  show ?thesis
    using spec step c
    by (cases c; cases t)
      (simp_all add: plain_timer_event is_posix_of_plain plain_named [OF inv disjI1] plain_named [OF inv disjI2], auto)
qed

lemma te_step_tables:
  assumes inv: "te_inv te" and step: "te_step c te = Some te'" and c: "\<And>now. c \<noteq> PopIfBefore now"
  shows "tables te' = snd (plan_effect c (W, tables te))"
proof (cases c)
  case (RemoveProcessTimers p)
  then obtain te1 where te1: "remove_controlled_real_timer_deadline p te = Some te1"
    "remove_signal_timers (filter (is_timer_of p) (map fst (signal_timers te1))) te1 = Some te'"
    using step by (auto simp: remove_process_timers_def bind_eq_Some_conv)
  have "te_inv te1" using remove_controlled_ok [OF inv, of p] te1(1) by auto
  from tables_remove_all [OF this te1(2)] tables_insert(3) [OF te1(1)]
  show ?thesis using RemoveProcessTimers by (cases "tables te") (simp cong: if_cong)
next
  case (InsertThread ns t)
  then show ?thesis using step tables_insert(1) [of ns t te te'] by (cases "tables te") auto
next
  case (InsertAlarm ns p t s ivl)
  then show ?thesis using step tables_insert_timer [OF inv, of "Alarm p" ns "Process t" "Send s" ivl] by (cases "tables te") (auto simp: insert_alarm_def bind_eq_Some_conv cong: if_cong)
next
  case (InsertPosixTimer ns p tgt n s ivl)
  then show ?thesis using step tables_insert_timer [OF inv, of "Posix p n" ns tgt s ivl] by (cases "tables te") (auto simp: insert_posix_timer_def cong: if_cong)
next
  case (InsertChildExit ns c p t)
  then show ?thesis using step tables_insert(2) by (cases "tables te") auto
next
  case (InsertControlled d p)
  then show ?thesis using step tables_insert_controlled [OF inv, of d p te'] by (cases "tables te") auto
next
  case (RemoveControlled p)
  then show ?thesis using step tables_insert(3) [of p te te'] by (cases "tables te") auto
next
  case (RemoveAlarm p)
  then show ?thesis using step tables_insert(4) [of "Alarm p" te] by (cases "tables te") (auto simp: remove_alarm_def bind_eq_Some_conv cong: if_cong)
next
  case (RemovePosixTimer p n)
  then show ?thesis using step tables_insert(4) [of "Posix p n" te] by (cases "tables te") (auto simp: remove_posix_timer_def cong: if_cong)
next
  case (RemovePosixTimers p)
  then show ?thesis using step tables_remove_all [OF inv, of "is_posix_of p" te'] by (cases "tables te") (auto simp: remove_posix_timers_def cong: if_cong)
next
  case (RemoveThread t)
  then show ?thesis using step tables_insert(5) [of t te te'] by (cases "tables te") auto
next
  case (SignalTimerAfterFire i fired c now)
  then show ?thesis using step tables_after_fire [OF inv, of i fired c now te'] by (cases "tables te") auto
next
  case (SignalTimerRearmAfter i t)
  then show ?thesis using step tables_rearm [OF inv, of i t] by (cases "tables te") auto
next
  case (AlarmSetCopy p b)
  then show ?thesis using step tables_set_copy [OF inv, of p b] by (cases "tables te") auto
qed (use c in simp)

lemma te_step_plan:
  assumes inv: "te_inv te" and pre: "te_pre c te"
  shows "\<exists>te'. te_step c te = Some te' \<and> te_inv te' \<and> te_spec c (plan_of te) (plan_of te')"
proof -
  obtain te' where te': "te_step c te = Some te'" "te_inv te'"
    using te_step_legal [OF inv pre] by (auto simp: te_step_ok_def)
  have "te_spec c (plan_of te) (plan_of te')"
  proof (cases "\<exists>now. c = PopIfBefore now")
    case True
    then show ?thesis using te_step_plan_pop [OF inv] te'(1) by (auto simp: te_spec_def)
  next
    case False
    then have "plan_of te' = plan_effect c (plan_of te)"
      using te_step_plain [OF inv pre te'(1)] te_step_tables [OF inv te'(1)]
      unfolding plan_of_tables by (metis prod.collapse)
    then show ?thesis using False by (cases c) (auto simp: te_spec_def)
  qed
  then show ?thesis using te' by blast
qed

interpretation te: protocol_object te_inv te_pre te_step plan_of te_spec
  by unfold_locales (rule te_step_plan)

end
