(* ===== verification/Timed_Events_Props.thy ===== *)
theory Timed_Events_Props
  imports Timed_Events_Hist
begin

text \<open>
  What the timed events promise the scheduler: no reachable panic, one event per armed timer, pops in
  the order of time, and periodic timers that stay on their grid.
\<close>

definition te_sample_calls :: "te_call list" where
  "te_sample_calls =
     [InsertThread 50 1, InsertThread 50 2, InsertAlarm 40 7 1 14 100, InsertChildExit 45 9 7 7,
      InsertPosixTimer 60 7 (Thread 2) 3 (Send 10) 0, InsertControlled 70 8, InsertControlled 20 8,
      PopIfBefore 20, PopIfBefore 45, SignalTimerAfterFire (Alarm 7) 40 (Some True) 45,
      AlarmSetCopy 7 False, SignalTimerRearmAfter (Alarm 7) 300, RemoveThread 2, RemovePosixTimer 7 3,
      InsertPosixTimer 80 7 (Process 1) 4 (RefuseRealTime 34) 5, RemovePosixTimers 7, RemoveControlled 8,
      RemoveAlarm 8, RemoveProcessTimers 7]"

lemma te_sample_calls_legal: "legal_calls te_pre te_step te_sample_calls empty_timed_events"
  by code_simp

text \<open>
  C15: no history of calls that follows the protocol makes the timed events panic: no event is queued
  twice, no inner set is empty when it is popped, the event of a timer that is cancelled is never
  found twice. Afterwards the queued signal events are exactly those due, one for each armed alarm or
  POSIX timer at its deadline, and every thread waits for at most one point of time.
\<close>

theorem timed_events_history_safe:
  assumes "legal_calls te_pre te_step cs empty_timed_events"
  shows "\<exists>te. run_calls te_step cs empty_timed_events = Some te \<and> te_inv te"
  using te.history_ok [OF te_inv_empty assms] by blast

theorem timed_events_history_safe_witness:
  "\<exists>te. run_calls te_step te_sample_calls empty_timed_events = Some te \<and> te_inv te"
  by (rule timed_events_history_safe [OF te_sample_calls_legal])

text \<open>
  C16: the timed events implement a plan: a set of thread waits and child exits, a table of alarms and
  POSIX timers, and a table of controlled real timer deadlines. Along every history that follows the
  protocol each call has exactly its effect on the plan, and no other plan than the one held is
  reached: an insertion adds its wait, arming a timer replaces the state of that timer, cancelling
  clears exactly the timers named, a timer that fired late or is re-armed moves to the next point of
  its grid, and a pop takes the least pair of the agenda, which ends a wait, a one-shot timer or a
  controlled deadline and moves a periodic timer on by its interval. The queued pairs are the agenda
  of the plan: its waits, and one signal for each armed timer and each controlled deadline.
\<close>

theorem timed_events_refine_agenda:
  assumes "legal_calls te_pre te_step cs empty_timed_events"
    and "run_calls te_step cs empty_timed_events = Some te"
  shows "(spec_run te_spec cs ({}, Map.empty, Map.empty) v \<longleftrightarrow> v = plan_of te)
    \<and> set (iter_te te) = agenda_of (plan_of te)"
proof -
  have "plan_of empty_timed_events = ({}, Map.empty, Map.empty)"
    by (simp add: plan_of_def plain_part_def empty_timed_events_def mm_pairs_def mm_iter_def bm_get_def fun_eq_iff)
  then have run: "spec_run te_spec cs ({}, Map.empty, Map.empty) (plan_of te)" and "te_inv te"
    using te.history_ok [OF te_inv_empty assms(1)] assms(2) by auto
  moreover have "v = plan_of te" if "spec_run te_spec cs ({}, Map.empty, Map.empty) v"
    using te_spec_unique that run by (rule spec_run_unique)
  ultimately show ?thesis using agenda_of_plan by (auto simp: iter_te_def mm_pairs_def)
qed

definition te_short_calls :: "te_call list" where
  "te_short_calls = [InsertThread 50 1, InsertAlarm 40 7 1 14 100, PopIfBefore 45]"

lemma te_short_calls_legal: "legal_calls te_pre te_step te_short_calls empty_timed_events"
  by code_simp

definition te_cancel_calls :: "te_call list" where
  "te_cancel_calls = te_short_calls @ [InsertControlled 70 8, InsertPosixTimer 60 7 (Thread 2) 3 (Send 10) 5,
     RemoveAlarm 7, PopIfBefore 55]"

lemma te_cancel_calls_legal: "legal_calls te_pre te_step te_cancel_calls empty_timed_events"
  by code_simp

lemma te_cancel_calls_run:
  "map_option iter_te (run_calls te_step te_cancel_calls empty_timed_events) =
     Some [(60, SignalEvt (Posix 7 3) (Thread 2) (Send 10)), (70, SignalEvt (Alarm 8) (Process 8) (Send 14))]"
  by code_simp

theorem timed_events_refine_agenda_witness:
  "\<exists>v. spec_run te_spec te_cancel_calls ({}, Map.empty, Map.empty) v
    \<and> agenda_of v =
      {(60, SignalEvt (Posix 7 3) (Thread 2) (Send 10)), (70, SignalEvt (Alarm 8) (Process 8) (Send 14))}"
proof -
  obtain te where te: "run_calls te_step te_cancel_calls empty_timed_events = Some te"
    "iter_te te = [(60, SignalEvt (Posix 7 3) (Thread 2) (Send 10)), (70, SignalEvt (Alarm 8) (Process 8) (Send 14))]"
    using te_cancel_calls_run by auto
  show ?thesis
    using timed_events_refine_agenda [OF te_cancel_calls_legal te(1), of "plan_of te"] te(2)
    by (intro exI [of _ "plan_of te"]) simp
qed

text \<open>
  C17: a pop takes the earliest event, ties broken by the order of events, and only when it is due; the
  deadline announced by \<open>next_deadline\<close> is that of the event the pop takes. A pop that takes nothing
  changes nothing.
\<close>

theorem pop_if_before_earliest:
  assumes inv: "te_inv te"
  shows "\<exists>r te'. pop_if_before now te = Some (r, te') \<and> te_inv te'
    \<and> r = (case iter_te te of [] \<Rightarrow> None | p # _ \<Rightarrow> if fst p \<le> now then Some p else None)
    \<and> next_deadline te = map_option fst (case iter_te te of [] \<Rightarrow> None | p # _ \<Rightarrow> Some p)
    \<and> (r = None \<longrightarrow> te' = te) \<and> sorted_wrt (<) (iter_te te)"
proof -
  have sorted: "sorted_wrt (<) (iter_te te)"
    using mm_iter_sorted te_invD(1) [OF inv] by (simp add: iter_te_def)
  show ?thesis
  proof (cases "te_map te")
    case Nil
    then show ?thesis
      using inv sorted by (simp add: pop_if_before_def next_deadline_def iter_te_def mm_iter_def)
  next
    case (Cons a m)
    obtain k x s where a: "a = (k, x # s)"
      using te_invD(1) [OF inv] Cons by (cases a; cases "snd a") (auto simp: mm_ok_def)
    have "iter_te te = (k, x) # map (Pair k) s @ mm_iter m"
      by (simp add: iter_te_def Cons a mm_iter_Cons)
    moreover have "\<exists>te'. pop_if_before now te = Some (if k \<le> now then Some (k, x) else None, te')
        \<and> te_inv te' \<and> (\<not> k \<le> now \<longrightarrow> te' = te)"
      using pop_if_before_ok [OF inv, of now] inv by (auto simp: pop_if_before_def Cons a)
    ultimately show ?thesis using sorted by (auto simp: next_deadline_def Cons a)
  qed
qed

definition te_short :: timed_events where
  "te_short = the (run_calls te_step te_short_calls empty_timed_events)"

lemma te_short_inv: "te_inv te_short"
  using te.history_ok [OF te_inv_empty te_short_calls_legal] by (auto simp: te_short_def)

lemma te_short_iter:
  "iter_te te_short = [(50, ThreadEvt 1), (140, SignalEvt (Alarm 7) (Process 1) (Send 14))]"
  by code_simp

theorem pop_if_before_earliest_witness:
  "\<exists>te'. pop_if_before 60 te_short = Some (Some (50, ThreadEvt 1), te') \<and> te_inv te'
    \<and> next_deadline te_short = Some 50"
  using pop_if_before_earliest [OF te_short_inv, of 60] unfolding te_short_iter by auto

subsection \<open>Draining\<close>

text \<open>The scheduler's loop: pop until nothing is due, with fuel for the number of pops.\<close>

fun drain :: "nat \<Rightarrow> logical_time \<Rightarrow> timed_events \<Rightarrow> ((logical_time \<times> timed_event) list \<times> timed_events) option" where
  "drain 0 now te = None"
| "drain (Suc n) now te = (case pop_if_before now te of
       None \<Rightarrow> None
     | Some (None, te') \<Rightarrow> Some ([], te')
     | Some (Some p, te') \<Rightarrow> map_option (\<lambda>(ps, te''). (p # ps, te'')) (drain n now te'))"

text \<open>The room the due events have left before the present: every pop uses some of it up.\<close>

definition lag :: "logical_time \<Rightarrow> agenda \<Rightarrow> nat" where
  "lag now E = (\<Sum>p \<in> E. now + 1 - fst p)"

lemma finite_events [simp]: "finite (mm_pairs m)"
  by (simp add: mm_pairs_def)

lemma lag_remove:
  assumes "finite E" "p \<in> E" "fst p \<le> now"
  shows "lag now (E - {p}) + (now + 1 - fst p) = lag now E"
  using assms by (simp add: lag_def sum.remove [of E p])

lemma lag_insert_le: "finite E \<Longrightarrow> lag now (insert p E) \<le> lag now E + (now + 1 - fst p)"
  by (cases "p \<in> E") (simp_all add: lag_def insert_absorb)

lemma rearmed_strict:
  assumes "x \<in> rearmed te k e" "k < u64_max"
  shows "k < fst x"
  using assms by (auto simp: rearmed_def saturating_add_def split: timed_event.splits option.splits if_splits)

lemma pop_lag:
  assumes now: "now < u64_max" and p: "p \<in> events te" "fst p \<le> now"
    and E': "events te' = events te - {p} \<union> rearmed te (fst p) (snd p)"
  shows "lag now (events te') < lag now (events te)"
proof -
  note rm = lag_remove [OF finite_events p]
  from rearmed_cases [of te "fst p" "snd p"] show ?thesis
  proof
    assume "rearmed te (fst p) (snd p) = {}"
    then show ?thesis using E' rm p(2) by simp
  next
    assume "\<exists>x. rearmed te (fst p) (snd p) = {x}"
    then obtain x where x: "rearmed te (fst p) (snd p) = {x}" by blast
    have "fst p < fst x" using rearmed_strict [of x te "fst p" "snd p"] x p(2) now by simp
    moreover have "lag now (events te') \<le> lag now (events te - {p}) + (now + 1 - fst x)"
      using E' x lag_insert_le [of "events te - {p}" now x] by simp
    ultimately show ?thesis using rm p(2) by linarith
  qed
qed

text \<open>
  C18: draining ends. For every time before the end of time, popping until nothing is due takes
  finitely many pops even with periodic timers, which re-arm as they are popped. The events come out
  in the order of time, all of them due, and what is left is later than the time given.
\<close>

theorem drain_terminates_in_order:
  assumes "te_inv te" and "now < u64_max"
  shows "\<exists>n ps te'. drain n now te = Some (ps, te') \<and> te_inv te' \<and> sorted (map fst ps)
    \<and> (\<forall>p \<in> set ps. fst p \<le> now) \<and> (\<forall>p \<in> set (iter_te te'). now < fst p)"
proof -
  have "\<exists>n ps te'. drain n now te = Some (ps, te') \<and> te_inv te' \<and> sorted (map fst ps)
      \<and> (\<forall>p \<in> set ps. fst p \<le> now \<and> lo \<le> fst p) \<and> (\<forall>p \<in> events te'. now < fst p)"
    if "te_inv te" "\<forall>p \<in> events te. lo \<le> fst p" for lo
    using that
  proof (induction "lag now (events te)" arbitrary: te lo rule: less_induct)
    case less
    from pop_if_before_ok [OF less.prems(1), of now] show ?case
    proof (elim disjE exE conjE)
      assume "\<forall>p \<in> events te. now < fst p" "pop_if_before now te = Some (None, te)"
      then show ?thesis using less.prems by (intro exI [of _ "Suc 0"] exI [of _ "[]"] exI [of _ te]) simp
    next
      fix p te'
      assume p: "p \<in> events te" "fst p \<le> now" "\<forall>q \<in> events te. p \<le> q"
        and te': "pop_if_before now te = Some (Some p, te')" "te_inv te'"
          "events te' = events te - {p} \<union> rearmed te (fst p) (snd p)"
      have "\<forall>q \<in> events te'. fst p \<le> fst q"
        using p(2,3) te'(3) rearmed_strict [of _ te "fst p" "snd p"] assms(2)
        by (fastforce simp: less_eq_prod_def)
      from less.hyps [OF pop_lag [OF assms(2) p(1,2) te'(3)] te'(2) this]
      obtain n ps te'' where IH: "drain n now te' = Some (ps, te'')" "te_inv te''" "sorted (map fst ps)"
        "\<forall>q \<in> set ps. fst q \<le> now \<and> fst p \<le> fst q" "\<forall>q \<in> events te''. now < fst q" by blast
      have "drain (Suc n) now te = Some (p # ps, te'')" using te'(1) IH(1) by simp
      moreover have "sorted (map fst (p # ps))" using IH(3,4) by simp
      moreover have "\<forall>q \<in> set (p # ps). fst q \<le> now \<and> lo \<le> fst q"
        using IH(4) p(1,2) less.prems(2) by (auto intro: order.trans)
      ultimately show ?thesis using IH(2,5) by blast
    qed
  qed
  from this [OF assms(1), of 0] show ?thesis by (fastforce simp: iter_te_def mm_pairs_def)
qed

theorem drain_terminates_in_order_witness:
  "\<exists>n ps te'. drain n 400 te_short = Some (ps, te') \<and> te_inv te' \<and> sorted (map fst ps)
    \<and> (\<forall>p \<in> set ps. fst p \<le> 400) \<and> (\<forall>p \<in> set (iter_te te'). 400 < fst p)"
  by (rule drain_terminates_in_order [OF te_short_inv]) code_simp

subsection \<open>Periodic timers\<close>

text \<open>
  C19: a restarted periodic timer is put at the first point of its grid after the present: the point is
  a positive number of intervals after the last expiry, later than the present, and no earlier such
  point exists, so missed periods are dropped and none is added. Where that point does not fit in 64
  bits the checked computation says so and the other one saturates.
\<close>

theorem grid_after_first_point:
  assumes "0 < ivl" and "t \<le> u64_max"
  shows "\<exists>p k. 1 \<le> k \<and> p = prev + k * ivl \<and> t < p \<and> (\<forall>j \<ge> 1. t < prev + j * ivl \<longrightarrow> p \<le> prev + j * ivl)
    \<and> checked_grid_after prev ivl t = (if p \<le> u64_max then Some p else None)
    \<and> grid_after prev ivl t = min p u64_max"
proof -
  let ?k = "(t - prev) div ivl + 1" and ?p = "prev + ((t - prev) div ivl + 1) * ivl"
  have "t - prev < ?k * ivl"
    using dividend_less_div_times [OF assms(1), of "t - prev"] by (simp add: algebra_simps)
  then have after: "t < ?p" by linarith
  have least: "?p \<le> prev + j * ivl" if "1 \<le> j" "t < prev + j * ivl" for j
  proof -
    have "t - prev < j * ivl" using that assms(1) by (cases "prev \<le> t") (auto simp: less_diff_conv2)
    then have "(t - prev) div ivl < j" using assms(1) by (simp add: div_less_iff_less_mult)
    then have "?k * ivl \<le> j * ivl" by (intro mult_le_mono1) simp
    then show ?thesis by simp
  qed
  have "checked_grid_after prev ivl t = (if ?p \<le> u64_max then Some ?p else None)"
  proof -
    have "n \<le> n * ivl" for n using assms(1) by simp
    from this [of ?k] show ?thesis
      by (auto simp: checked_grid_after_def checked_add_def checked_mul_def saturating_sub_def)
  qed
  moreover have "grid_after prev ivl t =
      (case checked_grid_after prev ivl t of None \<Rightarrow> u64_max | Some p \<Rightarrow> p)"
    using assms(1) by (simp add: grid_after_def)
  ultimately show ?thesis
    using after least by (intro exI [of _ ?p] exI [of _ ?k]) (auto simp: min_def)
qed

theorem grid_after_first_point_witness:
  "\<exists>p k. 1 \<le> k \<and> p = 40 + k * 100 \<and> 300 < p \<and> (\<forall>j \<ge> 1. 300 < 40 + j * 100 \<longrightarrow> p \<le> 40 + j * 100)
    \<and> checked_grid_after 40 100 300 = (if p \<le> u64_max then Some p else None)
    \<and> grid_after 40 100 300 = min p u64_max"
  by (rule grid_after_first_point) (simp_all add: u64_max_def)

end
