(* ===== verification/Logical_Time.thy ===== *)
theory Logical_Time
  imports Prelude
begin

text \<open>
  Points of virtual time and the local clock of a thread (detcore-model/src/time.rs). A
  \<open>LogicalTime\<close> is a \<open>u64\<close> of nanoseconds. A thread's clock counts deterministic events (system calls,
  retired conditional branches, nondeterministic instructions) and projects the counts to nanoseconds
  with floating point factors.

  Floating point: an \<open>f64\<close> is the real number it denotes, and every operation rounds the exact result
  with a function \<open>rnd\<close>, an argument of the definitions that compute with floats. Rounding to
  nearest is monotone, idempotent, exact on zero and one, and commutes with scaling by a power of two
  (the exponent range of a double is far beyond the counts of a clock); that is all the properties ask
  of it. Integer arithmetic in a checked build panics on overflow (\<open>add_u64\<close>,
  \<open>mul_u64\<close>).
\<close>

subsection \<open>Points of time\<close>

definition NANOS_PER_SEC :: nat where
  "NANOS_PER_SEC = 1000000000"

definition NANOS_PER_MILLI :: nat where
  "NANOS_PER_MILLI = 1000000"

definition NANOS_PER_MICRO :: nat where
  "NANOS_PER_MICRO = 1000"

definition MILLIS_PER_SEC :: nat where
  "MILLIS_PER_SEC = 1000"

definition MICROS_PER_SEC :: nat where
  "MICROS_PER_SEC = 1000000"

lemmas time_units = NANOS_PER_SEC_def NANOS_PER_MILLI_def NANOS_PER_MICRO_def MILLIS_PER_SEC_def
  MICROS_PER_SEC_def

definition INDEFINITE :: nat where
  "INDEFINITE = u64_max"

definition is_indefinite :: "nat \<Rightarrow> bool" where
  "is_indefinite t \<longleftrightarrow> t = INDEFINITE"

definition as_micros :: "nat \<Rightarrow> nat" where
  "as_micros t = t div NANOS_PER_MICRO"

definition as_millis :: "nat \<Rightarrow> nat" where
  "as_millis t = t div NANOS_PER_MILLI"

definition as_secs :: "nat \<Rightarrow> nat" where
  "as_secs t = t div NANOS_PER_SEC"

definition from_micros :: "nat \<Rightarrow> nat option" where
  "from_micros micros = mul_u64 micros NANOS_PER_MICRO"

definition from_millis :: "nat \<Rightarrow> nat option" where
  "from_millis millis = mul_u64 millis NANOS_PER_MILLI"

definition from_secs :: "nat \<Rightarrow> nat option" where
  "from_secs secs = mul_u64 secs NANOS_PER_SEC"

definition from_big_nanos :: "nat \<Rightarrow> nat" where
  "from_big_nanos nanos = nanos mod 2 ^ 64"

definition subsec_micros :: "nat \<Rightarrow> nat" where
  "subsec_micros t = (t div NANOS_PER_MICRO) mod MICROS_PER_SEC"

definition subsec_millis :: "nat \<Rightarrow> nat" where
  "subsec_millis t = (t div NANOS_PER_MILLI) mod MILLIS_PER_SEC"

definition subsec_nanos :: "nat \<Rightarrow> nat" where
  "subsec_nanos t = t mod NANOS_PER_SEC"

definition is_zero :: "nat \<Rightarrow> bool" where
  "is_zero t \<longleftrightarrow> t = 0"

definition duration_since :: "nat \<Rightarrow> nat \<Rightarrow> nat option" where
  "duration_since t from_t = (if t < from_t then None else Some (t - from_t))"

text \<open>The three additions: of a time, of a \<open>Duration\<close> and of a \<open>u128\<close>, both of which may exceed \<open>u64\<close>.\<close>

definition add_time :: "nat \<Rightarrow> nat \<Rightarrow> nat" where
  "add_time a b = saturating_add a b"

definition add_duration :: "nat \<Rightarrow> nat \<Rightarrow> nat" where
  "add_duration a nanos = saturating_add a (if nanos \<le> u64_max then nanos else u64_max)"

definition add_big :: "nat \<Rightarrow> nat \<Rightarrow> nat" where
  "add_big a n = saturating_add a (min n u64_max)"

record timespec =
  tv_sec :: nat
  tv_nsec :: nat

record timeval =
  tvl_sec :: nat
  tvl_usec :: nat

definition to_timespec :: "nat \<Rightarrow> timespec" where
  "to_timespec t = \<lparr>tv_sec = as_secs t, tv_nsec = subsec_nanos t\<rparr>"

definition to_timeval :: "nat \<Rightarrow> timeval" where
  "to_timeval t = \<lparr>tvl_sec = as_secs t, tvl_usec = subsec_micros t\<rparr>"

subsection \<open>Printing\<close>

fun decimal :: "nat \<Rightarrow> string" where
  "decimal n = (if n < 10 then [char_of (48 + n)] else decimal (n div 10) @ [char_of (48 + n mod 10)])"

declare decimal.simps [simp del]

fun group_digits :: "bool \<Rightarrow> string \<Rightarrow> string" where
  "group_digits first_char [] = []"
| "group_digits first_char (ch # chars) =
     (let remain = length (ch # chars);
          sep = (if \<not> first_char \<and> remain mod 3 = 0 then (if remain = 9 then ''.'' else ''_'') else [])
      in sep @ ch # group_digits False chars)"

definition display_time :: "nat \<Rightarrow> string" where
  "display_time t =
     (let chars = decimal t
      in group_digits True chars @ (if length chars \<le> 9 then ''ns'' else ''s''))"

subsection \<open>Floating point\<close>

definition f64_of :: "(real \<Rightarrow> real) \<Rightarrow> nat \<Rightarrow> real" where
  "f64_of rnd n = rnd (real n)"

definition f64_mul :: "(real \<Rightarrow> real) \<Rightarrow> real \<Rightarrow> real \<Rightarrow> real" where
  "f64_mul rnd a b = rnd (a * b)"

definition f64_div :: "(real \<Rightarrow> real) \<Rightarrow> real \<Rightarrow> real \<Rightarrow> real" where
  "f64_div rnd a b = rnd (a / b)"

definition f64_add :: "(real \<Rightarrow> real) \<Rightarrow> real \<Rightarrow> real \<Rightarrow> real" where
  "f64_add rnd a b = rnd (a + b)"

text \<open>The cast \<open>as u64\<close> truncates towards zero and saturates at both ends.\<close>

definition f64_as_u64 :: "real \<Rightarrow> nat" where
  "f64_as_u64 x = min (nat \<lfloor>x\<rfloor>) u64_max"

text \<open>What is used of IEEE rounding.\<close>

definition rounding :: "(real \<Rightarrow> real) \<Rightarrow> bool" where
  "rounding rnd \<longleftrightarrow>
     (\<forall>x y. x \<le> y \<longrightarrow> rnd x \<le> rnd y) \<and> rnd 0 = 0 \<and> rnd 1 = 1
     \<and> (\<forall>x. rnd (rnd x) = rnd x) \<and> (\<forall>x. rnd (x * 2 ^ 32) = rnd x * 2 ^ 32)"

lemma roundingD:
  assumes "rounding rnd"
  shows "x \<le> y \<Longrightarrow> rnd x \<le> rnd y" "rnd 0 = 0" "rnd 1 = 1" "rnd (x * 2 ^ 32) = rnd x * 2 ^ 32"
    "rnd (rnd x) = rnd x"
  using assms by (simp_all add: rounding_def)

lemma rounding_nonneg: "rounding rnd \<Longrightarrow> 0 \<le> x \<Longrightarrow> 0 \<le> rnd x"
  using roundingD(1) [of rnd 0 x] roundingD(2) [of rnd] by simp

lemma f64_of_mono: "rounding rnd \<Longrightarrow> a \<le> b \<Longrightarrow> f64_of rnd a \<le> f64_of rnd b"
  by (simp add: f64_of_def roundingD)

lemma f64_of_nonneg [simp]: "rounding rnd \<Longrightarrow> 0 \<le> f64_of rnd n"
  by (simp add: f64_of_def rounding_nonneg)

lemma f64_mul_mono: "rounding rnd \<Longrightarrow> a \<le> b \<Longrightarrow> 0 \<le> c \<Longrightarrow> f64_mul rnd a c \<le> f64_mul rnd b c"
  by (simp add: f64_mul_def roundingD mult_right_mono)

lemma f64_mul_nonneg [simp]: "rounding rnd \<Longrightarrow> 0 \<le> a \<Longrightarrow> 0 \<le> b \<Longrightarrow> 0 \<le> f64_mul rnd a b"
  by (simp add: f64_mul_def rounding_nonneg)

lemma f64_div_mono: "rounding rnd \<Longrightarrow> a \<le> b \<Longrightarrow> 0 \<le> c \<Longrightarrow> f64_div rnd a c \<le> f64_div rnd b c"
  by (simp add: f64_div_def roundingD divide_right_mono)

lemma f64_as_u64_mono: "x \<le> y \<Longrightarrow> f64_as_u64 x \<le> f64_as_u64 y"
  by (simp add: f64_as_u64_def floor_mono nat_mono min.coboundedI1)

lemma f64_as_u64_le [simp]: "f64_as_u64 x \<le> u64_max"
  by (simp add: f64_as_u64_def)

end
