(* ===== verification/Det_Time.thy ===== *)
theory Det_Time
  imports Logical_Time
begin

text \<open>
  The local clock of a thread, \<open>DetTime\<close> of detcore-model/src/time.rs: event counters, and their
  projection to nanoseconds.
\<close>

definition NANOS_PER_SYSCALL :: real where
  "NANOS_PER_SYSCALL = 10000"

definition NANOS_PER_RCB :: real where
  "NANOS_PER_RCB = 10"

definition NANOS_PER_NONDET_INSTR :: real where
  "NANOS_PER_NONDET_INSTR = 25"

definition RCB_TIME_MULTIPLIER_SCALE :: nat where
  "RCB_TIME_MULTIPLIER_SCALE = 2 ^ 32"

definition u128_max :: nat where
  "u128_max = 340282366920938463463374607431768211455"

definition add_u128 :: "nat \<Rightarrow> nat \<Rightarrow> nat option" where
  "add_u128 a b = (if a + b \<le> u128_max then Some (a + b) else None)"

lemmas nanos_defs = NANOS_PER_SYSCALL_def NANOS_PER_RCB_def NANOS_PER_NONDET_INSTR_def
  RCB_TIME_MULTIPLIER_SCALE_def

text \<open>The Q32 multiplier for branch counts: its units.\<close>

definition rcb_multiplier_from_f64 :: "(real \<Rightarrow> real) \<Rightarrow> real \<Rightarrow> nat option" where
  "rcb_multiplier_from_f64 rnd value = do {
     assert_that (0 < value \<and> value \<le> f64_div rnd (f64_of rnd u64_max) (f64_of rnd RCB_TIME_MULTIPLIER_SCALE));
     let scaled = f64_as_u64 (of_int \<lfloor>f64_mul rnd value (f64_of rnd RCB_TIME_MULTIPLIER_SCALE) + 1 / 2\<rfloor>);
     Some (max scaled 1)
   }"

record det_time =
  syscalls :: nat
  syscall_nanos :: "nat option"
  rcbs :: nat
  weighted_rcbs :: "nat option"
  nondet_instrs :: nat
  extra_nanos :: nat
  starting_micros :: nat
  multiplier :: real
  inherited_nanos :: nat

definition det_time_zero :: det_time where
  "det_time_zero =
     \<lparr>syscalls = 0, syscall_nanos = Some 0, rcbs = 0, weighted_rcbs = None, nondet_instrs = 0,
      extra_nanos = 0, starting_micros = 0, multiplier = 1, inherited_nanos = 0\<rparr>"

definition with_multiplier :: "real \<Rightarrow> det_time \<Rightarrow> det_time" where
  "with_multiplier m t = t\<lparr>multiplier := m\<rparr>"

text \<open>\<open>From<&DateTime>\<close>: the epoch in microseconds, the rest as in \<open>zero\<close>.\<close>

definition det_time_from_epoch :: "nat \<Rightarrow> det_time" where
  "det_time_from_epoch micros = det_time_zero\<lparr>starting_micros := micros\<rparr>"

definition det_time_new :: "(real \<Rightarrow> real) \<Rightarrow> nat \<Rightarrow> real option \<Rightarrow> bool \<Rightarrow> bool \<Rightarrow> det_time" where
  "det_time_new rnd epoch_micros clock_multiplier sequentialize_threads use_rcb_time =
     (let additional_multiplier = (if sequentialize_threads \<and> \<not> use_rcb_time then 500 else 1)
      in case clock_multiplier of
           Some m \<Rightarrow> with_multiplier (f64_mul rnd m additional_multiplier) (det_time_from_epoch epoch_micros)
         | None \<Rightarrow> with_multiplier additional_multiplier (det_time_from_epoch epoch_micros))"

subsection \<open>Projections\<close>

definition uniform_syscall_nanos :: "(real \<Rightarrow> real) \<Rightarrow> det_time \<Rightarrow> nat" where
  "uniform_syscall_nanos rnd t = f64_as_u64 (f64_mul rnd (f64_of rnd (syscalls t)) NANOS_PER_SYSCALL)"

definition current_syscall_nanos :: "(real \<Rightarrow> real) \<Rightarrow> det_time \<Rightarrow> nat" where
  "current_syscall_nanos rnd t =
     (case syscall_nanos t of Some n \<Rightarrow> n | None \<Rightarrow> uniform_syscall_nanos rnd t)"

definition rcb_nanos :: "(real \<Rightarrow> real) \<Rightarrow> det_time \<Rightarrow> real" where
  "rcb_nanos rnd t = (case weighted_rcbs t of
       None \<Rightarrow> f64_mul rnd (f64_of rnd (rcbs t)) NANOS_PER_RCB
     | Some weighted \<Rightarrow>
         f64_div rnd (f64_mul rnd (f64_of rnd weighted) NANOS_PER_RCB)
           (f64_of rnd RCB_TIME_MULTIPLIER_SCALE))"

definition system_cpu_time :: "(real \<Rightarrow> real) \<Rightarrow> det_time \<Rightarrow> nat" where
  "system_cpu_time rnd t =
     f64_as_u64 (f64_mul rnd (f64_of rnd (current_syscall_nanos rnd t)) (multiplier t))"

definition user_cpu_time :: "(real \<Rightarrow> real) \<Rightarrow> det_time \<Rightarrow> nat" where
  "user_cpu_time rnd t =
     f64_as_u64 (f64_mul rnd
       (f64_add rnd (rcb_nanos rnd t) (f64_mul rnd (f64_of rnd (nondet_instrs t)) NANOS_PER_NONDET_INSTR))
       (multiplier t))"

definition rcb_part :: "(real \<Rightarrow> real) \<Rightarrow> det_time \<Rightarrow> nat" where
  "rcb_part rnd t = f64_as_u64 (f64_mul rnd (rcb_nanos rnd t) (multiplier t))"

definition nondet_part :: "(real \<Rightarrow> real) \<Rightarrow> det_time \<Rightarrow> nat" where
  "nondet_part rnd t =
     f64_as_u64 (f64_mul rnd
       (f64_mul rnd (f64_of rnd (nondet_instrs t)) NANOS_PER_NONDET_INSTR) (multiplier t))"

definition as_nanos :: "(real \<Rightarrow> real) \<Rightarrow> det_time \<Rightarrow> nat option" where
  "as_nanos rnd t = do {
     s0 \<leftarrow> mul_u64 (starting_micros t) 1000;
     s1 \<leftarrow> add_u64 s0 (extra_nanos t);
     s2 \<leftarrow> add_u64 s1 (system_cpu_time rnd t);
     s3 \<leftarrow> add_u64 s2 (rcb_part rnd t);
     add_u64 s3 (nondet_part rnd t)
   }"

definition without_starting :: "(real \<Rightarrow> real) \<Rightarrow> det_time \<Rightarrow> nat option" where
  "without_starting rnd t = do {
     t1 \<leftarrow> as_nanos rnd t;
     s0 \<leftarrow> mul_u64 (starting_micros t) 1000;
     sub_u64 t1 s0
   }"

text \<open>Conversions between durations and branch counts.\<close>

definition from_rcbs :: "(real \<Rightarrow> real) \<Rightarrow> nat \<Rightarrow> nat" where
  "from_rcbs rnd n = f64_as_u64 (f64_mul rnd (f64_of rnd n) NANOS_PER_RCB)"

definition into_rcbs :: "(real \<Rightarrow> real) \<Rightarrow> nat \<Rightarrow> nat" where
  "into_rcbs rnd t = f64_as_u64 (f64_div rnd (f64_of rnd t) NANOS_PER_RCB)"

definition into_rcbs_with_multiplier :: "(real \<Rightarrow> real) \<Rightarrow> nat \<Rightarrow> real \<Rightarrow> nat option" where
  "into_rcbs_with_multiplier rnd t m = do {
     assert_that (0 < m);
     Some (f64_as_u64 (of_int \<lfloor>f64_div rnd (f64_of rnd t) (f64_mul rnd NANOS_PER_RCB m)\<rfloor>))
   }"

subsection \<open>Events\<close>

definition clone_for_child :: "(real \<Rightarrow> real) \<Rightarrow> det_time \<Rightarrow> det_time option" where
  "clone_for_child rnd t = do {
     elapsed \<leftarrow> without_starting rnd t;
     Some (t\<lparr>inherited_nanos := elapsed\<rparr>)
   }"

definition add_syscall_with_cost :: "(real \<Rightarrow> real) \<Rightarrow> nat \<Rightarrow> det_time \<Rightarrow> det_time option" where
  "add_syscall_with_cost rnd nanos t = do {
     let previous_uniform_nanos = uniform_syscall_nanos rnd t;
     n \<leftarrow> add_u64 (syscalls t) 1;
     total \<leftarrow> (case syscall_nanos t of
         Some sn \<Rightarrow> add_u64 sn nanos
       | None \<Rightarrow> add_u64 previous_uniform_nanos nanos);
     Some (t\<lparr>syscalls := n, syscall_nanos := Some total\<rparr>)
   }"

definition add_syscall :: "(real \<Rightarrow> real) \<Rightarrow> det_time \<Rightarrow> det_time option" where
  "add_syscall rnd t = add_syscall_with_cost rnd (f64_as_u64 NANOS_PER_SYSCALL) t"

definition add_nondet_instr :: "det_time \<Rightarrow> det_time option" where
  "add_nondet_instr t = do {
     n \<leftarrow> add_u64 (nondet_instrs t) 1;
     Some (t\<lparr>nondet_instrs := n\<rparr>)
   }"

definition add_rcbs :: "nat \<Rightarrow> det_time \<Rightarrow> det_time option" where
  "add_rcbs n t = do {
     w \<leftarrow> (case weighted_rcbs t of
         None \<Rightarrow> Some None
       | Some weighted \<Rightarrow> map_option Some (add_u128 weighted (n * RCB_TIME_MULTIPLIER_SCALE)));
     total \<leftarrow> add_u64 (rcbs t) n;
     Some (t\<lparr>weighted_rcbs := w, rcbs := total\<rparr>)
   }"

definition add_rcbs_with_multiplier :: "nat \<Rightarrow> nat \<Rightarrow> det_time \<Rightarrow> det_time option" where
  "add_rcbs_with_multiplier n units t = do {
     let weighted = (case weighted_rcbs t of None \<Rightarrow> rcbs t * RCB_TIME_MULTIPLIER_SCALE | Some w \<Rightarrow> w);
     w \<leftarrow> add_u128 weighted (n * units);
     total \<leftarrow> add_u64 (rcbs t) n;
     Some (t\<lparr>weighted_rcbs := Some w, rcbs := total\<rparr>)
   }"

definition advance_to :: "(real \<Rightarrow> real) \<Rightarrow> nat \<Rightarrow> det_time \<Rightarrow> det_time option" where
  "advance_to rnd deadline t = do {
     current \<leftarrow> as_nanos rnd t;
     assert_that (current \<le> deadline);
     d \<leftarrow> sub_u64 deadline current;
     n \<leftarrow> add_u64 (extra_nanos t) d;
     Some (t\<lparr>extra_nanos := n\<rparr>)
   }"

definition det_as_micros :: "(real \<Rightarrow> real) \<Rightarrow> det_time \<Rightarrow> nat option" where
  "det_as_micros rnd t = map_option (\<lambda>n. n div 1000) (as_nanos rnd t)"

definition as_duration :: "(real \<Rightarrow> real) \<Rightarrow> det_time \<Rightarrow> nat option" where
  "as_duration rnd t = do {
     n \<leftarrow> as_nanos rnd t;
     s0 \<leftarrow> mul_u64 (starting_micros t) 1000;
     sub_u64 n s0
   }"

text \<open>The order of local clocks is the order of their projections.\<close>

definition det_time_le :: "(real \<Rightarrow> real) \<Rightarrow> det_time \<Rightarrow> det_time \<Rightarrow> bool option" where
  "det_time_le rnd a b = do {
     y \<leftarrow> as_nanos rnd b;
     x \<leftarrow> as_nanos rnd a;
     Some (x \<le> y)
   }"

subsection \<open>Events and their effect on the projection\<close>

datatype clock_event =
    Syscall nat
  | NondetInstr
  | Rcbs nat
  | WeightedRcbs nat nat
  | AdvanceTo nat

fun tick :: "(real \<Rightarrow> real) \<Rightarrow> clock_event \<Rightarrow> det_time \<Rightarrow> det_time option" where
  "tick rnd (Syscall nanos) t = add_syscall_with_cost rnd nanos t"
| "tick rnd NondetInstr t = add_nondet_instr t"
| "tick rnd (Rcbs n) t = add_rcbs n t"
| "tick rnd (WeightedRcbs n units) t = add_rcbs_with_multiplier n units t"
| "tick rnd (AdvanceTo deadline) t = advance_to rnd deadline t"

lemma add_u64_Some [simp]: "add_u64 a b = Some c \<longleftrightarrow> a + b \<le> u64_max \<and> c = a + b"
  by (auto simp: add_u64_def)

lemma mul_u64_Some [simp]: "mul_u64 a b = Some c \<longleftrightarrow> a * b \<le> u64_max \<and> c = a * b"
  by (auto simp: mul_u64_def)

lemma add_u128_Some [simp]: "add_u128 a b = Some c \<longleftrightarrow> a + b \<le> u128_max \<and> c = a + b"
  by (auto simp: add_u128_def)

lemma as_nanos_Some:
  "as_nanos rnd t = Some n \<longleftrightarrow>
     n = starting_micros t * 1000 + extra_nanos t + system_cpu_time rnd t + rcb_part rnd t + nondet_part rnd t
     \<and> n \<le> u64_max"
  by (auto simp: as_nanos_def bind_eq_Some_conv)

text \<open>Branch counts weigh at least as much after an update, also the first weighted one.\<close>

lemma weighted_rcb_mono:
  assumes rnd: "rounding rnd" and w: "case weighted_rcbs t of None \<Rightarrow> rcbs t * RCB_TIME_MULTIPLIER_SCALE \<le> w | Some v \<Rightarrow> v \<le> w"
  shows "rcb_nanos rnd t \<le> rcb_nanos rnd (t\<lparr>weighted_rcbs := Some w, rcbs := n\<rparr>)"
proof (cases "weighted_rcbs t")
  case (Some v)
  then show ?thesis
    using rnd w by (simp add: rcb_nanos_def nanos_defs f64_div_mono f64_mul_mono f64_of_mono)
next
  case None
  let ?s = "f64_of rnd RCB_TIME_MULTIPLIER_SCALE"
  have s: "?s = 2 ^ 32"
    using roundingD(3) [OF rnd] roundingD(4) [OF rnd, of 1] by (simp add: f64_of_def nanos_defs)
  have scaled: "f64_of rnd (rcbs t * RCB_TIME_MULTIPLIER_SCALE) = f64_of rnd (rcbs t) * 2 ^ 32"
    using roundingD(4) [OF rnd, of "real (rcbs t)"] by (simp add: f64_of_def nanos_defs)
  let ?x = "f64_mul rnd (f64_of rnd (rcbs t)) 10"
  have "f64_of rnd (rcbs t) * 2 ^ 32 \<le> f64_of rnd w"
    using f64_of_mono [OF rnd, of "rcbs t * RCB_TIME_MULTIPLIER_SCALE" w] w None by (simp add: scaled)
  then have "f64_mul rnd (f64_of rnd (rcbs t) * 2 ^ 32) 10 \<le> f64_mul rnd (f64_of rnd w) 10"
    using rnd by (intro f64_mul_mono) simp_all
  moreover have "f64_mul rnd (f64_of rnd (rcbs t) * 2 ^ 32) 10 = ?x * 2 ^ 32"
    using roundingD(4) [OF rnd, of "f64_of rnd (rcbs t) * 10"] by (simp add: f64_mul_def mult.commute mult.left_commute)
  ultimately have "f64_div rnd (?x * 2 ^ 32) ?s \<le> f64_div rnd (f64_mul rnd (f64_of rnd w) 10) ?s"
    using rnd s by (intro f64_div_mono) simp_all
  moreover have "f64_div rnd (?x * 2 ^ 32) ?s = ?x"
    using roundingD(5) [OF rnd] unfolding s f64_div_def f64_mul_def by simp
  ultimately show ?thesis using None by (simp add: rcb_nanos_def nanos_defs)
qed

lemma system_cpu_time_mono:
  assumes "rounding rnd" "0 \<le> multiplier t" "multiplier t' = multiplier t"
    "current_syscall_nanos rnd t \<le> current_syscall_nanos rnd t'"
  shows "system_cpu_time rnd t \<le> system_cpu_time rnd t'"
  using assms by (simp add: system_cpu_time_def f64_as_u64_mono f64_mul_mono f64_of_mono)

lemma rcb_part_mono:
  assumes "rounding rnd" "0 \<le> multiplier t" "multiplier t' = multiplier t" "rcb_nanos rnd t \<le> rcb_nanos rnd t'"
  shows "rcb_part rnd t \<le> rcb_part rnd t'"
  using assms by (simp add: rcb_part_def f64_as_u64_mono f64_mul_mono)

lemma nondet_part_mono:
  assumes "rounding rnd" "0 \<le> multiplier t" "multiplier t' = multiplier t" "nondet_instrs t \<le> nondet_instrs t'"
  shows "nondet_part rnd t \<le> nondet_part rnd t'"
  using assms
  by (simp add: nondet_part_def f64_as_u64_mono f64_mul_mono f64_of_mono NANOS_PER_NONDET_INSTR_def)

lemma as_nanos_mono:
  assumes "as_nanos rnd t = Some n" "as_nanos rnd t' = Some n'"
    and "starting_micros t' = starting_micros t" "extra_nanos t \<le> extra_nanos t'"
      "system_cpu_time rnd t \<le> system_cpu_time rnd t'" "rcb_part rnd t \<le> rcb_part rnd t'"
      "nondet_part rnd t \<le> nondet_part rnd t'"
  shows "n \<le> n'"
  using assms by (simp add: as_nanos_Some)

text \<open>The shapes of a successful tick.\<close>

lemma tickE:
  assumes "tick rnd ev t = Some t'"
  obtains (syscall) k s where "t' = t\<lparr>syscalls := k, syscall_nanos := Some s\<rparr>" "current_syscall_nanos rnd t \<le> s"
  | (nondet) k where "t' = t\<lparr>nondet_instrs := k\<rparr>" "nondet_instrs t \<le> k"
  | (uniform) k where "t' = t\<lparr>weighted_rcbs := None, rcbs := k\<rparr>" "rcbs t \<le> k" "weighted_rcbs t = None"
  | (weighted) k w where "t' = t\<lparr>weighted_rcbs := Some w, rcbs := k\<rparr>"
      "case weighted_rcbs t of None \<Rightarrow> rcbs t * RCB_TIME_MULTIPLIER_SCALE \<le> w | Some v \<Rightarrow> v \<le> w"
  | (advance) x where "t' = t\<lparr>extra_nanos := x\<rparr>" "extra_nanos t \<le> x"
proof (cases ev)
  case (Syscall c)
  with assms that(1) show ?thesis
    by (auto simp: add_syscall_with_cost_def current_syscall_nanos_def bind_eq_Some_conv split: option.splits)
next
  case NondetInstr
  with assms that(2) show ?thesis by (auto simp: add_nondet_instr_def bind_eq_Some_conv)
next
  case (Rcbs n)
  with assms that(3,4) show ?thesis by (auto simp: add_rcbs_def bind_eq_Some_conv split: option.splits)
next
  case (WeightedRcbs n u)
  with assms that(4) show ?thesis
    by (auto simp: add_rcbs_with_multiplier_def bind_eq_Some_conv split: option.splits)
next
  case (AdvanceTo d)
  with assms that(5) show ?thesis
    by (auto simp: advance_to_def bind_eq_Some_conv split: if_splits)
qed

lemma rcb_nanos_cong:
  "rcbs t' = rcbs t \<Longrightarrow> weighted_rcbs t' = weighted_rcbs t \<Longrightarrow> rcb_nanos rnd t' = rcb_nanos rnd t"
  by (simp add: rcb_nanos_def split: option.split)

lemma current_syscall_nanos_cong:
  "syscalls t' = syscalls t \<Longrightarrow> syscall_nanos t' = syscall_nanos t
   \<Longrightarrow> current_syscall_nanos rnd t' = current_syscall_nanos rnd t"
  by (simp add: current_syscall_nanos_def uniform_syscall_nanos_def split: option.split)

lemma projections_unchanged [simp]:
  "rcb_nanos rnd (t\<lparr>extra_nanos := x\<rparr>) = rcb_nanos rnd t"
  "rcb_nanos rnd (t\<lparr>inherited_nanos := x\<rparr>) = rcb_nanos rnd t"
  "current_syscall_nanos rnd (t\<lparr>extra_nanos := x\<rparr>) = current_syscall_nanos rnd t"
  "current_syscall_nanos rnd (t\<lparr>inherited_nanos := x\<rparr>) = current_syscall_nanos rnd t"
  by (rule rcb_nanos_cong current_syscall_nanos_cong; simp)+

lemma parts_unchanged [simp]:
  "system_cpu_time rnd (t\<lparr>extra_nanos := x\<rparr>) = system_cpu_time rnd t"
  "system_cpu_time rnd (t\<lparr>inherited_nanos := x\<rparr>) = system_cpu_time rnd t"
  "rcb_part rnd (t\<lparr>extra_nanos := x\<rparr>) = rcb_part rnd t"
  "rcb_part rnd (t\<lparr>inherited_nanos := x\<rparr>) = rcb_part rnd t"
  "nondet_part rnd (t\<lparr>extra_nanos := x\<rparr>) = nondet_part rnd t"
  "nondet_part rnd (t\<lparr>inherited_nanos := x\<rparr>) = nondet_part rnd t"
  by (simp_all add: system_cpu_time_def rcb_part_def nondet_part_def)

lemma as_nanos_inherited [simp]: "as_nanos rnd (t\<lparr>inherited_nanos := x\<rparr>) = as_nanos rnd t"
  by (simp add: as_nanos_def)

lemma tick_parts:
  assumes rnd: "rounding rnd" and step: "tick rnd ev t = Some t'"
  shows "multiplier t' = multiplier t" "starting_micros t' = starting_micros t" "extra_nanos t \<le> extra_nanos t'"
    "nondet_instrs t \<le> nondet_instrs t'"
  using step by (rule tickE; simp)+

lemma tick_syscall_nanos:
  assumes "tick rnd ev t = Some t'"
  shows "current_syscall_nanos rnd t \<le> current_syscall_nanos rnd t'"
  using assms
proof (cases rule: tickE)
  case (syscall k s)
  then show ?thesis by (simp add: current_syscall_nanos_def [of _ "t\<lparr>syscalls := k, syscall_nanos := Some s\<rparr>"])
qed (auto intro!: eq_refl [OF current_syscall_nanos_cong])

lemma tick_rcb_nanos:
  assumes rnd: "rounding rnd" and step: "tick rnd ev t = Some t'"
  shows "rcb_nanos rnd t \<le> rcb_nanos rnd t'"
  using step
proof (cases rule: tickE)
  case (uniform k)
  then show ?thesis
    by (simp add: rcb_nanos_def f64_mul_mono [OF rnd] f64_of_mono [OF rnd] NANOS_PER_RCB_def)
next
  case (weighted k w)
  then show ?thesis using weighted_rcb_mono [OF rnd] by simp
qed (auto intro!: eq_refl [OF rcb_nanos_cong])

text \<open>
  C23: a local clock never runs backwards. Whatever happens to a thread (a system call of any cost, a
  nondeterministic instruction, branches counted uniformly or with a multiplier, the first weighted
  count after uniform ones included, an explicit advance), its time in nanoseconds afterwards is at
  least what it was, for any rounding to nearest and any clock multiplier that is not negative.
\<close>

theorem local_clock_monotone:
  assumes rnd: "rounding rnd" and m: "0 \<le> multiplier t" and step: "tick rnd ev t = Some t'"
    and before: "as_nanos rnd t = Some n" and after: "as_nanos rnd t' = Some n'"
  shows "n \<le> n'"
proof (rule as_nanos_mono [OF before after])
  note parts = tick_parts [OF rnd step] tick_syscall_nanos [OF step] tick_rcb_nanos [OF rnd step]
  show "starting_micros t' = starting_micros t" "extra_nanos t \<le> extra_nanos t'" by (fact parts)+
  show "system_cpu_time rnd t \<le> system_cpu_time rnd t'" by (rule system_cpu_time_mono [OF rnd m parts(1,5)])
  show "nondet_part rnd t \<le> nondet_part rnd t'" by (rule nondet_part_mono [OF rnd m parts(1,4)])
  show "rcb_part rnd t \<le> rcb_part rnd t'" by (rule rcb_part_mono [OF rnd m parts(1,6)])
qed

lemma rounding_id: "rounding (\<lambda>x. x)"
  by (simp add: rounding_def)

lemma f64_as_u64_of_nat [simp]: "f64_as_u64 (real n) = min n u64_max"
  by (simp add: f64_as_u64_def)

theorem local_clock_monotone_witness:
  "tick (\<lambda>x. x) (WeightedRcbs 6 (2 ^ 33)) det_time_zero =
     Some (det_time_zero\<lparr>weighted_rcbs := Some (6 * 2 ^ 33), rcbs := 6\<rparr>)
   \<and> as_nanos (\<lambda>x. x) det_time_zero = Some 0
   \<and> as_nanos (\<lambda>x. x) (det_time_zero\<lparr>weighted_rcbs := Some (6 * 2 ^ 33), rcbs := 6\<rparr>) = Some 120
   \<and> (0::nat) \<le> 120"
proof -
  let ?t' = "det_time_zero\<lparr>weighted_rcbs := Some (6 * 2 ^ 33), rcbs := 6\<rparr>"
  have t: "tick (\<lambda>x. x) (WeightedRcbs 6 (2 ^ 33)) det_time_zero = Some ?t'"
    by (simp add: add_rcbs_with_multiplier_def det_time_zero_def add_u128_def add_u64_def u128_max_def
        u64_max_def)
  note defs = as_nanos_Some det_time_zero_def system_cpu_time_def current_syscall_nanos_def rcb_part_def
    rcb_nanos_def nondet_part_def f64_mul_def f64_div_def f64_of_def nanos_defs f64_as_u64_def u64_max_def
  have n: "as_nanos (\<lambda>x. x) det_time_zero = Some 0" by (simp add: defs)
  have n': "as_nanos (\<lambda>x. x) ?t' = Some 120" by (simp add: defs)
  have "(0::nat) \<le> 120"
    using local_clock_monotone [OF rounding_id _ t n n'] by simp
  then show ?thesis using t n n' by blast
qed

lemma add_u64_split: "add_u64 x (a + b) = (add_u64 x a \<bind> (\<lambda>y. add_u64 y b))"
  by (auto simp: add_u64_def)

lemma add_u128_split: "add_u128 x (a + b) = (add_u128 x a \<bind> (\<lambda>y. add_u128 y b))"
  by (auto simp: add_u128_def)

text \<open>
  C24: branch counts may be reported in batches of any size. Counting \<open>a\<close> branches and then \<open>b\<close> with
  the same multiplier leaves the clock in exactly the state of counting them at once, panics included,
  and the same holds of uniform counts.
\<close>

theorem rcb_batching_independent:
  "add_rcbs_with_multiplier (a + b) units t =
     (add_rcbs_with_multiplier a units t \<bind> add_rcbs_with_multiplier b units)
   \<and> add_rcbs (a + b) t = (add_rcbs a t \<bind> add_rcbs b)"
proof
  define w where "w = (case weighted_rcbs t of None \<Rightarrow> rcbs t * RCB_TIME_MULTIPLIER_SCALE | Some w \<Rightarrow> w)"
  show "add_rcbs_with_multiplier (a + b) units t =
     (add_rcbs_with_multiplier a units t \<bind> add_rcbs_with_multiplier b units)"
    unfolding add_rcbs_with_multiplier_def w_def [symmetric] add_mult_distrib add_u64_split add_u128_split
    by (cases "add_u128 w (a * units)"; cases "add_u64 (rcbs t) a")
      (auto simp: Let_def Option.bind_assoc simp del: add_u64_Some add_u128_Some cong: bind_option_cong)
  show "add_rcbs (a + b) t = (add_rcbs a t \<bind> add_rcbs b)"
  proof (cases "weighted_rcbs t")
    case None
    then show ?thesis
      unfolding add_rcbs_def add_u64_split by (cases "add_u64 (rcbs t) a") (simp_all del: add_u64_Some)
  next
    case (Some v)
    show ?thesis
      unfolding add_rcbs_def Some option.case add_mult_distrib add_u64_split add_u128_split
      by (cases "add_u128 v (a * RCB_TIME_MULTIPLIER_SCALE)"; cases "add_u64 (rcbs t) a")
        (simp_all add: map_option_bind Option.bind_assoc del: add_u64_Some add_u128_Some
          cong: bind_option_cong)
  qed
qed

text \<open>
  A new thread inherits the absolute clock of its creator and none of its work: the child's time is
  the same, and its elapsed time at birth is the inherited part.
  An explicit advance of a clock puts it at the deadline exactly, never past it.
\<close>

theorem inherited_clock_and_advance:
  assumes "as_nanos rnd t = Some n" "n \<le> d" "d \<le> u64_max"
  shows "(\<exists>c. clone_for_child rnd t = Some c \<and> as_nanos rnd c = Some n
      \<and> without_starting rnd c = Some (inherited_nanos c))
    \<and> (\<exists>t'. advance_to rnd d t = Some t' \<and> as_nanos rnd t' = Some d)"
proof
  have start: "mul_u64 (starting_micros t) 1000 = Some (starting_micros t * 1000)"
    using assms(1) by (simp add: as_nanos_Some)
  have "starting_micros t * 1000 \<le> n"
    using assms(1) by (simp add: as_nanos_Some)
  then show "\<exists>c. clone_for_child rnd t = Some c \<and> as_nanos rnd c = Some n
      \<and> without_starting rnd c = Some (inherited_nanos c)"
    using assms(1) start
    by (simp add: clone_for_child_def without_starting_def sub_u64_def del: mul_u64_Some)
  have "add_u64 (extra_nanos t) (d - n) = Some (extra_nanos t + (d - n))"
    using assms by (simp add: as_nanos_Some)
  then show "\<exists>t'. advance_to rnd d t = Some t' \<and> as_nanos rnd t' = Some d"
    using assms by (simp add: advance_to_def sub_u64_def del: add_u64_Some) (simp add: as_nanos_Some)
qed

lemma as_nanos_zero: "as_nanos (\<lambda>x. x) det_time_zero = Some 0"
  by (simp add: as_nanos_Some det_time_zero_def system_cpu_time_def current_syscall_nanos_def rcb_part_def
      rcb_nanos_def nondet_part_def f64_mul_def f64_of_def f64_as_u64_def)

theorem inherited_clock_and_advance_witness:
  "as_nanos (\<lambda>x. x) det_time_zero = Some 0
   \<and> (\<exists>c. clone_for_child (\<lambda>x. x) det_time_zero = Some c \<and> as_nanos (\<lambda>x. x) c = Some 0)
   \<and> (\<exists>t'. advance_to (\<lambda>x. x) 5000 det_time_zero = Some t' \<and> as_nanos (\<lambda>x. x) t' = Some 5000)"
  using inherited_clock_and_advance [OF as_nanos_zero, of 5000] as_nanos_zero by (auto simp: u64_max_def)

end
