(* ===== verification/Global_Time.thy ===== *)
theory Global_Time
  imports Det_Time Protocol "HOL-Library.AList"
begin

text \<open>
  The global clock of a container, \<open>GlobalTime\<close> of detcore-model/src/time.rs: the work of every thread
  (its local duration less what it inherited from its creator), the time the scheduler charges, and a
  cached total that every update checks against the sum.

  The two hash maps are association lists with distinct keys. The order of a hash map is unspecified;
  the sum is shown not to depend on it.
\<close>

definition NANOS_PER_SCHED :: real where
  "NANOS_PER_SCHED = 500000"

definition MAX_SCHEDULER_TURN_COST :: nat where
  "MAX_SCHEDULER_TURN_COST = 1000000000"

record global_time =
  starting_nanos :: nat
  time_vector :: "(det_tid \<times> nat) list"
  inherited_time :: "(det_tid \<times> nat) list"
  extra_time :: nat
  total :: nat
  global_multiplier :: real
  turn_charge :: "nat option"

record clock_exhausted =
  charge :: nat
  at_total :: nat

subsection \<open>Configuration of the turn charge\<close>

text \<open>\<open>Config::scheduler_turn_charge\<close>; the error is the message, kept as which check refused.\<close>

datatype turn_cost_error = CostTooLarge nat | ChargeOutOfRange nat real

definition scheduler_turn_charge ::
  "(real \<Rightarrow> real) \<Rightarrow> real option \<Rightarrow> nat option \<Rightarrow> turn_cost_error + nat" where
  "scheduler_turn_charge rnd clock_multiplier scheduler_turn_cost =
     (let m = (case clock_multiplier of Some m \<Rightarrow> m | None \<Rightarrow> 1)
      in case scheduler_turn_cost of
           None \<Rightarrow> Inr (f64_as_u64 (f64_mul rnd NANOS_PER_SCHED m))
         | Some cost \<Rightarrow>
             if MAX_SCHEDULER_TURN_COST < cost then Inl (CostTooLarge cost)
             else let c = f64_mul rnd (f64_of rnd cost) m
                  in if \<not> (1 \<le> c \<and> c \<le> f64_of rnd MAX_SCHEDULER_TURN_COST)
                     then Inl (ChargeOutOfRange cost c)
                     else Inr (f64_as_u64 c))"

text \<open>The epoch in microseconds, from the seconds and the microseconds of its \<open>DateTime\<close>.\<close>

definition micros_from_utc :: "int \<Rightarrow> nat \<Rightarrow> nat option" where
  "micros_from_utc timestamp subsec = do {
     a \<leftarrow> mul_u64 (nat (timestamp mod 2 ^ 64)) 1000000;
     add_u64 a subsec
   }"

definition global_time_new ::
  "(real \<Rightarrow> real) \<Rightarrow> int \<Rightarrow> nat \<Rightarrow> real option \<Rightarrow> bool \<Rightarrow> bool \<Rightarrow> nat option \<Rightarrow> global_time option" where
  "global_time_new rnd timestamp subsec clock_multiplier sequentialize use_rcb turn_cost = do {
     epoch \<leftarrow> micros_from_utc timestamp subsec;
     let base = det_time_new rnd epoch clock_multiplier sequentialize use_rcb;
     start \<leftarrow> from_micros epoch;
     now \<leftarrow> as_nanos rnd base;
     c \<leftarrow> (case turn_cost of
         None \<Rightarrow> Some None
       | Some _ \<Rightarrow> (case scheduler_turn_charge rnd clock_multiplier turn_cost of
             Inl _ \<Rightarrow> None
           | Inr n \<Rightarrow> Some (Some n)));
     Some \<lparr>starting_nanos = start, time_vector = [], inherited_time = [], extra_time = 0, total = now,
           global_multiplier = (case clock_multiplier of Some m \<Rightarrow> m | None \<Rightarrow> 1), turn_charge = c\<rparr>
   }"

subsection \<open>Operations\<close>

definition inherited_duration :: "global_time \<Rightarrow> det_tid \<Rightarrow> nat" where
  "inherited_duration g tid = (case map_of (inherited_time g) tid of Some d \<Rightarrow> d | None \<Rightarrow> 0)"

fun sum_loop :: "global_time \<Rightarrow> (det_tid \<times> nat) list \<Rightarrow> nat \<Rightarrow> nat option" where
  "sum_loop g [] acc = Some acc"
| "sum_loop g ((tid, tm) # rest) acc = do {
     d \<leftarrow> sub_u64 tm (inherited_duration g tid);
     sum_loop g rest (add_time acc d)
   }"

definition sum_up :: "global_time \<Rightarrow> nat option" where
  "sum_up g = do {
     acc \<leftarrow> sum_loop g (time_vector g) (starting_nanos g);
     Some (add_time acc (extra_time g))
   }"

definition sanity :: "global_time \<Rightarrow> unit option" where
  "sanity g = do {
     acc \<leftarrow> sum_up g;
     assert_that (acc = total g)
   }"

definition bump_total :: "nat \<Rightarrow> global_time \<Rightarrow> global_time option" where
  "bump_total delta g = do {
     let g' = g\<lparr>total := add_duration (total g) delta\<rparr>;
     sanity g';
     Some g'
   }"

definition update_global_time :: "det_tid \<Rightarrow> nat \<Rightarrow> nat \<Rightarrow> global_time \<Rightarrow> global_time option" where
  "update_global_time tid newtime inherited g = do {
     assert_that (starting_nanos g \<le> newtime);
     newtime \<leftarrow> sub_u64 newtime (starting_nanos g);
     (case map_of (time_vector g) tid of
        Some old \<Rightarrow> do {
          assert_that (old \<le> newtime);
          diff \<leftarrow> sub_u64 newtime old;
          bump_total diff (g\<lparr>time_vector := AList.update tid newtime (time_vector g)\<rparr>)
        }
      | None \<Rightarrow> do {
          assert_that (inherited \<le> newtime);
          diff \<leftarrow> sub_u64 newtime inherited;
          bump_total diff
            (g\<lparr>time_vector := AList.update tid newtime (time_vector g),
               inherited_time := AList.update tid inherited (inherited_time g)\<rparr>)
        })
   }"

definition add_extra_time :: "nat \<Rightarrow> global_time \<Rightarrow> (nat \<times> global_time) option" where
  "add_extra_time delta g = do {
     g' \<leftarrow> bump_total delta (g\<lparr>extra_time := add_duration (extra_time g) delta\<rparr>);
     Some (total g', g')
   }"

definition full_turn_charge :: "(real \<Rightarrow> real) \<Rightarrow> global_time \<Rightarrow> nat" where
  "full_turn_charge rnd g = (case turn_charge g of
       Some c \<Rightarrow> c
     | None \<Rightarrow> f64_as_u64 (f64_mul rnd NANOS_PER_SCHED (global_multiplier g)))"

definition add_capped_scheduler_time ::
  "(real \<Rightarrow> real) \<Rightarrow> nat \<Rightarrow> global_time \<Rightarrow> ((clock_exhausted + nat) \<times> global_time) option" where
  "add_capped_scheduler_time rnd cap g =
     (let c = min (full_turn_charge rnd g) (max cap 1)
      in if turn_charge g \<noteq> None \<and> checked_add (total g) c = None
         then Some (Inl \<lparr>charge = c, at_total = total g\<rparr>, g)
         else do { (now, g') \<leftarrow> add_extra_time c g; Some (Inr now, g') })"

definition add_scheduler_time ::
  "(real \<Rightarrow> real) \<Rightarrow> global_time \<Rightarrow> ((clock_exhausted + nat) \<times> global_time) option" where
  "add_scheduler_time rnd g = add_capped_scheduler_time rnd u64_max g"

definition contains_thread :: "global_time \<Rightarrow> det_tid \<Rightarrow> bool" where
  "contains_thread g tid \<longleftrightarrow> map_of (time_vector g) tid \<noteq> None"

definition threads_duration :: "global_time \<Rightarrow> det_tid \<Rightarrow> nat option" where
  "threads_duration g tid = map_of (time_vector g) tid"

definition threads_time :: "global_time \<Rightarrow> det_tid \<Rightarrow> nat option" where
  "threads_time g tid = do {
     d \<leftarrow> threads_duration g tid;
     Some (add_time (starting_nanos g) d)
   }"

definition threads_inherited_time :: "global_time \<Rightarrow> det_tid \<Rightarrow> nat" where
  "threads_inherited_time g tid = add_time (starting_nanos g) (inherited_duration g tid)"

definition retire_thread :: "det_tid \<Rightarrow> global_time \<Rightarrow> global_time option" where
  "retire_thread tid g = do {
     let inherited = inherited_duration g tid;
     let g1 = g\<lparr>inherited_time := AList.delete tid (inherited_time g)\<rparr>;
     g2 \<leftarrow> (case map_of (time_vector g1) tid of
         None \<Rightarrow> Some g1
       | Some tm \<Rightarrow> do {
           d \<leftarrow> sub_u64 tm inherited;
           Some (g1\<lparr>time_vector := AList.delete tid (time_vector g1),
                    extra_time := add_time (extra_time g1) d\<rparr>)
         });
     sanity g2;
     Some g2
   }"

definition reassign_thread :: "det_tid \<Rightarrow> det_tid \<Rightarrow> global_time \<Rightarrow> global_time option" where
  "reassign_thread from_tid to_tid g =
     (if from_tid = to_tid then Some g
      else do {
        g1 \<leftarrow> retire_thread to_tid g;
        survivor_time \<leftarrow> map_of (time_vector g1) from_tid;
        let survivor_inherited = inherited_duration g1 from_tid;
        let g2 = g1\<lparr>time_vector := AList.update to_tid survivor_time (AList.delete from_tid (time_vector g1)),
                    inherited_time := AList.update to_tid survivor_inherited
                      (AList.delete from_tid (inherited_time g1))\<rparr>;
        sanity g2;
        Some g2
      })"

definition global_as_nanos :: "global_time \<Rightarrow> nat" where
  "global_as_nanos g = total g"

definition elapsed_nanos :: "global_time \<Rightarrow> nat option" where
  "elapsed_nanos g = (if starting_nanos g \<le> total g then Some (total g - starting_nanos g) else None)"

subsection \<open>The calls of the scheduler\<close>

datatype global_call =
    Update det_tid nat nat
  | Turn nat
  | Extra nat
  | Reassign det_tid det_tid
  | Retire det_tid

fun global_step :: "(real \<Rightarrow> real) \<Rightarrow> global_call \<Rightarrow> global_time \<Rightarrow> global_time option" where
  "global_step rnd (Update tid newtime inherited) g = update_global_time tid newtime inherited g"
| "global_step rnd (Turn cap) g = map_option snd (add_capped_scheduler_time rnd cap g)"
| "global_step rnd (Extra d) g = map_option snd (add_extra_time d g)"
| "global_step rnd (Reassign a b) g = reassign_thread a b g"
| "global_step rnd (Retire tid) g = retire_thread tid g"

text \<open>
  The protocol: a thread reports times that are not before the start of the container nor before its
  last report, a first report covers what it inherited, and only a known thread is reassigned.
\<close>

fun global_pre :: "global_call \<Rightarrow> global_time \<Rightarrow> bool" where
  "global_pre (Update tid newtime inherited) g \<longleftrightarrow>
     starting_nanos g \<le> newtime
     \<and> (case map_of (time_vector g) tid of
          Some old \<Rightarrow> old \<le> newtime - starting_nanos g
        | None \<Rightarrow> inherited \<le> newtime - starting_nanos g)"
| "global_pre (Reassign a b) g \<longleftrightarrow> a = b \<or> contains_thread g a"
| "global_pre _ g \<longleftrightarrow> True"

subsection \<open>The invariant\<close>

definition work :: "global_time \<Rightarrow> det_tid \<times> nat \<Rightarrow> nat" where
  "work g e = snd e - inherited_duration g (fst e)"

definition global_ok :: "global_time \<Rightarrow> bool" where
  "global_ok g \<longleftrightarrow>
     distinct (map fst (time_vector g)) \<and> distinct (map fst (inherited_time g))
     \<and> (\<forall>e \<in> set (time_vector g). inherited_duration g (fst e) \<le> snd e)
     \<and> starting_nanos g \<le> u64_max
     \<and> total g = min u64_max (starting_nanos g + sum_list (map (work g) (time_vector g)) + extra_time g)"

subsection \<open>Sums over association lists\<close>

lemma sum_list_alist_update:
  "map_of al k = Some v
   \<Longrightarrow> sum_list (map f (AList.update k v' al)) + f (k, v) = sum_list (map f al) + (f (k, v') :: nat)"
  by (induction al) (auto split: if_splits)

lemma sum_list_alist_insert:
  "map_of al k = None
   \<Longrightarrow> sum_list (map f (AList.update k v' al)) = sum_list (map f al) + (f (k, v') :: nat)"
  by (induction al) (auto split: if_splits)

lemma sum_list_alist_delete:
  "distinct (map fst al) \<Longrightarrow> map_of al k = Some v
   \<Longrightarrow> sum_list (map f (AList.delete k al)) + (f (k, v) :: nat) = sum_list (map f al)"
  by (induction al) (auto split: if_splits)

lemma set_alist_update:
  "distinct (map fst al) \<Longrightarrow> set (AList.update k v al) = insert (k, v) {e \<in> set al. fst e \<noteq> k}"
  by (induction al) (auto simp: image_iff split: if_splits)

lemma set_alist_delete [simp]: "set (AList.delete k al) = {e \<in> set al. fst e \<noteq> k}"
  by (induction al) auto

lemma map_of_NoneD: "map_of al k = None \<Longrightarrow> e \<in> set al \<Longrightarrow> fst e \<noteq> k"
  by (induction al) (auto split: if_splits)

subsection \<open>The sum\<close>

lemma saturating_eq_min: "saturating_add a b = min u64_max (a + b)"
  by (simp add: saturating_add_def min.commute)

lemma add_time_eq: "add_time a b = min u64_max (a + b)"
  by (simp add: add_time_def saturating_eq_min)

lemma add_duration_eq: "add_duration a b = min u64_max (a + b)"
  by (auto simp: add_duration_def saturating_eq_min)

lemma sum_loop_eq:
  "\<forall>e \<in> set al. inherited_duration g (fst e) \<le> snd e \<Longrightarrow> s \<le> u64_max
   \<Longrightarrow> sum_loop g al s = Some (min u64_max (s + sum_list (map (work g) al)))"
proof (induction al arbitrary: s)
  case (Cons e al)
  obtain tid tm where e: "e = (tid, tm)" by (cases e)
  have "sum_loop g al (add_time s (work g e)) =
      Some (min u64_max (add_time s (work g e) + sum_list (map (work g) al)))"
    using Cons by (simp add: add_time_eq)
  moreover have "min u64_max (min u64_max (s + w) + r) = min u64_max (s + (w + r))" for w r :: nat
    by (simp add: min_def)
  ultimately show ?case using Cons.prems(1) by (simp add: e sub_u64_def add_time_eq) (simp add: work_def)
qed simp

lemma sum_up_eq:
  assumes "\<forall>e \<in> set (time_vector g). inherited_duration g (fst e) \<le> snd e" "starting_nanos g \<le> u64_max"
  shows "sum_up g =
    Some (min u64_max (starting_nanos g + sum_list (map (work g) (time_vector g)) + extra_time g))"
  using sum_loop_eq [OF assms] by (simp add: sum_up_def add_time_eq)

lemma sanity_ok: "global_ok g \<Longrightarrow> sanity g = Some ()"
  by (simp add: sanity_def sum_up_eq global_ok_def assert_that_def)

lemma inherited_duration_upd [simp]:
  "inherited_duration (g\<lparr>time_vector := tv\<rparr>) = inherited_duration g"
  "inherited_duration (g\<lparr>extra_time := x\<rparr>) = inherited_duration g"
  "inherited_duration (g\<lparr>total := x\<rparr>) = inherited_duration g"
  by (simp_all add: inherited_duration_def fun_eq_iff)

lemma work_upd [simp]:
  "work (g\<lparr>time_vector := tv\<rparr>) = work g"
  "work (g\<lparr>extra_time := x\<rparr>) = work g"
  "work (g\<lparr>total := x\<rparr>) = work g"
  by (simp_all add: work_def fun_eq_iff)

lemma bump_total_ok:
  assumes "\<forall>e \<in> set (time_vector g). inherited_duration g (fst e) \<le> snd e"
    "distinct (map fst (time_vector g))" "distinct (map fst (inherited_time g))" "starting_nanos g \<le> u64_max"
    "min u64_max (total g + d) = min u64_max (starting_nanos g + sum_list (map (work g) (time_vector g)) + extra_time g)"
  shows "bump_total d g = Some (g\<lparr>total := min u64_max (total g + d)\<rparr>)"
    "global_ok (g\<lparr>total := min u64_max (total g + d)\<rparr>)"
proof -
  show ok: "global_ok (g\<lparr>total := min u64_max (total g + d)\<rparr>)"
    using assms
    by (simp add: global_ok_def)
  show "bump_total d g = Some (g\<lparr>total := min u64_max (total g + d)\<rparr>)"
    using sanity_ok [OF ok] by (simp add: bump_total_def add_duration_eq Let_def)
qed

lemma min_sat_add:
  fixes s :: nat
  assumes "t = min m s" "s' = s + d"
  shows "min m (t + d) = min m s'"
  using assms by (simp add: min_def)

subsection \<open>What the operations do\<close>

text \<open>The clock as its clients see it: the time, and for every thread its duration and baseline.\<close>

definition clock_view :: "global_time \<Rightarrow> nat \<times> (det_tid \<rightharpoonup> nat \<times> nat)" where
  "clock_view g = (total g, \<lambda>tid. map_option (\<lambda>d. (d, inherited_duration g tid)) (map_of (time_vector g) tid))"

definition sat_plus :: "nat \<Rightarrow> nat \<Rightarrow> nat" where
  "sat_plus a b = min u64_max (a + b)"

fun clock_spec :: "global_time \<Rightarrow> (real \<Rightarrow> real) \<Rightarrow> global_call \<Rightarrow> nat \<times> (det_tid \<rightharpoonup> nat \<times> nat)
    \<Rightarrow> nat \<times> (det_tid \<rightharpoonup> nat \<times> nat)" where
  "clock_spec g0 rnd (Update tid newtime inherited) (now, ths) =
     (let d = newtime - starting_nanos g0
      in case ths tid of
           Some (old, base) \<Rightarrow> (sat_plus now (d - old), ths(tid \<mapsto> (d, base)))
         | None \<Rightarrow> (sat_plus now (d - inherited), ths(tid \<mapsto> (d, inherited))))"
| "clock_spec g0 rnd (Turn cap) (now, ths) =
     (let c = min (full_turn_charge rnd g0) (max cap 1)
      in if turn_charge g0 \<noteq> None \<and> u64_max < now + c then (now, ths) else (sat_plus now c, ths))"
| "clock_spec g0 rnd (Extra d) (now, ths) = (sat_plus now d, ths)"
| "clock_spec g0 rnd (Reassign a b) (now, ths) =
     (if a = b then (now, ths) else (now, ths(b := ths a, a := None)))"
| "clock_spec g0 rnd (Retire tid) (now, ths) = (now, ths(tid := None))"

text \<open>The fields no call changes.\<close>

definition same_clock :: "global_time \<Rightarrow> global_time \<Rightarrow> bool" where
  "same_clock g0 g \<longleftrightarrow> starting_nanos g = starting_nanos g0 \<and> turn_charge g = turn_charge g0
     \<and> global_multiplier g = global_multiplier g0"

lemma same_clock_full_charge: "same_clock g0 g \<Longrightarrow> full_turn_charge rnd g = full_turn_charge rnd g0"
  by (simp add: same_clock_def full_turn_charge_def split: option.split)

lemma update_known:
  assumes ok: "global_ok g" and known: "map_of (time_vector g) tid = Some old"
    and start: "starting_nanos g \<le> newtime" and later: "old \<le> newtime - starting_nanos g"
  shows "\<exists>g'. update_global_time tid newtime inherited g = Some g' \<and> global_ok g' \<and> same_clock g g'
      \<and> clock_view g' = clock_spec g rnd (Update tid newtime inherited) (clock_view g)"
proof -
  let ?d = "newtime - starting_nanos g"
  let ?g = "g\<lparr>time_vector := AList.update tid ?d (time_vector g)\<rparr>"
  have old: "(tid, old) \<in> set (time_vector g)" by (rule map_of_SomeD [OF known])
  have base: "inherited_duration g tid \<le> old" using ok old by (force simp: global_ok_def)
  have "sum_list (map (work g) (time_vector ?g)) = sum_list (map (work g) (time_vector g)) + (?d - old)"
    using sum_list_alist_update [OF known, of "work g" ?d] base later by (simp add: work_def)
  with ok have tot: "min u64_max (total ?g + (?d - old)) =
      min u64_max (starting_nanos ?g + sum_list (map (work ?g) (time_vector ?g)) + extra_time ?g)"
    by (intro min_sat_add) (simp_all add: global_ok_def)
  have le: "\<forall>e \<in> set (time_vector ?g). inherited_duration ?g (fst e) \<le> snd e"
    using ok base later by (simp add: global_ok_def set_alist_update)
  have run: "update_global_time tid newtime inherited g = bump_total (?d - old) ?g"
    using known start later by (simp add: update_global_time_def sub_u64_def)
  have view: "clock_view (?g\<lparr>total := min u64_max (total ?g + (?d - old))\<rparr>) =
      clock_spec g rnd (Update tid newtime inherited) (clock_view g)"
    using known by (auto simp: clock_view_def sat_plus_def update_conv' fun_eq_iff Let_def)
  have dist: "distinct (map fst (time_vector ?g))" "distinct (map fst (inherited_time ?g))"
    "starting_nanos ?g \<le> u64_max"
    using ok by (simp_all add: global_ok_def distinct_update)
  show ?thesis
    unfolding run bump_total_ok(1) [OF le dist tot]
    by (rule exI, intro conjI, rule refl, rule bump_total_ok(2) [OF le dist tot], simp add: same_clock_def,
        rule view)
qed

lemma inherited_duration_delete:
  "inherited_duration (g\<lparr>inherited_time := AList.delete tid (inherited_time g)\<rparr>) =
     (inherited_duration g)(tid := 0)"
  by (simp add: inherited_duration_def fun_eq_iff delete_conv')

text \<open>Only the entries of the vector matter to the sum.\<close>

lemma work_sum_cong:
  assumes "\<And>e. e \<in> set al \<Longrightarrow> inherited_duration g' (fst e) = inherited_duration g (fst e)"
  shows "sum_list (map (work g') al) = sum_list (map (work g) al)"
  using assms by (intro arg_cong [of _ _ sum_list] map_cong) (simp_all add: work_def)

lemma update_new:
  assumes ok: "global_ok g" and new: "map_of (time_vector g) tid = None"
    and start: "starting_nanos g \<le> newtime" and base: "inherited \<le> newtime - starting_nanos g"
  shows "\<exists>g'. update_global_time tid newtime inherited g = Some g' \<and> global_ok g' \<and> same_clock g g'
      \<and> clock_view g' = clock_spec g rnd (Update tid newtime inherited) (clock_view g)"
proof -
  let ?d = "newtime - starting_nanos g"
  let ?h = "g\<lparr>time_vector := AList.update tid ?d (time_vector g)\<rparr>"
  let ?g = "?h\<lparr>inherited_time := AList.update tid inherited (inherited_time g)\<rparr>"
  have inh: "inherited_duration ?g = (inherited_duration g)(tid := inherited)"
    by (simp add: inherited_duration_def fun_eq_iff update_conv')
  have "sum_list (map (work ?g) (time_vector g)) = sum_list (map (work g) (time_vector g))"
    using map_of_NoneD [OF new] by (intro work_sum_cong) (simp add: inh)
  moreover have "work ?g (tid, ?d) = ?d - inherited" by (simp add: work_def inh)
  ultimately have "sum_list (map (work ?g) (time_vector ?g)) =
      sum_list (map (work g) (time_vector g)) + (?d - inherited)"
    using sum_list_alist_insert [OF new, of "work ?g" ?d] by simp
  with ok have tot: "min u64_max (total ?g + (?d - inherited)) =
      min u64_max (starting_nanos ?g + sum_list (map (work ?g) (time_vector ?g)) + extra_time ?g)"
    by (intro min_sat_add) (simp_all add: global_ok_def)
  have le: "\<forall>e \<in> set (time_vector ?g). inherited_duration ?g (fst e) \<le> snd e"
    using ok base by (auto simp: global_ok_def set_alist_update inh)
  have run: "update_global_time tid newtime inherited g = bump_total (?d - inherited) ?g"
    using new start base by (simp add: update_global_time_def sub_u64_def)
  have "inherited_duration (?g\<lparr>total := x\<rparr>) = (inherited_duration g)(tid := inherited)" for x
    by (simp add: inh)
  then have view: "clock_view (?g\<lparr>total := min u64_max (total ?g + (?d - inherited))\<rparr>) =
      clock_spec g rnd (Update tid newtime inherited) (clock_view g)"
    using new by (auto simp: clock_view_def sat_plus_def update_conv' fun_eq_iff Let_def)
  have dist: "distinct (map fst (time_vector ?g))" "distinct (map fst (inherited_time ?g))"
    "starting_nanos ?g \<le> u64_max"
    using ok by (simp_all add: global_ok_def distinct_update)
  show ?thesis
    unfolding run bump_total_ok(1) [OF le dist tot]
    by (rule exI, intro conjI, rule refl, rule bump_total_ok(2) [OF le dist tot], simp add: same_clock_def,
        rule view)
qed

lemma extra_ok:
  assumes ok: "global_ok g"
  shows "\<exists>g'. add_extra_time d g = Some (min u64_max (total g + d), g') \<and> global_ok g' \<and> same_clock g g'
      \<and> clock_view g' = (sat_plus (total g) d, snd (clock_view g))"
proof -
  let ?g = "g\<lparr>extra_time := add_duration (extra_time g) d\<rparr>"
  have tot: "min u64_max (total ?g + d) =
      min u64_max (starting_nanos ?g + sum_list (map (work ?g) (time_vector ?g)) + extra_time ?g)"
    using ok by (simp add: global_ok_def add_duration_eq min_def)
  have le: "\<forall>e \<in> set (time_vector ?g). inherited_duration ?g (fst e) \<le> snd e"
    and dist: "distinct (map fst (time_vector ?g))" "distinct (map fst (inherited_time ?g))"
      "starting_nanos ?g \<le> u64_max"
    using ok by (simp_all add: global_ok_def)
  note bump = bump_total_ok [OF le dist tot]
  show ?thesis
    using bump by (simp add: add_extra_time_def same_clock_def clock_view_def sat_plus_def)
qed

lemma retire_ok:
  assumes ok: "global_ok g"
  shows "\<exists>g'. retire_thread tid g = Some g' \<and> global_ok g' \<and> same_clock g g'
      \<and> clock_view g' = clock_spec g rnd (Retire tid) (clock_view g)"
proof (cases "map_of (time_vector g) tid")
  case None
  let ?g = "g\<lparr>inherited_time := AList.delete tid (inherited_time g)\<rparr>"
  have inh: "inherited_duration ?g (fst e) = inherited_duration g (fst e)" if "e \<in> set (time_vector g)" for e
    using map_of_NoneD [OF None that] by (simp add: inherited_duration_delete)
  have ok': "global_ok ?g"
    using ok work_sum_cong [of "time_vector g" ?g g, OF inh] by (simp add: global_ok_def inh distinct_delete)
  have view: "clock_view ?g = clock_spec g rnd (Retire tid) (clock_view g)"
    using None by (auto simp: clock_view_def inherited_duration_delete fun_eq_iff)
  show ?thesis
    using None sanity_ok [OF ok'] ok' view by (simp add: retire_thread_def Let_def same_clock_def)
next
  case (Some tm)
  let ?h = "g\<lparr>inherited_time := AList.delete tid (inherited_time g)\<rparr>"
  let ?w = "tm - inherited_duration g tid"
  let ?g = "?h\<lparr>time_vector := AList.delete tid (time_vector g), extra_time := add_time (extra_time g) ?w\<rparr>"
  have le: "inherited_duration g tid \<le> tm"
    using ok map_of_SomeD [OF Some] by (force simp: global_ok_def)
  have "sum_list (map (work ?g) (time_vector ?g)) = sum_list (map (work g) (time_vector ?g))"
    by (intro work_sum_cong) (auto simp: inherited_duration_delete)
  then have sum: "sum_list (map (work ?g) (time_vector ?g)) + ?w = sum_list (map (work g) (time_vector g))"
    using ok sum_list_alist_delete [OF _ Some, of "work g"] by (simp add: global_ok_def work_def)
  have ok': "global_ok ?g"
    using ok sum [symmetric]
    by (auto simp: global_ok_def inherited_duration_delete distinct_delete add_time_eq min_def)
  have view: "clock_view ?g = clock_spec g rnd (Retire tid) (clock_view g)"
    by (auto simp: clock_view_def inherited_duration_delete fun_eq_iff delete_conv')
  show ?thesis
    using Some sanity_ok [OF ok'] ok' view le by (simp add: retire_thread_def Let_def same_clock_def sub_u64_def)
qed

lemma reassign_ok:
  assumes ok: "global_ok g" and pre: "a = b \<or> contains_thread g a"
  shows "\<exists>g'. reassign_thread a b g = Some g' \<and> global_ok g' \<and> same_clock g g'
      \<and> clock_view g' = clock_spec g rnd (Reassign a b) (clock_view g)"
proof (cases "a = b")
  case True
  with ok show ?thesis by (simp add: reassign_thread_def same_clock_def clock_view_def)
next
  case False
  obtain g1 where g1: "retire_thread b g = Some g1" "global_ok g1" "same_clock g g1"
    "clock_view g1 = clock_spec g rnd (Retire b) (clock_view g)"
    using retire_ok [OF ok] by blast
  from pre False obtain tm where tm: "map_of (time_vector g) a = Some tm"
    by (auto simp: contains_thread_def)
  have tot1: "total g1 = total g" using g1(4) by (simp add: clock_view_def)
  have "snd (clock_view g1) x = (if x = b then None else snd (clock_view g) x)" for x
    using g1(4) by (simp add: clock_view_def fun_eq_iff)
  then have ths1: "map_option (\<lambda>d. (d, inherited_duration g1 x)) (map_of (time_vector g1) x) =
      (if x = b then None else map_option (\<lambda>d. (d, inherited_duration g x)) (map_of (time_vector g) x))" for x
    by (simp add: clock_view_def)
  from ths1 [of a] tm False have tm1: "map_of (time_vector g1) a = Some tm"
    and inh1: "inherited_duration g1 a = inherited_duration g a" by auto
  have b1: "map_of (time_vector g1) b = None" using ths1 [of b] by simp
  let ?tv = "AList.update b tm (AList.delete a (time_vector g1))"
  let ?g2 = "g1\<lparr>time_vector := ?tv, inherited_time := AList.update b (inherited_duration g1 a)
      (AList.delete a (inherited_time g1))\<rparr>"
  have inh: "inherited_duration ?g2 = (inherited_duration g1)(a := 0, b := inherited_duration g1 a)"
    using False by (auto simp: inherited_duration_def fun_eq_iff update_conv' delete_conv')
  have fresh: "map_of (AList.delete a (time_vector g1)) b = None" using b1 False by (simp add: map_of_delete)
  have "sum_list (map (work ?g2) (AList.delete a (time_vector g1))) =
      sum_list (map (work g1) (AList.delete a (time_vector g1)))"
    using map_of_NoneD [OF b1] by (intro work_sum_cong) (auto simp: inh)
  moreover have "work ?g2 (b, tm) = work g1 (a, tm)" by (simp add: work_def inh)
  moreover have "distinct (map fst (time_vector g1))" using g1(2) by (simp add: global_ok_def)
  ultimately have sum: "sum_list (map (work ?g2) ?tv) = sum_list (map (work g1) (time_vector g1))"
    using sum_list_alist_insert [OF fresh, of "work ?g2" tm] sum_list_alist_delete [OF _ tm1, of "work g1"]
    by simp
  have ok2: "global_ok ?g2"
    using g1(2) sum map_of_SomeD [OF tm1]
    by (auto simp: global_ok_def inh set_alist_update distinct_delete distinct_update)
  have view: "clock_view ?g2 = clock_spec g rnd (Reassign a b) (clock_view g)"
    using False tm ths1 tot1 by (auto simp: clock_view_def inh inh1 inh [unfolded inh1] fun_eq_iff update_conv' delete_conv')
  show ?thesis
    using False g1(1,3) tm1 sanity_ok [OF ok2] ok2 view
    by (simp add: reassign_thread_def Let_def same_clock_def)
qed

lemma turn_ok:
  assumes ok: "global_ok g"
  shows "\<exists>g'. map_option snd (add_capped_scheduler_time rnd cap g) = Some g' \<and> global_ok g' \<and> same_clock g g'
      \<and> clock_view g' = clock_spec g rnd (Turn cap) (clock_view g)"
proof -
  let ?c = "min (full_turn_charge rnd g) (max cap 1)"
  obtain g' where g': "add_extra_time ?c g = Some (min u64_max (total g + ?c), g')" "global_ok g'"
    "same_clock g g'" "clock_view g' = (sat_plus (total g) ?c, snd (clock_view g))"
    using extra_ok [OF ok] by blast
  show ?thesis
    using ok g' by (auto simp: add_capped_scheduler_time_def Let_def checked_add_def clock_view_def same_clock_def)
qed

text \<open>A call of the protocol never panics, keeps the invariant and does what the specification says.\<close>

lemma global_call_ok:
  assumes ok: "global_ok g" and pre: "global_pre c g"
  shows "\<exists>g'. global_step rnd c g = Some g' \<and> global_ok g' \<and> same_clock g g'
      \<and> clock_view g' = clock_spec g rnd c (clock_view g)"
proof (cases c)
  case (Update tid newtime inherited)
  with pre show ?thesis
    using update_known [OF ok, of tid _ newtime] update_new [OF ok, of tid newtime]
    by (cases "map_of (time_vector g) tid") auto
next
  case (Extra d)
  have "clock_view g = (total g, snd (clock_view g))" by (simp add: clock_view_def)
  then have "clock_spec g rnd (Extra d) (clock_view g) = (sat_plus (total g) d, snd (clock_view g))"
    using clock_spec.simps(3) by metis
  with Extra extra_ok [OF ok, of d] show ?thesis by auto
qed (use turn_ok [OF ok] reassign_ok [OF ok] retire_ok [OF ok] pre in simp_all)

text \<open>The specification reads only the fixed fields of the clock.\<close>

lemma clock_spec_cong: "same_clock g0 g \<Longrightarrow> clock_spec g rnd c v = clock_spec g0 rnd c v"
  by (cases c; cases v) (simp_all add: same_clock_full_charge, simp_all add: same_clock_def)

lemma same_clock_trans: "same_clock g0 g \<Longrightarrow> same_clock g g' \<Longrightarrow> same_clock g0 g'"
  by (simp add: same_clock_def)

interpretation gt: protocol_object "\<lambda>g. global_ok g \<and> same_clock g0 g" global_pre "global_step rnd" clock_view
  "\<lambda>c v v'. v' = clock_spec g0 rnd c v" for g0 rnd
proof
  fix g c
  assume g: "global_ok g \<and> same_clock g0 g" and pre: "global_pre c g"
  obtain g' where "global_step rnd c g = Some g'" "global_ok g'" "same_clock g g'"
    "clock_view g' = clock_spec g rnd c (clock_view g)"
    using global_call_ok [OF _ pre] g by blast
  with g show "\<exists>g'. global_step rnd c g = Some g' \<and> (global_ok g' \<and> same_clock g0 g')
      \<and> clock_view g' = clock_spec g0 rnd c (clock_view g)"
    using same_clock_trans clock_spec_cong by metis
qed

subsection \<open>Properties\<close>

lemma same_clock_refl [simp]: "same_clock g g"
  by (simp add: same_clock_def)

lemma global_ok_elapsed:
  assumes "global_ok g"
  shows "sum_up g = Some (total g)" "elapsed_nanos g = Some (total g - starting_nanos g)"
  using assms by (simp_all add: global_ok_def sum_up_eq elapsed_nanos_def)

lemma clock_spec_mono: "fst v \<le> u64_max \<Longrightarrow> fst v \<le> fst (clock_spec g rnd c v)"
  by (cases v; cases c) (auto simp: sat_plus_def Let_def split: option.splits)

lemma global_step_mono:
  assumes "global_ok g" "global_pre c g" "global_step rnd c g = Some g'"
  shows "global_as_nanos g \<le> global_as_nanos g'"
proof -
  have "clock_view g' = clock_spec g rnd c (clock_view g)"
    using global_call_ok [OF assms(1,2), of rnd] assms(3) by auto
  moreover have "fst (clock_view g) \<le> u64_max" using assms(1) by (simp add: clock_view_def global_ok_def)
  ultimately have "fst (clock_view g) \<le> fst (clock_view g')" using clock_spec_mono by metis
  then show ?thesis by (simp add: clock_view_def global_as_nanos_def)
qed

lemma global_time_new_ok:
  assumes rnd: "rounding rnd" and new: "global_time_new rnd timestamp subsec cm sequentialize use_rcb cost = Some g"
  shows "global_ok g"
proof -
  obtain epoch start now where e: "from_micros epoch = Some start"
      "as_nanos rnd (det_time_new rnd epoch cm sequentialize use_rcb) = Some now"
    and g: "starting_nanos g = start" "time_vector g = []" "inherited_time g = []" "extra_time g = 0" "total g = now"
    using new by (auto simp: global_time_new_def bind_eq_Some_conv Let_def)
  have z: "f64_of rnd 0 = 0" "f64_mul rnd 0 x = 0" for x
    using roundingD(2) [OF rnd] by (simp_all add: f64_of_def f64_mul_def)
  have "now = epoch * 1000"
    using e(2) by (auto simp: as_nanos_Some det_time_new_def with_multiplier_def det_time_from_epoch_def
        det_time_zero_def system_cpu_time_def rcb_part_def rcb_nanos_def nondet_part_def current_syscall_nanos_def
        z f64_as_u64_def split: option.splits if_splits)
  with e(1) g show ?thesis by (auto simp: global_ok_def from_micros_def NANOS_PER_MICRO_def)
qed

text \<open>
  C20: the global clock is consistent for ever. From the clock of a fresh container on, whatever threads report, whatever the scheduler charges,
  and whichever threads exec into another identifier or end, no call of a history that keeps the
  protocol panics (the debug check of the cached total against the sum included); afterwards the
  cached total is the sum, global time has not gone backwards, and the elapsed time is defined.
\<close>

theorem global_time_history_consistent:
  assumes "rounding rnd" "global_time_new rnd timestamp subsec cm sequentialize use_rcb cost = Some g"
    and legal: "legal_calls global_pre (global_step rnd) cs g"
  shows "\<exists>g'. run_calls (global_step rnd) cs g = Some g' \<and> sum_up g' = Some (total g')
      \<and> global_as_nanos g \<le> global_as_nanos g' \<and> elapsed_nanos g' \<noteq> None"
proof -
  obtain g' where g': "run_calls (global_step rnd) cs g = Some g'" "global_ok g'"
    using gt.history_ok [of g g rnd cs] global_time_new_ok [OF assms(1,2)] legal by auto
  have "global_as_nanos g \<le> global_as_nanos g'"
    using gt.history_mono [of g rnd global_as_nanos g cs g'] global_step_mono
      global_time_new_ok [OF assms(1,2)] legal g'(1) by simp
  with g' global_ok_elapsed [OF g'(2)] show ?thesis by simp
qed

text \<open>A container with a configured turn cost, and a history that forks, execs and exits.\<close>

definition sample_clock :: global_time where
  "sample_clock =
     \<lparr>starting_nanos = 1000, time_vector = [], inherited_time = [], extra_time = 0, total = 1000,
      global_multiplier = 1, turn_charge = Some 200\<rparr>"

definition sample_calls :: "global_call list" where
  "sample_calls = [Update 3 1500 0, Update 5 1500 500, Update 5 1900 0, Turn 50, Reassign 5 3, Update 7 2100 900,
     Retire 3]"

lemmas global_eval = sample_clock_def sample_calls_def update_global_time_def add_capped_scheduler_time_def
  add_extra_time_def bump_total_def sanity_def sum_up_def reassign_thread_def retire_thread_def
  inherited_duration_def full_turn_charge_def sub_u64_def add_time_def add_duration_def saturating_add_def
  checked_add_def assert_that_def u64_max_def contains_thread_def Let_def

lemma sample_legal: "legal_calls global_pre (global_step (\<lambda>x. x)) sample_calls sample_clock"
  by (simp add: global_eval)

lemma sample_new: "global_time_new (\<lambda>x. x) 0 1 None True True (Some 200) = Some sample_clock"
  by (simp add: global_time_new_def micros_from_utc_def mul_u64_def add_u64_def from_micros_def NANOS_PER_MICRO_def
      det_time_new_def with_multiplier_def det_time_from_epoch_def as_nanos_def det_time_zero_def
      system_cpu_time_def rcb_part_def rcb_nanos_def nondet_part_def current_syscall_nanos_def f64_mul_def f64_of_def
      f64_as_u64_def u64_max_def scheduler_turn_charge_def MAX_SCHEDULER_TURN_COST_def sample_clock_def)

theorem global_time_history_consistent_witness:
  "global_time_new (\<lambda>x. x) 0 1 None True True (Some 200) = Some sample_clock
   \<and> legal_calls global_pre (global_step (\<lambda>x. x)) sample_calls sample_clock
   \<and> (\<exists>g'. run_calls (global_step (\<lambda>x. x)) sample_calls sample_clock = Some g' \<and> elapsed_nanos g' \<noteq> None)"
  using global_time_history_consistent [OF rounding_id sample_new sample_legal] sample_new sample_legal by blast

text \<open>
  C21: the global clock refines a clock with one number and one entry per thread. A report of a known
  thread adds exactly its new work, a first report adds what it did beyond its inheritance, a turn adds
  its charge, an exec moves the entry and an exit drops it, and neither of the last two changes the
  time: work of threads that are gone is never lost nor counted twice.
\<close>

theorem global_time_refines_clock:
  assumes "global_ok g" "legal_calls global_pre (global_step rnd) cs g"
  shows "\<exists>g'. run_calls (global_step rnd) cs g = Some g'
      \<and> clock_view g' = fold (clock_spec g rnd) cs (clock_view g)"
proof -
  have run: "spec_run (\<lambda>c v v'. v' = clock_spec g rnd c v) cs v v' \<Longrightarrow> v' = fold (clock_spec g rnd) cs v"
    for cs v v'
    by (induction cs arbitrary: v) auto
  obtain g' where "run_calls (global_step rnd) cs g = Some g'"
    "spec_run (\<lambda>c v v'. v' = clock_spec g rnd c v) cs (clock_view g) (clock_view g')"
    using gt.history_ok [of g g rnd cs] assms by auto
  with run show ?thesis by blast
qed

lemma sample_clock_ok: "global_ok sample_clock"
  by (simp add: global_ok_def sample_clock_def u64_max_def)

theorem global_time_refines_clock_witness:
  "global_ok sample_clock \<and> legal_calls global_pre (global_step (\<lambda>x. x)) sample_calls sample_clock
   \<and> (\<exists>g'. run_calls (global_step (\<lambda>x. x)) sample_calls sample_clock = Some g'
        \<and> clock_view g' = fold (clock_spec sample_clock (\<lambda>x. x)) sample_calls (clock_view sample_clock)
        \<and> total g' = 2150)"
proof -
  obtain g' where "run_calls (global_step (\<lambda>x. x)) sample_calls sample_clock = Some g'"
    "clock_view g' = fold (clock_spec sample_clock (\<lambda>x. x)) sample_calls (clock_view sample_clock)"
    using global_time_refines_clock [OF sample_clock_ok sample_legal] by blast
  moreover from this(2) have "total g' = 2150"
    by (simp add: clock_view_def sample_calls_def sample_clock_def sat_plus_def full_turn_charge_def u64_max_def
        inherited_duration_def Let_def)
  ultimately show ?thesis using sample_clock_ok sample_legal by blast
qed



text \<open>
  The cached total does not depend on the order in which the hash map of local clocks is iterated:
  the sum over any other order of the same entries is the same.
\<close>

theorem sum_up_order_independent:
  assumes "global_ok g" "mset tv = mset (time_vector g)"
  shows "sum_up (g\<lparr>time_vector := tv\<rparr>) = Some (total g)"
proof -
  have "set tv = set (time_vector g)" by (rule mset_eq_setD [OF assms(2)])
  moreover have "sum_list (map (work g) tv) = sum_list (map (work g) (time_vector g))"
    using assms(2) by (metis mset_map sum_mset_sum_list)
  ultimately show ?thesis
    using assms(1) sum_up_eq [of "g\<lparr>time_vector := tv\<rparr>"] by (simp add: global_ok_def)
qed

theorem sum_up_order_independent_witness:
  "sum_up (sample_clock\<lparr>total := 1100, time_vector := [(2, 70), (1, 30)]\<rparr>) = Some 1100"
proof -
  have "global_ok (sample_clock\<lparr>time_vector := [(1, 30), (2, 70)], total := 1100\<rparr>)"
    by (simp add: global_ok_def sample_clock_def u64_max_def work_def inherited_duration_def)
  from sum_up_order_independent [OF this, of "[(2, 70), (1, 30)]"] show ?thesis
    by (simp add: add_mset_commute)
qed

end
