(* ===== verification/Vec.thy ===== *)
theory Vec
  imports Prelude
begin

text \<open>
  Vectors and counted loops of the Rust code. Indexing a \<open>Vec\<close> out of range panics, so reading and
  writing return an option; \<open>for x in xs\<close> is \<open>for_each\<close>, whose body threads the state and may panic.
\<close>

definition vget :: "'a list \<Rightarrow> nat \<Rightarrow> 'a option" where
  "vget xs i = (if i < length xs then Some (xs ! i) else None)"

definition vset :: "'a list \<Rightarrow> nat \<Rightarrow> 'a \<Rightarrow> 'a list option" where
  "vset xs i x = (if i < length xs then Some (xs[i := x]) else None)"

primrec for_each :: "('i \<Rightarrow> 's \<Rightarrow> 's option) \<Rightarrow> 'i list \<Rightarrow> 's \<Rightarrow> 's option" where
  "for_each f [] s = Some s"
| "for_each f (x # xs) s = f x s \<bind> for_each f xs"

lemma vget_Some [simp]: "i < length xs \<Longrightarrow> vget xs i = Some (xs ! i)"
  by (simp add: vget_def)

lemma vset_Some [simp]: "i < length xs \<Longrightarrow> vset xs i x = Some (xs[i := x])"
  by (simp add: vset_def)

lemma for_each_append: "for_each f (xs @ ys) s = for_each f xs s \<bind> for_each f ys"
  by (induction xs arbitrary: s) (simp_all add: Option.bind_assoc cong: bind_option_cong)

text \<open>Row-major positions of a matrix kept in one vector.\<close>

lemma row_major_less:
  assumes "r < h" "c < (w :: nat)"
  shows "r * w + c < h * w"
proof -
  have "r * w + c < Suc r * w" using assms(2) by simp
  also have "\<dots> \<le> h * w" using assms(1) by (intro mult_le_mono) simp_all
  finally show ?thesis .
qed

lemma row_major_eq_iff:
  assumes "c < (w :: nat)" "c' < w"
  shows "r * w + c = r' * w + c' \<longleftrightarrow> r = r' \<and> c = c'"
proof -
  have "(r * w + c) div w = r" "(r * w + c) mod w = c" "(r' * w + c') div w = r'" "(r' * w + c') mod w = c'"
    using assms by simp_all
  then show ?thesis by metis
qed

lemma row_major_update:
  assumes "c < (w :: nat)" "c' < w" "r * w + c < length xs"
  shows "xs[r * w + c := x] ! (r' * w + c') = (if r' = r \<and> c' = c then x else xs ! (r' * w + c'))"
  using row_major_eq_iff [OF assms(1,2), of r r'] assms(3) by (auto simp: nth_list_update)

text \<open>The rule of a counted loop: an invariant that every iteration keeps and that excludes a panic.\<close>

lemma for_range_rule:
  assumes "a \<le> b" and "P a s"
    and "\<And>k s. a \<le> k \<Longrightarrow> k < b \<Longrightarrow> P k s \<Longrightarrow> \<exists>s'. f k s = Some s' \<and> P (Suc k) s'"
  shows "\<exists>s'. for_each f [a..<b] s = Some s' \<and> P b s'"
  using assms
proof (induction "b - a" arbitrary: a s)
  case 0
  then show ?case by simp
next
  case (Suc n)
  from Suc.hyps(2) have lt: "a < b" by simp
  with Suc.prems obtain s1 where s1: "f a s = Some s1" "P (Suc a) s1" by blast
  have "\<exists>s'. for_each f [Suc a..<b] s1 = Some s' \<and> P b s'"
    using Suc.hyps(2) lt s1(2) Suc.prems(3) by (intro Suc.hyps(1)) auto
  with lt s1(1) show ?case by (simp add: upt_conv_Cons)
qed

lemma for_each_total:
  assumes "\<And>x s. x \<in> set xs \<Longrightarrow> P s \<Longrightarrow> \<exists>s'. f x s = Some s' \<and> P s'" and "P s"
  shows "\<exists>s'. for_each f xs s = Some s' \<and> P s'"
  using assms
proof (induction xs arbitrary: s)
  case (Cons x xs)
  then obtain s1 where "f x s = Some s1" "P s1" by (meson list.set_intros(1))
  with Cons show ?case by auto
qed simp

end
