(* ===== verification/Damerau.thy ===== *)
theory Damerau
  imports Vec
begin

text \<open>
  The edit distance with adjacent swaps, \<open>damerau_lev\<close> of
  detcore/src/edit_distance/damerau_levenshtein.rs: the matrix algorithm with its table of last rows, and
  the trimming of the common prefix and suffix, whose loops may not end.
\<close>

subsection \<open>The algorithm\<close>

definition index :: "nat \<Rightarrow> nat \<Rightarrow> nat \<Rightarrow> nat" where
  "index row_length row col = row_length * row + col"

text \<open>The iterator of a slice: once at the end it yields \<open>None\<close> for ever.\<close>

fun iter_next :: "'a list \<Rightarrow> 'a option" where
  "iter_next [] = None"
| "iter_next (x # xs) = Some x"

partial_function (option) common_loop :: "'a list \<Rightarrow> 'a list \<Rightarrow> nat \<Rightarrow> nat option" where
  "common_loop first second c =
     (if iter_next first = iter_next second then common_loop (tl first) (tl second) (c + 1) else Some c)"

definition longest_common_prefix :: "'a list \<Rightarrow> 'a list \<Rightarrow> nat option" where
  "longest_common_prefix a b = common_loop a b 0"

definition longest_common_suffix :: "'a list \<Rightarrow> 'a list \<Rightarrow> nat option" where
  "longest_common_suffix a b = common_loop (rev a) (rev b) 0"

definition matrix_init :: "nat \<Rightarrow> nat \<Rightarrow> nat list option" where
  "matrix_init m n = do {
     let width = n + 2;
     let height = m + 2;
     let inf = m + n;
     mat \<leftarrow> vset (replicate (width * height) 0) 0 inf;
     mat \<leftarrow> for_each (\<lambda>i mat. do {
         mat \<leftarrow> vset mat (index width (i + 1) 1) i;
         vset mat (index width (i + 1) 0) inf
       }) [0..<m + 1] mat;
     for_each (\<lambda>j mat. do {
         mat \<leftarrow> vset mat (index width 1 (j + 1)) j;
         vset mat (index width 0 (j + 1)) inf
       }) [0..<n + 1] mat
   }"

definition cell_step ::
  "nat \<Rightarrow> 'a list \<Rightarrow> ('a \<rightharpoonup> nat) \<Rightarrow> nat \<Rightarrow> 'a \<Rightarrow> nat \<Rightarrow> nat list \<times> nat \<Rightarrow> (nat list \<times> nat) option" where
  "cell_step width target last_row row ch_s col st = (case st of (mat, last_match_col) \<Rightarrow> do {
     ch_t \<leftarrow> vget target (col - 1);
     let last_match_row = (case last_row ch_t of Some r \<Rightarrow> r | None \<Rightarrow> 0);
     let cost = (if ch_s = ch_t then 0 else 1 :: nat);
     a \<leftarrow> vget mat (index width row (col + 1));
     d \<leftarrow> vget mat (index width (row + 1) col);
     s \<leftarrow> vget mat (index width row col);
     t \<leftarrow> vget mat (index width last_match_row last_match_col);
     rows \<leftarrow> sub_u64 row last_match_row;
     rows \<leftarrow> sub_u64 rows 1;
     cols \<leftarrow> sub_u64 col last_match_col;
     cols \<leftarrow> sub_u64 cols 1;
     let dist_add = a + 1;
     let dist_del = d + 1;
     let dist_sub = s + cost;
     let dist_trans = t + rows + 1 + cols;
     let least = dist_add;
     let least = (if dist_del < least then dist_del else least);
     let least = (if dist_sub < least then dist_sub else least);
     let least = (if dist_trans < least then dist_trans else least);
     mat \<leftarrow> vset mat (index width (row + 1) (col + 1)) least;
     Some (mat, if cost = 0 then col else last_match_col)
   })"

definition row_step ::
  "'a list \<Rightarrow> 'a list \<Rightarrow> nat \<Rightarrow> nat list \<times> ('a \<rightharpoonup> nat) \<Rightarrow> (nat list \<times> ('a \<rightharpoonup> nat)) option" where
  "row_step source target row st = (case st of (mat, last_row) \<Rightarrow> do {
     let n = length target;
     ch_s \<leftarrow> vget source (row - 1);
     (mat, _) \<leftarrow> for_each (cell_step (n + 2) target last_row row ch_s) [1..<n + 1] (mat, 0);
     Some (mat, last_row(ch_s \<mapsto> row))
   })"

definition matrix_distance :: "'a list \<Rightarrow> 'a list \<Rightarrow> nat option" where
  "matrix_distance source target = do {
     let m = length source;
     let n = length target;
     mat \<leftarrow> matrix_init m n;
     (mat, _) \<leftarrow> for_each (row_step source target) [1..<m + 1] (mat, Map.empty);
     vget mat (index (n + 2) (m + 1) (n + 1))
   }"

definition damerau_lev :: "'a list \<Rightarrow> 'a list \<Rightarrow> nat option" where
  "damerau_lev source target = do {
     prefix \<leftarrow> longest_common_prefix source target;
     let source = drop prefix source;
     let target = drop prefix target;
     suffix \<leftarrow> longest_common_suffix source target;
     let source = take (length source - suffix) source;
     let target = take (length target - suffix) target;
     if length source = 0 then Some (length target)
     else if length target = 0 then Some (length source)
     else matrix_distance source target
   }"

text \<open>\<open>kendall_tau\<close> is a stub in the source.\<close>

definition kendall_tau :: "'a list \<Rightarrow> 'a list \<Rightarrow> nat \<Rightarrow> nat" where
  "kendall_tau source target len = 0"

subsection \<open>The reference: edit scripts\<close>

text \<open>\<open>edits k xs ys\<close>: \<open>k\<close> insertions, deletions, substitutions and adjacent swaps turn \<open>xs\<close> into \<open>ys\<close>.\<close>

inductive edit :: "'a list \<Rightarrow> 'a list \<Rightarrow> bool" where
  insertion: "edit (xs @ ys) (xs @ y # ys)"
| deletion: "edit (xs @ y # ys) (xs @ ys)"
| substitution: "edit (xs @ x # ys) (xs @ y # ys)"
| swap: "edit (xs @ x # y # ys) (xs @ y # x # ys)"

primrec edits :: "nat \<Rightarrow> 'a list \<Rightarrow> 'a list \<Rightarrow> bool" where
  "edits 0 xs zs \<longleftrightarrow> xs = zs"
| "edits (Suc k) xs zs \<longleftrightarrow> (\<exists>ys. edit xs ys \<and> edits k ys zs)"

lemma edits_trans: "edits j xs ys \<Longrightarrow> edits k ys zs \<Longrightarrow> edits (j + k) xs zs"
  by (induction j arbitrary: xs) auto

lemma edits_one: "edit xs ys \<Longrightarrow> edits 1 xs ys"
  by simp

lemma edit_context: "edit xs ys \<Longrightarrow> edit (us @ xs @ vs) (us @ ys @ vs)"
proof (induction rule: edit.induct)
  case (insertion xs ys y)
  show ?case using edit.insertion [of "us @ xs" "ys @ vs" y] by simp
next
  case (deletion xs y ys)
  show ?case using edit.deletion [of "us @ xs" y "ys @ vs"] by simp
next
  case (substitution xs x ys y)
  show ?case using edit.substitution [of "us @ xs" x "ys @ vs" y] by simp
next
  case (swap xs x y ys)
  show ?case using edit.swap [of "us @ xs" x y "ys @ vs"] by simp
qed

lemma edits_context: "edits k xs ys \<Longrightarrow> edits k (us @ xs @ vs) (us @ ys @ vs)"
  by (induction k arbitrary: xs) (auto intro: edit_context)

lemma edits_snoc: "edits k xs ys \<Longrightarrow> edits k (xs @ vs) (ys @ vs)"
  using edits_context [of k xs ys "[]" vs] by simp

lemma delete_all: "edits (length ys) (xs @ ys @ zs) (xs @ zs)"
proof (induction ys)
  case (Cons y ys)
  have "edit (xs @ (y # ys) @ zs) (xs @ ys @ zs)" using edit.deletion [of xs y "ys @ zs"] by simp
  with Cons show ?case by auto
qed simp

lemma insert_all: "edits (length ys) (xs @ zs) (xs @ ys @ zs)"
proof (induction ys arbitrary: zs rule: rev_induct)
  case (snoc y ys)
  have "edit (xs @ zs) (xs @ y # zs)" by (rule edit.insertion)
  with snoc [of "y # zs"] show ?case by auto
qed simp

lemma edits_length: "edits k xs ys \<Longrightarrow> length xs \<le> length ys + k \<and> length ys \<le> length xs + k"
proof (induction k arbitrary: xs)
  case (Suc k)
  then obtain zs where zs: "edit xs zs" "edits k zs ys" by auto
  from zs(1) have "length xs \<le> Suc (length zs) \<and> length zs \<le> Suc (length xs)"
    by (cases rule: edit.cases) auto
  with Suc.IH [OF zs(2)] show ?case by linarith
qed simp

subsection \<open>The recurrence\<close>

text \<open>The last position of an element, counted from one, and zero if it does not occur.\<close>

definition last_pos :: "'a list \<Rightarrow> 'a \<Rightarrow> nat" where
  "last_pos xs x = length (dropWhile (\<lambda>y. y \<noteq> x) (rev xs))"

lemma last_pos_Nil [simp]: "last_pos [] x = 0"
  by (simp add: last_pos_def)

lemma last_pos_snoc [simp]: "last_pos (xs @ [y]) x = (if y = x then Suc (length xs) else last_pos xs x)"
  by (simp add: last_pos_def)

lemma last_pos_le: "last_pos xs x \<le> length xs"
  by (simp add: last_pos_def) (metis length_dropWhile_le length_rev)

lemma last_pos_nth: "0 < last_pos xs x \<Longrightarrow> xs ! (last_pos xs x - 1) = x"
proof (induction xs rule: rev_induct)
  case (snoc y ys)
  with last_pos_le [of ys x] show ?case by (auto simp: nth_append split: if_splits)
qed simp

function dl :: "'a list \<Rightarrow> 'a list \<Rightarrow> nat \<Rightarrow> nat \<Rightarrow> nat" where
  "dl s t 0 j = j"
| "dl s t (Suc i) 0 = Suc i"
| "dl s t (Suc i) (Suc j) =
     (let r = last_pos (take i s) (t ! j);
          c = last_pos (take j t) (s ! i);
          plain = min (min (dl s t i (Suc j) + 1) (dl s t (Suc i) j + 1))
                    (dl s t i j + (if s ! i = t ! j then 0 else 1))
      in if 0 < r \<and> 0 < c then min plain (dl s t (r - 1) (c - 1) + (i - r) + 1 + (j - c)) else plain)"
  by pat_completeness auto
termination
proof (relation "measure (\<lambda>(s, t, i, j). i + j)", goal_cases)
  case (5 s t i j r c)
  have "last_pos (take i s) (t ! j) \<le> i" "last_pos (take j t) (s ! i) \<le> j"
    using last_pos_le [of "take i s" "t ! j"] last_pos_le [of "take j t" "s ! i"] by simp_all
  with 5 show ?case by simp
qed auto

lemma dl_0_right [simp]: "dl s t i 0 = i"
  by (cases i) simp_all

lemma dl_le: "dl s t i j \<le> max i j"
proof (induction s t i j rule: dl.induct)
  case (3 s t i j)
  have "dl s t i j \<le> max i j" using 3(3) by blast
  then have "dl s t i j + (if s ! i = t ! j then 0 else 1) \<le> Suc (max i j)" by simp
  then show ?case by (auto simp: Let_def min_le_iff_disj)
qed auto

lemma edits_min: "edits a xs ys \<Longrightarrow> edits b xs ys \<Longrightarrow> edits (min a b) xs ys"
  by (simp add: min_def)

lemma take_split_at:
  assumes "0 < r" "r \<le> i" "i < length xs"
  shows "take (Suc i) xs = take (r - 1) xs @ xs ! (r - 1) # drop r (take i xs) @ [xs ! i]"
proof -
  have "take i xs = take (r - 1) (take i xs) @ take i xs ! (r - 1) # drop (Suc (r - 1)) (take i xs)"
    using assms by (intro id_take_nth_drop) simp
  moreover have "min (r - 1) i = r - 1" using assms by simp
  ultimately show ?thesis using assms by (simp add: take_Suc_conv_app_nth)
qed

lemma edits_swap_gap: "edits k xs ys
   \<Longrightarrow> edits (k + length us + 1 + length vs) (xs @ x # us @ [y]) (ys @ y # vs @ [x])"
proof -
  assume "edits k xs ys"
  then have 1: "edits k (xs @ x # us @ [y]) (ys @ x # us @ [y])" by (rule edits_snoc)
  have 2: "edits (length us) (ys @ x # us @ [y]) (ys @ [x, y])"
    using delete_all [of us "ys @ [x]" "[y]"] by simp
  have 3: "edits 1 (ys @ [x, y]) (ys @ [y, x])"
    using edits_one [OF edit.swap [of ys x y "[]"]] .
  have 4: "edits (length vs) (ys @ [y, x]) (ys @ y # vs @ [x])"
    using insert_all [of vs "ys @ [y]" "[x]"] by simp
  show ?thesis by (intro edits_trans [OF edits_trans [OF edits_trans [OF 1 2] 3] 4])
qed

lemma dl_edits: "i \<le> length s \<Longrightarrow> j \<le> length t \<Longrightarrow> edits (dl s t i j) (take i s) (take j t)"
proof (induction s t i j rule: dl.induct)
  case (1 s t j)
  then show ?case using insert_all [of "take j t" "[]" "[]"] by simp
next
  case (2 s t i)
  then show ?case using delete_all [of "take (Suc i) s" "[]" "[]"] by (simp del: take_Suc edits.simps)
next
  case (3 s t i j)
  let ?r = "last_pos (take i s) (t ! j)" and ?c = "last_pos (take j t) (s ! i)"
  have i: "take (Suc i) s = take i s @ [s ! i]" and j: "take (Suc j) t = take j t @ [t ! j]"
    using 3(5,6) by (simp_all add: take_Suc_conv_app_nth)
  have r: "?r \<le> i" and c: "?c \<le> j"
    using last_pos_le [of "take i s" "t ! j"] last_pos_le [of "take j t" "s ! i"] by simp_all
  have "edits (1 + dl s t i (Suc j)) (take (Suc i) s) (take (Suc j) t)"
    using 3(1) [OF refl refl] 3(5,6) edit.deletion [of "take i s" "s ! i" "[]"]
    by (intro edits_trans [OF edits_one]) (auto simp: i)
  then have "edits (dl s t i (Suc j) + 1) (take (Suc i) s) (take (Suc j) t)"
    by (simp only: add.commute)
  moreover have "edits (dl s t (Suc i) j + 1) (take (Suc i) s) (take (Suc j) t)"
    using 3(2) [OF refl refl] 3(5,6) edit.insertion [of "take j t" "[]" "t ! j"]
    by (intro edits_trans [OF _ edits_one]) (auto simp: j)
  moreover have "edits (dl s t i j + (if s ! i = t ! j then 0 else 1)) (take (Suc i) s) (take (Suc j) t)"
  proof -
    have "edits (dl s t i j) (take i s @ [s ! i]) (take j t @ [s ! i])"
      using 3(3) [OF refl refl] 3(5,6) by (intro edits_snoc) simp
    moreover have "edits 1 (take j t @ [s ! i]) (take j t @ [t ! j])"
      by (rule edits_one) (rule edit.substitution)
    ultimately show ?thesis using edits_trans by (fastforce simp: i j)
  qed
  moreover have "edits (dl s t (?r - 1) (?c - 1) + (i - ?r) + 1 + (j - ?c)) (take (Suc i) s) (take (Suc j) t)"
    if pos: "0 < ?r" "0 < ?c"
  proof -
    have nth: "s ! (?r - 1) = t ! j" "t ! (?c - 1) = s ! i"
      using last_pos_nth [OF pos(1)] last_pos_nth [OF pos(2)] pos r c by simp_all
    have "edits (dl s t (?r - 1) (?c - 1)) (take (?r - 1) s) (take (?c - 1) t)"
      using 3(4) [OF refl refl] pos r c 3(5,6) by simp
    from edits_swap_gap [OF this, of "drop ?r (take i s)" "drop ?c (take j t)" "t ! j" "s ! i"]
    show ?thesis
      using take_split_at [OF pos(1) r, of s] take_split_at [OF pos(2) c, of t] nth 3(5,6)
      by (simp add: min_def)
  qed
  ultimately show ?case
    unfolding dl.simps(3) Let_def by (cases "0 < ?r \<and> 0 < ?c") (simp_all only: if_True if_False edits_min simp_thms)
qed

subsection \<open>The matrix\<close>

lemma index_less: "r < h \<Longrightarrow> c < w \<Longrightarrow> index w r c < w * h"
  using row_major_less [of r h c w] by (simp add: index_def mult.commute)

lemma index_eq_iff: "c < w \<Longrightarrow> c' < w \<Longrightarrow> index w r c = index w r' c' \<longleftrightarrow> r = r' \<and> c = c'"
  using row_major_eq_iff [of c w c' r r'] by (simp add: index_def mult.commute)

text \<open>A matrix of the right size, one cell of it, and a cell written.\<close>

definition matrix_of :: "nat \<Rightarrow> nat \<Rightarrow> nat list \<Rightarrow> bool" where
  "matrix_of m n mat \<longleftrightarrow> length mat = (n + 2) * (m + 2)"

definition cell :: "nat \<Rightarrow> nat list \<Rightarrow> nat \<Rightarrow> nat \<Rightarrow> nat" where
  "cell n mat r c = mat ! index (n + 2) r c"

definition set_cell :: "nat \<Rightarrow> nat list \<Rightarrow> nat \<Rightarrow> nat \<Rightarrow> nat \<Rightarrow> nat list" where
  "set_cell n mat r c v = mat[index (n + 2) r c := v]"

declare add_2_eq_Suc' [simp del]

lemma matrix_of_set_cell [simp]: "matrix_of m n (set_cell n mat r c v) \<longleftrightarrow> matrix_of m n mat"
  by (simp add: matrix_of_def set_cell_def)

lemma cell_set_cell:
  assumes "matrix_of m n mat" "r \<le> m + 1" "c \<le> n + 1" "c' \<le> n + 1"
  shows "cell n (set_cell n mat r c v) r' c' = (if r' = r \<and> c' = c then v else cell n mat r' c')"
  using assms index_less [of r "m + 2" c "n + 2"] index_eq_iff [of c "n + 2" c' r r']
  by (auto simp: cell_def set_cell_def matrix_of_def nth_list_update)

lemma vset_cell:
  assumes "matrix_of m n mat" "r \<le> m + 1" "c \<le> n + 1"
  shows "vset mat (index (n + 2) r c) v = Some (set_cell n mat r c v)"
proof -
  have "index (n + 2) r c < (n + 2) * (m + 2)" using assms by (intro index_less) simp_all
  then show ?thesis using assms(1) by (simp add: set_cell_def matrix_of_def)
qed

lemma vget_cell:
  assumes "matrix_of m n mat" "r \<le> m + 1" "c \<le> n + 1"
  shows "vget mat (index (n + 2) r c) = Some (cell n mat r c)"
proof -
  have "index (n + 2) r c < (n + 2) * (m + 2)" using assms by (intro index_less) simp_all
  then show ?thesis using assms(1) by (simp add: cell_def matrix_of_def)
qed

definition rows_init :: "nat \<Rightarrow> nat \<Rightarrow> nat \<Rightarrow> nat list \<Rightarrow> bool" where
  "rows_init m n k mat \<longleftrightarrow> matrix_of m n mat \<and> cell n mat 0 0 = m + n
     \<and> (\<forall>i < k. cell n mat (i + 1) 1 = i \<and> cell n mat (i + 1) 0 = m + n)"

definition cols_init :: "nat \<Rightarrow> nat \<Rightarrow> nat \<Rightarrow> nat list \<Rightarrow> bool" where
  "cols_init m n k mat \<longleftrightarrow> rows_init m n (m + 1) mat
     \<and> (\<forall>j < k. cell n mat 1 (j + 1) = j \<and> cell n mat 0 (j + 1) = m + n)"

lemma rows_init_step:
  assumes k: "k < m + 1" and P: "rows_init m n k mat"
  shows "\<exists>mat'. (do { mat \<leftarrow> vset mat (index (n + 2) (k + 1) 1) k; vset mat (index (n + 2) (k + 1) 0) (m + n) })
      = Some mat' \<and> rows_init m n (Suc k) mat'"
proof -
  have wf: "matrix_of m n mat" using P by (simp add: rows_init_def)
  let ?mat2 = "set_cell n (set_cell n mat (k + 1) 1 k) (k + 1) 0 (m + n)"
  have "cell n ?mat2 r c = (if r = k + 1 \<and> c = 0 then m + n else if r = k + 1 \<and> c = 1 then k
      else cell n mat r c)" if "c \<le> n + 1" for r c
    using wf k that by (simp add: cell_set_cell [of m])
  then have "rows_init m n (Suc k) ?mat2" using P by (auto simp: rows_init_def less_Suc_eq)
  moreover have "do { mat \<leftarrow> vset mat (index (n + 2) (k + 1) 1) k; vset mat (index (n + 2) (k + 1) 0) (m + n) }
      = Some ?mat2"
    using wf k by (simp add: vset_cell [of m])
  ultimately show ?thesis by blast
qed

lemma cols_init_step:
  assumes k: "k < n + 1" and Q: "cols_init m n k mat"
  shows "\<exists>mat'. (do { mat \<leftarrow> vset mat (index (n + 2) 1 (k + 1)) k; vset mat (index (n + 2) 0 (k + 1)) (m + n) })
      = Some mat' \<and> cols_init m n (Suc k) mat'"
proof -
  have wf: "matrix_of m n mat" using Q by (simp add: cols_init_def rows_init_def)
  let ?mat2 = "set_cell n (set_cell n mat 1 (k + 1) k) 0 (k + 1) (m + n)"
  have "cell n ?mat2 r c = (if r = 0 \<and> c = k + 1 then m + n else if r = 1 \<and> c = k + 1 then k
      else cell n mat r c)" if "c \<le> n + 1" for r c
    using wf k that by (simp add: cell_set_cell [of m])
  then have "cols_init m n (Suc k) ?mat2" using Q k by (auto simp: cols_init_def rows_init_def less_Suc_eq)
  moreover have "do { mat \<leftarrow> vset mat (index (n + 2) 1 (k + 1)) k; vset mat (index (n + 2) 0 (k + 1)) (m + n) }
      = Some ?mat2"
    using wf k by (simp add: vset_cell [of m])
  ultimately show ?thesis by blast
qed

lemma matrix_init_ok: "\<exists>mat. matrix_init m n = Some mat \<and> cols_init m n (n + 1) mat"
proof -
  let ?f = "\<lambda>i mat. do { mat \<leftarrow> vset mat (index (n + 2) (i + 1) 1) i; vset mat (index (n + 2) (i + 1) 0) (m + n) }"
  let ?g = "\<lambda>j mat. do { mat \<leftarrow> vset mat (index (n + 2) 1 (j + 1)) j; vset mat (index (n + 2) 0 (j + 1)) (m + n) }"
  let ?mat0 = "(replicate ((n + 2) * (m + 2)) 0)[0 := m + n]"
  have "rows_init m n 0 ?mat0" by (simp add: rows_init_def cell_def index_def matrix_of_def)
  then have "\<exists>mat. for_each ?f [0..<m + 1] ?mat0 = Some mat \<and> rows_init m n (m + 1) mat"
    by (rule for_range_rule [of 0 "m + 1" "rows_init m n", rotated]) (simp_all only: rows_init_step le0)
  then obtain mat1 where mat1: "for_each ?f [0..<m + 1] ?mat0 = Some mat1" "cols_init m n 0 mat1"
    by (auto simp: cols_init_def)
  have "\<exists>mat. for_each ?g [0..<n + 1] mat1 = Some mat \<and> cols_init m n (n + 1) mat"
    by (rule for_range_rule [of 0 "n + 1" "cols_init m n"]) (simp_all only: mat1(2) cols_init_step le0)
  moreover have "vset (replicate ((n + 2) * (m + 2)) 0) 0 (m + n) = Some ?mat0" by simp
  ultimately show ?thesis using mat1(1) by (auto simp: matrix_init_def Let_def simp del: vset_Some)
qed

text \<open>The cells filled before row \<open>row\<close> and column \<open>col\<close> hold the recurrence.\<close>

definition filled :: "'a list \<Rightarrow> 'a list \<Rightarrow> nat \<Rightarrow> nat \<Rightarrow> nat list \<Rightarrow> bool" where
  "filled s t row col mat \<longleftrightarrow> (let m = length s; n = length t in
     matrix_of m n mat
     \<and> (\<forall>r \<le> m + 1. cell n mat r 0 = m + n) \<and> (\<forall>c \<le> n + 1. cell n mat 0 c = m + n)
     \<and> (\<forall>r \<le> m. \<forall>c \<le> n. r = 0 \<or> c = 0 \<or> r < row \<or> r = row \<and> c < col \<longrightarrow> cell n mat (r + 1) (c + 1) = dl s t r c))"

lemma filledD:
  assumes "filled s t row col mat"
  shows "matrix_of (length s) (length t) mat"
    "r \<le> length s + 1 \<Longrightarrow> cell (length t) mat r 0 = length s + length t"
    "c \<le> length t + 1 \<Longrightarrow> cell (length t) mat 0 c = length s + length t"
    "r \<le> length s \<Longrightarrow> c \<le> length t \<Longrightarrow> r = 0 \<or> c = 0 \<or> r < row \<or> r = row \<and> c < col
      \<Longrightarrow> cell (length t) mat (Suc r) (Suc c) = dl s t r c"
  using assms unfolding filled_def Let_def Suc_eq_plus1 by blast+

lemma cols_init_filled:
  assumes "cols_init (length s) (length t) (length t + 1) mat"
  shows "filled s t 1 1 mat"
proof -
  have c: "cell (length t) mat r 0 = length s + length t" if "r \<le> length s + 1" for r
    using assms that by (cases r) (auto simp: cols_init_def rows_init_def)
  moreover have "cell (length t) mat 0 c = length s + length t" if "c \<le> length t + 1" for c
    using assms that by (cases c) (auto simp: cols_init_def rows_init_def)
  moreover have "cell (length t) mat (r + 1) (c + 1) = dl s t r c"
    if "r \<le> length s" "c \<le> length t" "r = 0 \<or> c = 0" for r c
    using assms that by (auto simp: cols_init_def rows_init_def)
  ultimately show ?thesis using assms by (auto simp: filled_def Let_def cols_init_def rows_init_def)
qed

text \<open>What the code computes for one cell.\<close>

lemma cell_value:
  assumes i: "i < length s" and j: "j < length t" and F: "filled s t (Suc i) (Suc j) mat"
    and r: "r = last_pos (take i s) (t ! j)" and c: "c = last_pos (take j t) (s ! i)"
  defines "a \<equiv> cell (length t) mat (Suc i) (Suc (Suc j))" and "d \<equiv> cell (length t) mat (Suc (Suc i)) (Suc j)"
    and "e \<equiv> cell (length t) mat (Suc i) (Suc j)" and "x \<equiv> cell (length t) mat r c"
  shows "min (min (min (a + 1) (d + 1)) (e + (if s ! i = t ! j then 0 else 1))) (x + (i - r) + 1 + (j - c))
    = dl s t (Suc i) (Suc j)"
proof -
  note F = filledD [OF F]
  have rc: "r \<le> i" "c \<le> j"
    using last_pos_le [of "take i s" "t ! j"] last_pos_le [of "take j t" "s ! i"] by (simp_all add: r c)
  have ade: "a = dl s t i (Suc j)" "d = dl s t (Suc i) j" "e = dl s t i j"
    unfolding a_def d_def e_def using i j by (auto intro!: F(4))
  have "x = (if 0 < r \<and> 0 < c then dl s t (r - 1) (c - 1) else length s + length t)"
  proof (cases "0 < r \<and> 0 < c")
    case True
    then obtain r' c' where "r = Suc r'" "c = Suc c'" by (auto simp: gr0_conv_Suc)
    with rc i j show ?thesis by (auto simp: x_def intro!: F(4))
  next
    case False
    with rc i j F(2) [of r] F(3) [of c] show ?thesis by (auto simp: x_def)
  qed
  moreover have "dl s t i j + (if s ! i = t ! j then 0 else 1) \<le> length s + length t"
    using dl_le [of s t i j] i j by auto
  ultimately show ?thesis
    unfolding dl.simps(3) Let_def r [symmetric] c [symmetric] ade by (auto simp: min_def)
qed

definition last_rows :: "'a list \<Rightarrow> 'a \<rightharpoonup> nat" where
  "last_rows xs x = (let r = last_pos xs x in if r = 0 then None else Some r)"

lemma last_rows_snoc: "last_rows (xs @ [y]) = (last_rows xs)(y \<mapsto> Suc (length xs))"
  by (auto simp: last_rows_def fun_eq_iff Let_def)

lemma last_rows_default: "(case last_rows xs x of Some r \<Rightarrow> r | None \<Rightarrow> 0) = last_pos xs x"
  by (simp add: last_rows_def Let_def)

lemma cell_step_ok:
  assumes i: "i < length s" and j: "j < length t" and F: "filled s t (Suc i) (Suc j) mat"
  shows "\<exists>mat'. cell_step (length t + 2) t (last_rows (take i s)) (Suc i) (s ! i) (Suc j) (mat, last_pos (take j t) (s ! i))
      = Some (mat', last_pos (take (Suc j) t) (s ! i)) \<and> filled s t (Suc i) (Suc (Suc j)) mat'"
proof -
  let ?n = "length t" and ?r = "last_pos (take i s) (t ! j)" and ?c = "last_pos (take j t) (s ! i)"
  let ?mat = "set_cell ?n mat (Suc (Suc i)) (Suc (Suc j)) (dl s t (Suc i) (Suc j))"
  have rc: "?r \<le> i" "?c \<le> j"
    using last_pos_le [of "take i s" "t ! j"] last_pos_le [of "take j t" "s ! i"] by simp_all
  note wf = filledD(1) [OF F]
  have get: "vget mat (index (?n + 2) r c) = Some (cell ?n mat r c)" if "r \<le> Suc (length s)" "c \<le> Suc ?n" for r c
    using vget_cell [OF wf] that by simp
  have put: "vset mat (index (?n + 2) (Suc (Suc i)) (Suc (Suc j))) v = Some (set_cell ?n mat (Suc (Suc i)) (Suc (Suc j)) v)" for v
    using vset_cell [OF wf] i j by simp
  have pos: "last_pos (take (Suc j) t) (s ! i) = (if s ! i = t ! j then Suc j else ?c)"
    using j by (simp add: take_Suc_conv_app_nth eq_commute)
  have mins: "(if z < (if y < (if b < a then b else a) then y else if b < a then b else a) then z
      else if y < (if b < a then b else a) then y else if b < a then b else a) = min (min (min a b) y) z" for a b y z :: nat
    by (auto simp: min_def)
  have run: "cell_step (?n + 2) t (last_rows (take i s)) (Suc i) (s ! i) (Suc j) (mat, ?c)
      = Some (?mat, last_pos (take (Suc j) t) (s ! i))"
  proof -
    have "vget t (Suc j - 1) = Some (t ! j)"
      "vget mat (index (?n + 2) (Suc i) (Suc j + 1)) = Some (cell ?n mat (Suc i) (Suc (Suc j)))"
      "vget mat (index (?n + 2) (Suc i + 1) (Suc j)) = Some (cell ?n mat (Suc (Suc i)) (Suc j))"
      "vget mat (index (?n + 2) (Suc i) (Suc j)) = Some (cell ?n mat (Suc i) (Suc j))"
      "vget mat (index (?n + 2) ?r ?c) = Some (cell ?n mat ?r ?c)"
      using i j rc by (simp_all add: get)
    moreover have "sub_u64 (Suc i) ?r = Some (Suc i - ?r)" "sub_u64 (Suc i - ?r) 1 = Some (i - ?r)"
      "sub_u64 (Suc j) ?c = Some (Suc j - ?c)" "sub_u64 (Suc j - ?c) 1 = Some (j - ?c)"
      using rc by (simp_all add: sub_u64_def)
    moreover have "vset mat (index (?n + 2) (Suc i + 1) (Suc j + 1)) v = Some (set_cell ?n mat (Suc (Suc i)) (Suc (Suc j)) v)" for v
      using put by simp
    moreover have "((if s ! i = t ! j then 0 else 1 :: nat) = 0) = (s ! i = t ! j)" by simp
    ultimately show ?thesis
      by (simp only: cell_step_def prod.case Let_def Option.bind.bind_lunit last_rows_default mins pos
          cell_value [OF i j F refl refl])
  qed
  have "filled s t (Suc i) (Suc (Suc j)) ?mat"
    using F i j by (auto simp: filled_def Let_def cell_set_cell [OF wf] less_Suc_eq)
  with run show ?thesis by blast
qed

lemma filled_next_row:
  assumes "filled s t row (length t + 1) mat"
  shows "filled s t (Suc row) 1 mat"
proof -
  have "cell (length t) mat (r + 1) (c + 1) = dl s t r c"
    if "r \<le> length s" "c \<le> length t" "r = 0 \<or> c = 0 \<or> r < Suc row \<or> r = Suc row \<and> c < 1" for r c
    using filledD(4) [OF assms that(1,2)] that by (simp only: Suc_eq_plus1) linarith
  then show ?thesis
    using filledD(1-3) [OF assms] unfolding filled_def Let_def by blast
qed

lemma row_step_ok:
  assumes i: "i < length s" and F: "filled s t (Suc i) 1 mat"
  shows "\<exists>mat'. row_step s t (Suc i) (mat, last_rows (take i s)) = Some (mat', last_rows (take (Suc i) s))
      \<and> filled s t (Suc (Suc i)) 1 mat'"
proof -
  let ?n = "length t"
  let ?P = "\<lambda>k st. filled s t (Suc i) k (fst st) \<and> snd st = last_pos (take (k - 1) t) (s ! i)"
  have "\<exists>st. for_each (cell_step (?n + 2) t (last_rows (take i s)) (Suc i) (s ! i)) [1..<?n + 1] (mat, 0) = Some st
      \<and> ?P (?n + 1) st"
  proof (rule for_range_rule)
    show "?P 1 (mat, 0)" using F by simp
    fix k st
    assume k: "1 \<le> k" "k < ?n + 1" and P: "?P k st"
    from k obtain j where j: "k = Suc j" "j < ?n" by (cases k) auto
    with P have st: "st = (fst st, last_pos (take j t) (s ! i))" and F': "filled s t (Suc i) (Suc j) (fst st)"
      by (auto simp: prod_eq_iff)
    from cell_step_ok [OF i j(2) F'] st j(1)
    show "\<exists>st'. cell_step (?n + 2) t (last_rows (take i s)) (Suc i) (s ! i) k st = Some st' \<and> ?P (Suc k) st'"
      by (metis diff_Suc_1 fst_conv snd_conv)
  qed simp
  then obtain mat' c where run: "for_each (cell_step (?n + 2) t (last_rows (take i s)) (Suc i) (s ! i)) [1..<?n + 1] (mat, 0)
      = Some (mat', c)" and F': "filled s t (Suc i) (?n + 1) mat'"
    by fastforce
  from F' have "filled s t (Suc (Suc i)) 1 mat'" by (rule filled_next_row)
  moreover have "row_step s t (Suc i) (mat, last_rows (take i s)) = Some (mat', last_rows (take (Suc i) s))"
    using i run by (simp add: row_step_def Let_def take_Suc_conv_app_nth last_rows_snoc del: upt_Suc)
  ultimately show ?thesis by blast
qed

lemma matrix_distance_eq: "matrix_distance s t = Some (dl s t (length s) (length t))"
proof -
  let ?m = "length s" and ?n = "length t"
  obtain mat0 where mat0: "matrix_init ?m ?n = Some mat0" "filled s t 1 1 mat0"
    using matrix_init_ok cols_init_filled by blast
  let ?P = "\<lambda>k st. filled s t k 1 (fst st) \<and> snd st = last_rows (take (k - 1) s)"
  have "\<exists>st. for_each (row_step s t) [1..<?m + 1] (mat0, Map.empty) = Some st \<and> ?P (?m + 1) st"
  proof (rule for_range_rule)
    show "?P 1 (mat0, Map.empty)" using mat0(2) by (simp add: last_rows_def fun_eq_iff)
    fix k st
    assume k: "1 \<le> k" "k < ?m + 1" and P: "?P k st"
    from k obtain i where i: "k = Suc i" "i < ?m" by (cases k) auto
    with P have st: "st = (fst st, last_rows (take i s))" and F: "filled s t (Suc i) 1 (fst st)"
      by (auto simp: prod_eq_iff)
    from row_step_ok [OF i(2) F] st i(1) show "\<exists>st'. row_step s t k st = Some st' \<and> ?P (Suc k) st'"
      by (metis diff_Suc_1 fst_conv snd_conv)
  qed simp
  then obtain mat lr where run: "for_each (row_step s t) [1..<?m + 1] (mat0, Map.empty) = Some (mat, lr)"
    and F: "filled s t (?m + 1) 1 mat" by fastforce
  have "vget mat (index (?n + 2) (?m + 1) (?n + 1)) = Some (dl s t ?m ?n)"
    using vget_cell [OF filledD(1) [OF F], of "?m + 1" "?n + 1"] filledD(4) [OF F, of ?m ?n] by simp
  with mat0(1) run show ?thesis by (simp add: matrix_distance_def Let_def del: upt_Suc)
qed

subsection \<open>Trimming\<close>

fun lcp :: "'a list \<Rightarrow> 'a list \<Rightarrow> nat" where
  "lcp (x # xs) (y # ys) = (if x = y then Suc (lcp xs ys) else 0)"
| "lcp _ _ = 0"

lemma lcp_take: "take (lcp a b) a = take (lcp a b) b"
  by (induction a b rule: lcp.induct) auto

lemma lcp_le: "lcp a b \<le> length a" "lcp a b \<le> length b"
  by (induction a b rule: lcp.induct) auto

text \<open>The loop returns exactly when the slices differ: at the end of both, \<open>None == None\<close> for ever.\<close>

lemma common_loop_returns: "a \<noteq> b \<Longrightarrow> common_loop a b c = Some (c + lcp a b)"
proof (induction a arbitrary: b c)
  case Nil
  then obtain y ys where "b = y # ys" by (cases b) auto
  then show ?case by (simp add: common_loop.simps [of "[]"])
next
  case (Cons x xs)
  then show ?case by (cases b) (simp_all add: common_loop.simps [of "x # xs"])
qed

lemma common_loop_differ: "common_loop a b c = Some k \<Longrightarrow> a \<noteq> b"
proof (erule common_loop.raw_induct [of "\<lambda>a b c k. a \<noteq> b", rotated])
  fix f :: "'a list \<Rightarrow> 'a list \<Rightarrow> nat \<Rightarrow> nat option" and a b c k
  assume "\<And>a b c k. f a b c = Some k \<Longrightarrow> a \<noteq> b"
    "(if iter_next a = iter_next b then f (tl a) (tl b) (c + 1) else Some c) = Some k"
  then show "a \<noteq> b" by (auto split: if_splits)
qed

lemma common_loop_same: "common_loop a a c = None"
  using common_loop_differ [of a a c] by (cases "common_loop a a c") auto

lemma trim_prefix:
  assumes "a \<noteq> b"
  obtains p a' b' where "a = p @ a'" "b = p @ b'" "lcp a b = length p" "a' \<noteq> b'"
proof -
  have "a = take (lcp a b) a @ drop (lcp a b) a" "b = take (lcp a b) a @ drop (lcp a b) b"
    using lcp_take [of a b] append_take_drop_id by metis+
  moreover from this have "drop (lcp a b) a \<noteq> drop (lcp a b) b" using assms by metis
  moreover have "lcp a b = length (take (lcp a b) a)" using lcp_le(1) [of a b] by simp
  ultimately show ?thesis using that by blast
qed

text \<open>
  C29: the edit distance of two different sequences is a number of edits that really leads from one to
  the other, by insertions, deletions, substitutions and swaps of neighbours; the matrix algorithm
  never indexes out of range nor underflows, the value is positive and at most the longer length. For
  two equal sequences the function does not return: both iterators are exhausted and the comparison of
  their ends stays true for ever.
\<close>

theorem damerau_lev_edits:
  "(source \<noteq> target \<longrightarrow> (\<exists>d. damerau_lev source target = Some d \<and> edits d source target \<and> 0 < d
      \<and> d \<le> max (length source) (length target)))
   \<and> damerau_lev source source = None"
proof (intro conjI impI)
  show "damerau_lev source source = None"
    by (simp add: damerau_lev_def longest_common_prefix_def common_loop_same)
  assume "source \<noteq> target"
  then obtain p a b where ab: "source = p @ a" "target = p @ b" "lcp source target = length p" "a \<noteq> b"
    by (rule trim_prefix)
  then have "rev a \<noteq> rev b" by simp
  then obtain q a' b' where q: "rev a = q @ a'" "rev b = q @ b'" "lcp (rev a) (rev b) = length q" "a' \<noteq> b'"
    by (rule trim_prefix)
  define s t where "s = rev a'" and "t = rev b'"
  have st: "a = s @ rev q" "b = t @ rev q" "s \<noteq> t"
    using q by (auto simp: s_def t_def rev_swap)
  define d where "d = dl s t (length s) (length t)"
  have pre: "longest_common_prefix source target = Some (length p)"
    using ab common_loop_returns [of source target 0] by (auto simp: longest_common_prefix_def)
  have suf: "longest_common_suffix a b = Some (length q)"
    using q common_loop_returns [of "rev a" "rev b" 0] ab(4) by (simp add: longest_common_suffix_def)
  have run: "damerau_lev source target = Some d"
  proof -
    have dr: "drop (length p) source = a" "drop (length p) target = b" using ab by simp_all
    have tk: "take (length a - length q) a = s" "take (length b - length q) b = t" using st by simp_all
    have "(if length s = 0 then Some (length t) else if length t = 0 then Some (length s) else matrix_distance s t)
        = Some d"
      by (simp add: matrix_distance_eq d_def)
    then show ?thesis
      by (simp only: damerau_lev_def Let_def pre Option.bind.bind_lunit dr suf tk)
  qed
  have "edits d s t" using dl_edits [of "length s" s "length t" t] by (simp add: d_def)
  then have ed: "edits d source target" unfolding ab(1,2) st(1,2) by (rule edits_context)
  moreover have "0 < d" using ed \<open>source \<noteq> target\<close> by (metis edits.simps(1) gr0I)
  moreover have "d \<le> max (length source) (length target)"
    using dl_le [of s t "length s" "length t"] by (auto simp: d_def ab(1,2) st(1,2))
  ultimately show "\<exists>d. damerau_lev source target = Some d \<and> edits d source target \<and> 0 < d
      \<and> d \<le> max (length source) (length target)"
    using run by blast
qed

theorem damerau_lev_edits_witness:
  "''a abct'' \<noteq> ''a cat''
   \<and> (\<exists>d. damerau_lev ''a abct'' ''a cat'' = Some d \<and> edits d ''a abct'' ''a cat'' \<and> 0 < d \<and> d \<le> 6)
   \<and> damerau_lev ''cat'' ''cat'' = None"
  using damerau_lev_edits [of "''a abct''" "''a cat''"] damerau_lev_edits [of "''cat''" "[]"]
  by (simp add: eval_nat_numeral)

declare add_2_eq_Suc' [simp]

end
