(* ===== verification/Needleman.thy ===== *)
theory Needleman
  imports Vec
begin

text \<open>
  Global alignment of two schedules, \<open>NeedlemanWunsch\<close> of
  detcore/src/edit_distance/needleman_wunsch.rs: the scores in two rolling rows, the trace matrix, the
  trace back with its bookkeeping of mismatches, and the midpoint schedule made from an alignment.

  Scores are \<open>i32\<close>: an operation whose result is out of range panics.
\<close>

subsection \<open>Scores\<close>

definition i32_ok :: "int \<Rightarrow> bool" where
  "i32_ok x \<longleftrightarrow> - 2147483648 \<le> x \<and> x \<le> 2147483647"

definition i32 :: "int \<Rightarrow> int option" where
  "i32 x = (if i32_ok x then Some x else None)"

text \<open>The cast of a \<open>usize\<close>, which wraps.\<close>

definition as_i32 :: "nat \<Rightarrow> int" where
  "as_i32 n = (let k = int (n mod 2 ^ 32) in if k < 2 ^ 31 then k else k - 2 ^ 32)"

definition simple_score :: "'a \<Rightarrow> 'a \<Rightarrow> int" where
  "simple_score a b = (if a = b then 1 else - 5)"

subsection \<open>The algorithm\<close>

datatype trace = Stop | Left | Up | MatchDiagonal | MisMatchDiagonal

datatype needleman_wunsch_error = MatrixTooLarge nat nat

record 'a needleman_wunsch =
  first_sequence :: "'a list"
  second_sequence :: "'a list"
  first_extra :: "'a list"
  second_extra :: "'a list"
  mismatches :: "(nat \<times> nat) list"
  num_mismatches :: nat

type_synonym alignment = "(nat option \<times> nat option) list"

definition nw_default :: "'a needleman_wunsch" where
  "nw_default = \<lparr>first_sequence = [], second_sequence = [], first_extra = [], second_extra = [],
     mismatches = [], num_mismatches = 0\<rparr>"

text \<open>The length of the common prefix, by score.\<close>

fun common_start :: "('a \<Rightarrow> 'a \<Rightarrow> int) \<Rightarrow> 'a list \<Rightarrow> 'a list \<Rightarrow> nat" where
  "common_start sf (x # xs) (y # ys) = (if 0 < sf x y then Suc (common_start sf xs ys) else 0)"
| "common_start sf _ _ = 0"

type_synonym score_state = "int list \<times> int list \<times> trace list"

definition score_cell ::
  "('a \<Rightarrow> 'a \<Rightarrow> int) \<Rightarrow> int \<Rightarrow> int \<Rightarrow> 'a list \<Rightarrow> 'a list \<Rightarrow> nat \<Rightarrow> nat \<Rightarrow> nat \<Rightarrow> nat \<Rightarrow> score_state
    \<Rightarrow> score_state option" where
  "score_cell sf gap mism first second start col i j st = (case st of (previous, current, tracing) \<Rightarrow> do {
     x \<leftarrow> vget first (i - 1 + start);
     y \<leftarrow> vget second (j - 1 + start);
     let match_value = sf x y;
     p \<leftarrow> vget previous (j - 1);
     diagonal_score \<leftarrow> i32 (p + (if 0 < match_value then match_value else mism));
     c \<leftarrow> vget current (j - 1);
     horizontal_score \<leftarrow> i32 (c + gap);
     v \<leftarrow> vget previous j;
     vertical_score \<leftarrow> i32 (v + gap);
     let (score, trace) =
       (if horizontal_score \<le> diagonal_score \<and> vertical_score \<le> diagonal_score
        then (diagonal_score, if 0 < match_value then MatchDiagonal else MisMatchDiagonal)
        else if vertical_score \<le> horizontal_score then (horizontal_score, Left)
        else (vertical_score, Up));
     current \<leftarrow> vset current j score;
     tracing \<leftarrow> vset tracing (i * col + j) trace;
     Some (previous, current, tracing)
   })"

definition score_row ::
  "('a \<Rightarrow> 'a \<Rightarrow> int) \<Rightarrow> int \<Rightarrow> int \<Rightarrow> 'a list \<Rightarrow> 'a list \<Rightarrow> nat \<Rightarrow> nat \<Rightarrow> nat \<Rightarrow> score_state
    \<Rightarrow> score_state option" where
  "score_row sf gap mism first second start col i st = (case st of (previous, current, tracing) \<Rightarrow> do {
     border \<leftarrow> i32 (gap * as_i32 i);
     current \<leftarrow> vset current 0 border;
     tracing \<leftarrow> vset tracing (i * col) Up;
     (previous, current, tracing) \<leftarrow>
       for_each (score_cell sf gap mism first second start col i) [1..<col] (previous, current, tracing);
     Some (current, previous, tracing)
   })"

fun first_row :: "int \<Rightarrow> nat list \<Rightarrow> int list option" where
  "first_row gap [] = Some []"
| "first_row gap (j # js) = do {
     x \<leftarrow> i32 (gap * as_i32 j);
     xs \<leftarrow> first_row gap js;
     Some (x # xs)
   }"

text \<open>The trace back: the alignment and the mismatches as they are pushed, last column first.\<close>

function trace_back ::
  "trace list \<Rightarrow> nat \<Rightarrow> nat \<Rightarrow> nat \<Rightarrow> nat \<Rightarrow> alignment \<times> (nat \<times> nat) list \<times> nat
    \<Rightarrow> (alignment \<times> (nat \<times> nat) list \<times> nat) option" where
  "trace_back tracing col start i j (aligned, mis, num) =
     (if i = 0 \<and> j = 0 then Some (aligned, mis, num)
      else (case vget tracing (i * col + j) of
          None \<Rightarrow> None
        | Some MatchDiagonal \<Rightarrow>
            (if i = 0 \<or> j = 0 then None
             else trace_back tracing col start (i - 1) (j - 1)
               (aligned @ [(Some (i - 1 + start), Some (j - 1 + start))], mis, num))
        | Some Up \<Rightarrow>
            (if i = 0 then None
             else trace_back tracing col start (i - 1) j (aligned @ [(Some (i - 1 + start), None)], mis, num + 1))
        | Some Left \<Rightarrow>
            (if j = 0 then None
             else trace_back tracing col start i (j - 1) (aligned @ [(None, Some (j - 1 + start))], mis, num + 1))
        | Some MisMatchDiagonal \<Rightarrow>
            (if i = 0 \<or> j = 0 then None
             else trace_back tracing col start (i - 1) (j - 1)
               (aligned @ [(None, None)], mis @ [(i - 1 + start, j - 1 + start)], num + 2))
        | Some Stop \<Rightarrow> None))"
  by pat_completeness auto
termination by (relation "measure (\<lambda>(tracing, col, start, i, j, acc). i + j)") auto

declare trace_back.simps [simp del]

definition match_sequences_bounded ::
  "('a \<Rightarrow> 'a \<Rightarrow> int) option \<Rightarrow> int option \<Rightarrow> int option \<Rightarrow> nat \<Rightarrow> 'a needleman_wunsch
    \<Rightarrow> ((needleman_wunsch_error + nat \<times> alignment) \<times> 'a needleman_wunsch) option" where
  "match_sequences_bounded scoring gap_penalty mismatch_penalty max_matrix_cells nw =
     (let gap = (case gap_penalty of Some g \<Rightarrow> g | None \<Rightarrow> - 1);
          mism = (case mismatch_penalty of Some g \<Rightarrow> g | None \<Rightarrow> - 2);
          sf = (case scoring of Some f \<Rightarrow> f | None \<Rightarrow> simple_score);
          nw = nw\<lparr>mismatches := [], num_mismatches := 0\<rparr>;
          first = first_sequence nw;
          second = second_sequence nw;
          start_index = common_start sf first second;
          row = length first + 1 - start_index;
          col = length second + 1 - start_index
      in case checked_mul row col of
           None \<Rightarrow> Some (Inl (MatrixTooLarge u64_max max_matrix_cells), nw)
         | Some cells \<Rightarrow>
             if max_matrix_cells < cells then Some (Inl (MatrixTooLarge cells max_matrix_cells), nw)
             else do {
               previous \<leftarrow> first_row gap [0..<col];
               let current = replicate col 0;
               let tracing = Stop # replicate (col - 1) Left @ replicate (cells - col) Stop;
               (previous, current, tracing) \<leftarrow>
                 for_each (score_row sf gap mism first second start_index col) [1..<row] (previous, current, tracing);
               (aligned, mis, num) \<leftarrow> trace_back tracing col start_index (row - 1) (col - 1) ([], [], 0);
               Some (Inr (start_index, rev aligned), nw\<lparr>mismatches := rev mis, num_mismatches := num\<rparr>)
             })"

definition match_sequences ::
  "('a \<Rightarrow> 'a \<Rightarrow> int) option \<Rightarrow> int option \<Rightarrow> int option \<Rightarrow> 'a needleman_wunsch
    \<Rightarrow> ((nat \<times> alignment) \<times> 'a needleman_wunsch) option" where
  "match_sequences scoring gap_penalty mismatch_penalty nw = do {
     (result, nw') \<leftarrow> match_sequences_bounded scoring gap_penalty mismatch_penalty u64_max nw;
     (case result of Inl _ \<Rightarrow> None | Inr ok \<Rightarrow> Some (ok, nw'))
   }"

definition match_sequences_base :: "'a needleman_wunsch \<Rightarrow> ((nat \<times> alignment) \<times> 'a needleman_wunsch) option" where
  "match_sequences_base nw = match_sequences None None None nw"

subsection \<open>The midpoint schedule\<close>

type_synonym 'a midpoint_state = "'a list \<times> nat \<times> nat"

definition midpoint_step ::
  "'a needleman_wunsch \<Rightarrow> nat option \<times> nat option \<Rightarrow> 'a midpoint_state \<Rightarrow> 'a midpoint_state option" where
  "midpoint_step nw entry st = (case st of (schedule, current_swaps, full_swaps) \<Rightarrow>
     let total_swaps = num_mismatches nw div 2;
         available = length (mismatches nw)
     in case entry of
          (None, None) \<Rightarrow>
            if full_swaps < available \<and> current_swaps < total_swaps then do {
              mm \<leftarrow> vget (mismatches nw) full_swaps;
              x \<leftarrow> vget (first_sequence nw) (fst mm);
              Some (schedule @ [x], current_swaps + 1, full_swaps + 1)
            }
            else if full_swaps < available then do {
              mm \<leftarrow> vget (mismatches nw) full_swaps;
              y \<leftarrow> vget (second_sequence nw) (snd mm);
              Some (schedule @ [y], current_swaps + 1, full_swaps + 1)
            }
            else Some (schedule, current_swaps + 1, full_swaps + 1)
        | (a, b) \<Rightarrow>
            (case a of
               Some i \<Rightarrow>
                 if current_swaps < total_swaps then do {
                   x \<leftarrow> vget (first_sequence nw) i;
                   Some (schedule @ [x], current_swaps + 1, full_swaps)
                 }
                 else (case b of
                     Some j \<Rightarrow> do {
                       y \<leftarrow> vget (second_sequence nw) j;
                       Some (schedule @ [y], current_swaps + 1, full_swaps)
                     }
                   | None \<Rightarrow> Some (schedule, current_swaps, full_swaps))
             | None \<Rightarrow>
                 (case b of
                     Some j \<Rightarrow>
                       if total_swaps \<le> current_swaps then do {
                         y \<leftarrow> vget (second_sequence nw) j;
                         Some (schedule @ [y], current_swaps + 1, full_swaps)
                       }
                       else Some (schedule, current_swaps, full_swaps)
                   | None \<Rightarrow> Some (schedule, current_swaps, full_swaps))))"

definition generate_midpoint_schedule ::
  "nat \<Rightarrow> alignment \<Rightarrow> 'a needleman_wunsch \<Rightarrow> 'a list option" where
  "generate_midpoint_schedule start_index difference nw = do {
     schedule \<leftarrow> for_each (\<lambda>i schedule. do {
         x \<leftarrow> vget (first_sequence nw) i;
         Some (schedule @ [x])
       }) [0..<start_index] [];
     (schedule, _) \<leftarrow> for_each (midpoint_step nw) difference (schedule, 0, 0);
     Some schedule
   }"

subsection \<open>The reference: alignments and their scores\<close>

text \<open>
  \<open>aligned_to\<close> says that an alignment covers the first \<open>i\<close> and \<open>j\<close> elements of the two sequences, in order
  and each exactly once: a pair that matches, a pair that does not (kept aside with its positions), or
  an element of one sequence alone. It also gives the number of mismatches and the score.
\<close>

inductive aligned_to ::
  "('a \<Rightarrow> 'a \<Rightarrow> int) \<Rightarrow> int \<Rightarrow> int \<Rightarrow> 'a list \<Rightarrow> 'a list \<Rightarrow> nat \<Rightarrow> nat \<Rightarrow> nat \<Rightarrow> alignment \<Rightarrow> (nat \<times> nat) list
    \<Rightarrow> nat \<Rightarrow> int \<Rightarrow> bool"
  for sf gap mism a b start where
  origin: "aligned_to sf gap mism a b start 0 0 [] [] 0 0"
| matching: "aligned_to sf gap mism a b start i j al ms k s \<Longrightarrow> i < length a \<Longrightarrow> j < length b \<Longrightarrow> 0 < sf (a ! i) (b ! j)
    \<Longrightarrow> aligned_to sf gap mism a b start (Suc i) (Suc j) (al @ [(Some (i + start), Some (j + start))]) ms k
      (s + sf (a ! i) (b ! j))"
| mismatch: "aligned_to sf gap mism a b start i j al ms k s \<Longrightarrow> i < length a \<Longrightarrow> j < length b
    \<Longrightarrow> \<not> 0 < sf (a ! i) (b ! j)
    \<Longrightarrow> aligned_to sf gap mism a b start (Suc i) (Suc j) (al @ [(None, None)]) (ms @ [(i + start, j + start)]) (k + 2)
      (s + mism)"
| first_only: "aligned_to sf gap mism a b start i j al ms k s \<Longrightarrow> i < length a
    \<Longrightarrow> aligned_to sf gap mism a b start (Suc i) j (al @ [(Some (i + start), None)]) ms (k + 1) (s + gap)"
| second_only: "aligned_to sf gap mism a b start i j al ms k s \<Longrightarrow> j < length b
    \<Longrightarrow> aligned_to sf gap mism a b start i (Suc j) (al @ [(None, Some (j + start))]) ms (k + 1) (s + gap)"

definition pair_score :: "('a \<Rightarrow> 'a \<Rightarrow> int) \<Rightarrow> int \<Rightarrow> 'a \<Rightarrow> 'a \<Rightarrow> int" where
  "pair_score sf mism x y = (if 0 < sf x y then sf x y else mism)"

fun best :: "('a \<Rightarrow> 'a \<Rightarrow> int) \<Rightarrow> int \<Rightarrow> int \<Rightarrow> 'a list \<Rightarrow> 'a list \<Rightarrow> nat \<Rightarrow> nat \<Rightarrow> int" where
  "best sf gap mism a b 0 j = gap * int j"
| "best sf gap mism a b (Suc i) 0 = gap * int (Suc i)"
| "best sf gap mism a b (Suc i) (Suc j) =
     max (best sf gap mism a b i j + pair_score sf mism (a ! i) (b ! j))
       (max (best sf gap mism a b (Suc i) j + gap) (best sf gap mism a b i (Suc j) + gap))"

lemma best_0_right [simp]: "best sf gap mism a b i 0 = gap * int i"
  by (cases i) simp_all

lemma abs_add_step:
  fixes P :: int
  assumes "\<bar>x\<bar> \<le> P * int n" "\<bar>y\<bar> \<le> P" "n < m"
  shows "\<bar>x + y\<bar> \<le> P * int m"
proof -
  have "P * int (Suc n) \<le> P * int m" using assms(2,3) by (intro mult_left_mono) simp_all
  moreover have "P * int (Suc n) = P * int n + P" by (simp add: algebra_simps)
  ultimately show ?thesis using assms(1,2) by linarith
qed

lemma abs_scaled: "\<bar>g\<bar> \<le> P \<Longrightarrow> \<bar>g * int n\<bar> \<le> P * int n"
  by (simp add: abs_mult mult_right_mono)

lemma pair_score_abs: "\<bar>sf x y\<bar> \<le> P \<Longrightarrow> \<bar>mism\<bar> \<le> P \<Longrightarrow> \<bar>pair_score sf mism x y\<bar> \<le> P"
  by (auto simp: pair_score_def)

lemma best_bounds:
  assumes sf: "\<And>x y. \<bar>sf x y\<bar> \<le> P" and g: "\<bar>gap\<bar> \<le> P" and m: "\<bar>mism\<bar> \<le> P"
  shows "\<bar>best sf gap mism a b i j\<bar> \<le> P * int (i + j)"
proof (induction i arbitrary: j)
  case 0
  show ?case using abs_scaled [OF g] by simp
next
  case (Suc i)
  note outer = Suc
  show ?case
  proof (induction j)
    case 0
    show ?case using abs_scaled [OF g, of "Suc i"] by simp
  next
    case (Suc j)
    have p: "\<bar>pair_score sf mism (a ! i) (b ! j)\<bar> \<le> P" using sf m by (rule pair_score_abs)
    have "\<bar>best sf gap mism a b i j + pair_score sf mism (a ! i) (b ! j)\<bar> \<le> P * int (Suc i + Suc j)"
      "\<bar>best sf gap mism a b (Suc i) j + gap\<bar> \<le> P * int (Suc i + Suc j)"
      "\<bar>best sf gap mism a b i (Suc j) + gap\<bar> \<le> P * int (Suc i + Suc j)"
      by (rule abs_add_step [OF outer p], simp, rule abs_add_step [OF Suc g], simp,
          rule abs_add_step [OF outer g], simp)
    then show ?case unfolding best.simps max_def by presburger
  qed
qed

lemma aligned_to_best: "aligned_to sf gap mism a b start i j al ms k s \<Longrightarrow> s \<le> best sf gap mism a b i j"
proof (induction rule: aligned_to.induct)
  case (first_only i j al ms k s)
  then show ?case by (cases j) (auto simp: algebra_simps)
next
  case (second_only i j al ms k s)
  then show ?case by (cases i) (auto simp: algebra_simps)
qed (auto simp: pair_score_def)

fun trace_of :: "('a \<Rightarrow> 'a \<Rightarrow> int) \<Rightarrow> int \<Rightarrow> int \<Rightarrow> 'a list \<Rightarrow> 'a list \<Rightarrow> nat \<Rightarrow> nat \<Rightarrow> trace" where
  "trace_of sf gap mism a b 0 0 = Stop"
| "trace_of sf gap mism a b 0 (Suc j) = Left"
| "trace_of sf gap mism a b (Suc i) 0 = Up"
| "trace_of sf gap mism a b (Suc i) (Suc j) =
     (let d = best sf gap mism a b i j + pair_score sf mism (a ! i) (b ! j);
          h = best sf gap mism a b (Suc i) j + gap;
          v = best sf gap mism a b i (Suc j) + gap
      in if h \<le> d \<and> v \<le> d then (if 0 < sf (a ! i) (b ! j) then MatchDiagonal else MisMatchDiagonal)
         else if v \<le> h then Left else Up)"

subsection \<open>The trace back\<close>

lemma trace_of_cases:
  fixes sf gap mism a b
  defines "T \<equiv> trace_of sf gap mism a b" and "B \<equiv> best sf gap mism a b"
  shows "T (Suc i) (Suc j) = MatchDiagonal \<and> 0 < sf (a ! i) (b ! j) \<and> B (Suc i) (Suc j) = B i j + sf (a ! i) (b ! j)
    \<or> T (Suc i) (Suc j) = MisMatchDiagonal \<and> \<not> 0 < sf (a ! i) (b ! j) \<and> B (Suc i) (Suc j) = B i j + mism
    \<or> T (Suc i) (Suc j) = Left \<and> B (Suc i) (Suc j) = B (Suc i) j + gap
    \<or> T (Suc i) (Suc j) = Up \<and> B (Suc i) (Suc j) = B i (Suc j) + gap"
proof -
  define d h v where "d = B i j + pair_score sf mism (a ! i) (b ! j)" and "h = B (Suc i) j + gap"
    and "v = B i (Suc j) + gap"
  have T: "T (Suc i) (Suc j) = (if h \<le> d \<and> v \<le> d then (if 0 < sf (a ! i) (b ! j) then MatchDiagonal else MisMatchDiagonal)
      else if v \<le> h then Left else Up)"
    by (simp add: T_def B_def d_def h_def v_def Let_def)
  have B: "B (Suc i) (Suc j) = max d (max h v)" by (simp add: B_def d_def h_def v_def)
  have "d = B i j + (if 0 < sf (a ! i) (b ! j) then sf (a ! i) (b ! j) else mism)"
    by (simp add: d_def pair_score_def)
  then show ?thesis
    unfolding T B using h_def v_def by (cases "h \<le> d \<and> v \<le> d"; cases "v \<le> h") (auto simp: max_def)
qed

lemma trace_back_ok:
  assumes tr: "\<And>r c. r \<le> length a \<Longrightarrow> c \<le> length b \<Longrightarrow> vget tracing (r * col + c) = Some (trace_of sf gap mism a b r c)"
  shows "i \<le> length a \<Longrightarrow> j \<le> length b \<Longrightarrow>
    \<exists>al ms k. aligned_to sf gap mism a b start i j al ms k (best sf gap mism a b i j)
      \<and> trace_back tracing col start i j (A, M, N) = Some (A @ rev al, M @ rev ms, N + k)"
proof (induction "i + j" arbitrary: i j A M N rule: less_induct)
  case less
  note get = tr [OF less.prems]
  note step = trace_back.simps [of tracing col start i j A M N]
  let ?T = "trace_of sf gap mism a b" and ?B = "best sf gap mism a b"
  consider (origin) "i = 0" "j = 0"
    | (mat) i' j' where "i = Suc i'" "j = Suc j'" "?T i j = MatchDiagonal" "0 < sf (a ! i') (b ! j')"
        "?B i j = ?B i' j' + sf (a ! i') (b ! j')"
    | (mis) i' j' where "i = Suc i'" "j = Suc j'" "?T i j = MisMatchDiagonal" "\<not> 0 < sf (a ! i') (b ! j')"
        "?B i j = ?B i' j' + mism"
    | (left) j' where "j = Suc j'" "?T i j = Left" "?B i j = ?B i j' + gap"
    | (up) i' where "i = Suc i'" "?T i j = Up" "?B i j = ?B i' j + gap"
    using trace_of_cases [of sf gap mism a b "i - 1" "j - 1"]
    by (cases i; cases j) (auto simp: algebra_simps simp del: best.simps(3) trace_of.simps(4))
  then show ?case
  proof cases
    case origin
    then show ?thesis using step by (auto intro: aligned_to.origin)
  next
    case (mat i' j')
    from less.hyps [of i' j' "A @ [(Some (i' + start), Some (j' + start))]" M N] less.prems mat(1,2)
    obtain al ms k where "aligned_to sf gap mism a b start i' j' al ms k (?B i' j')"
      "trace_back tracing col start i' j' (A @ [(Some (i' + start), Some (j' + start))], M, N)
        = Some ((A @ [(Some (i' + start), Some (j' + start))]) @ rev al, M @ rev ms, N + k)" by auto
    moreover from this(1) have "aligned_to sf gap mism a b start i j (al @ [(Some (i' + start), Some (j' + start))]) (ms) (k) (?B i j)"
      using aligned_to.matching mat less.prems by fastforce
    ultimately show ?thesis using mat(1-3) get step by fastforce
  next
    case (mis i' j')
    from less.hyps [of i' j' "A @ [(None, None)]" "M @ [(i' + start, j' + start)]" "N + 2"] less.prems mis(1,2)
    obtain al ms k where "aligned_to sf gap mism a b start i' j' al ms k (?B i' j')"
      "trace_back tracing col start i' j' (A @ [(None, None)], M @ [(i' + start, j' + start)], N + 2)
        = Some ((A @ [(None, None)]) @ rev al, (M @ [(i' + start, j' + start)]) @ rev ms, N + 2 + k)" by auto
    moreover from this(1) have "aligned_to sf gap mism a b start i j (al @ [(None, None)]) (ms @ [(i' + start, j' + start)]) (k + 2) (?B i j)"
      using aligned_to.mismatch mis less.prems by fastforce
    ultimately show ?thesis using mis(1-3) get step by fastforce
  next
    case (left j')
    from less.hyps [of i j' "A @ [(None, Some (j' + start))]" M "N + 1"] less.prems left(1)
    obtain al ms k where "aligned_to sf gap mism a b start i j' al ms k (?B i j')"
      "trace_back tracing col start i j' (A @ [(None, Some (j' + start))], M, N + 1)
        = Some ((A @ [(None, Some (j' + start))]) @ rev al, M @ rev ms, N + 1 + k)" by auto
    moreover from this(1) have "aligned_to sf gap mism a b start i j (al @ [(None, Some (j' + start))]) (ms) (k + 1) (?B i j)"
      using aligned_to.second_only left less.prems by fastforce
    ultimately show ?thesis using left(1-2) get step by fastforce
  next
    case (up i')
    from less.hyps [of i' j "A @ [(Some (i' + start), None)]" M "N + 1"] less.prems up(1)
    obtain al ms k where "aligned_to sf gap mism a b start i' j al ms k (?B i' j)"
      "trace_back tracing col start i' j (A @ [(Some (i' + start), None)], M, N + 1)
        = Some ((A @ [(Some (i' + start), None)]) @ rev al, M @ rev ms, N + 1 + k)" by auto
    moreover from this(1) have "aligned_to sf gap mism a b start i j (al @ [(Some (i' + start), None)]) (ms) (k + 1) (?B i j)"
      using aligned_to.first_only up less.prems by fastforce
    ultimately show ?thesis using up(1-2) get step by fastforce
  qed
qed

subsection \<open>The score rows\<close>

text \<open>The setting of the loops: penalties bounded by \<open>P\<close>, so small that no score leaves the range of \<open>i32\<close>.\<close>

definition small_scores :: "('a \<Rightarrow> 'a \<Rightarrow> int) \<Rightarrow> int \<Rightarrow> int \<Rightarrow> 'a list \<Rightarrow> 'a list \<Rightarrow> int \<Rightarrow> bool" where
  "small_scores sf gap mism a b P \<longleftrightarrow>
     (\<forall>x y. \<bar>sf x y\<bar> \<le> P) \<and> \<bar>gap\<bar> \<le> P \<and> \<bar>mism\<bar> \<le> P \<and> 1 \<le> P \<and> P * int (length a + length b) \<le> 2147483647"

lemma small_scores_ok:
  assumes small: "small_scores sf gap mism a b P" and le: "n \<le> length a + length b" and x: "\<bar>x\<bar> \<le> P * int n"
  shows "i32 x = Some x"
proof -
  have "P * int n \<le> P * int (length a + length b)"
    using small le by (intro mult_left_mono) (auto simp: small_scores_def)
  also have "\<dots> \<le> 2147483647" using small by (simp add: small_scores_def)
  finally have "\<bar>x\<bar> \<le> 2147483647" using x by linarith
  then show ?thesis by (auto simp: i32_def i32_ok_def)
qed

lemma small_scores_nat:
  assumes small: "small_scores sf gap mism a b P" and le: "n \<le> length a + length b"
  shows "as_i32 n = int n" "i32 (gap * as_i32 n) = Some (gap * int n)"
proof -
  have "1 * int n \<le> P * int (length a + length b)"
    using small le by (intro mult_mono) (auto simp: small_scores_def)
  also have "\<dots> \<le> 2147483647" using small by (simp add: small_scores_def)
  finally have n: "int n \<le> 2147483647" by simp
  then show as: "as_i32 n = int n" by (simp add: as_i32_def Let_def)
  show "i32 (gap * as_i32 n) = Some (gap * int n)"
    using small_scores_ok [OF small le] abs_scaled [of gap P n] small by (simp add: as small_scores_def)
qed

lemma first_row_ok:
  assumes small: "small_scores sf gap mism a b P" and js: "\<forall>j \<in> set js. j \<le> length a + length b"
  shows "first_row gap js = Some (map (best sf gap mism a b 0) js)"
  using js by (induction js) (simp_all add: small_scores_nat(2) [OF small])

text \<open>The state before cell \<open>(i, j)\<close>: the previous row, the cells of this row and the traces so far.\<close>

definition cells_done ::
  "('a \<Rightarrow> 'a \<Rightarrow> int) \<Rightarrow> int \<Rightarrow> int \<Rightarrow> 'a list \<Rightarrow> 'a list \<Rightarrow> nat \<Rightarrow> nat \<Rightarrow> nat \<Rightarrow> score_state \<Rightarrow> bool" where
  "cells_done sf gap mism a b col i j st \<longleftrightarrow> (case st of (previous, current, tracing) \<Rightarrow>
     previous = map (best sf gap mism a b (i - 1)) [0..<col] \<and> length current = col
     \<and> (\<forall>c < j. c < col \<longrightarrow> current ! c = best sf gap mism a b i c)
     \<and> length tracing = (length a + 1) * col
     \<and> (\<forall>r c. c < col \<longrightarrow> r < i \<or> r = i \<and> c < j \<longrightarrow> tracing ! (r * col + c) = trace_of sf gap mism a b r c))"

lemma cells_done_next:
  assumes "cells_done sf gap mism a b col i j (previous, current, tracing)" and j: "j < col" and i: "i \<le> length a"
  shows "cells_done sf gap mism a b col i (Suc j)
    (previous, current[j := best sf gap mism a b i j], tracing[i * col + j := trace_of sf gap mism a b i j])"
proof -
  have pos: "i * col + j < length tracing"
    using assms row_major_less [of i "length a + 1" j col] by (simp add: cells_done_def)
  show ?thesis
    using assms row_major_update [OF j _ pos]
    by (auto simp: cells_done_def less_Suc_eq nth_list_update simp del: best.simps(3) trace_of.simps(4))
qed

lemma score_cell_ok:
  assumes small: "small_scores sf gap mism a b P" and a: "a = drop start first" and b: "b = drop start second"
    and col: "col = length b + 1"
    and i: "1 \<le> i" "i \<le> length a" and j: "1 \<le> j" "j < col" and filled: "cells_done sf gap mism a b col i j st"
  shows "\<exists>st'. score_cell sf gap mism first second start col i j st = Some st'
      \<and> cells_done sf gap mism a b col i (Suc j) st'"
proof -
  obtain previous current tracing where st: "st = (previous, current, tracing)" by (cases st)
  obtain i' j' where ij: "i = Suc i'" "j = Suc j'" using i j by (cases i; cases j) auto
  let ?B = "best sf gap mism a b"
  let ?d = "?B i' j' + pair_score sf mism (a ! i') (b ! j')" and ?h = "?B i j' + gap" and ?v = "?B i' j + gap"
  from filled have prev: "previous = map (?B i') [0..<col]" and cur: "length current = col"
      "\<And>c. c < j \<Longrightarrow> current ! c = ?B i c" and len: "length tracing = (length a + 1) * col"
    using j by (auto simp: cells_done_def st ij)
  have seqs: "vget first (i - 1 + start) = Some (a ! i')" "vget second (j - 1 + start) = Some (b ! j')"
    using i j by (simp_all add: ij a b col add.commute)
  have rows: "vget previous (j - 1) = Some (?B i' j')" "vget previous j = Some (?B i' j)" "vget current (j - 1) = Some (?B i j')"
    using j cur by (simp_all add: prev ij)
  have bound: "\<bar>?B r c\<bar> \<le> P * int (r + c)" for r c
    using best_bounds [of sf P gap mism] small by (simp add: small_scores_def)
  have pen: "\<bar>pair_score sf mism x y\<bar> \<le> P" "\<bar>gap\<bar> \<le> P" for x y
    using small by (simp_all add: small_scores_def pair_score_abs)
  have range: "i32 ?d = Some ?d" "i32 ?h = Some ?h" "i32 ?v = Some ?v"
    using i j by (auto intro!: small_scores_ok [OF small, of "i + j"] abs_add_step [OF bound] pen simp: ij col)
  have choice: "(if ?h \<le> ?d \<and> ?v \<le> ?d then (?d, if 0 < sf (a ! i') (b ! j') then MatchDiagonal else MisMatchDiagonal)
      else if ?v \<le> ?h then (?h, Left) else (?v, Up)) = (?B i j, trace_of sf gap mism a b i j)"
    by (simp add: ij Let_def max_def)
  have pos: "i * col + j < length tracing"
    unfolding len using i j by (intro row_major_less) simp_all
  let ?st = "(previous, current[j := ?B i j], tracing[i * col + j := trace_of sf gap mism a b i j])"
  have "vset current j (?B i j) = Some (current[j := ?B i j])"
    "vset tracing (i * col + j) t = Some (tracing[i * col + j := t])" for t
    using pos cur(1) j by simp_all
  then have "score_cell sf gap mism first second start col i j st = Some ?st"
    by (simp only: score_cell_def st prod.case seqs rows Option.bind.bind_lunit Let_def
        pair_score_def [symmetric] range choice)
  moreover have "cells_done sf gap mism a b col i (Suc j) ?st"
    using cells_done_next [OF filled [unfolded st] j(2) i(2)] .
  ultimately show ?thesis by blast
qed

lemma score_row_ok:
  assumes small: "small_scores sf gap mism a b P" and a: "a = drop start first" and b: "b = drop start second"
    and col: "col = length b + 1" and i: "1 \<le> i" "i \<le> length a" and filled: "cells_done sf gap mism a b col i 0 st"
  shows "\<exists>st'. score_row sf gap mism first second start col i st = Some st'
      \<and> cells_done sf gap mism a b col (Suc i) 0 st'"
proof -
  obtain previous current tracing where st: "st = (previous, current, tracing)" by (cases st)
  obtain i' where i': "i = Suc i'" using i by (cases i) auto
  have pos: "i * col < length tracing" "0 < length current" "0 < col"
    using filled i row_major_less [of i "length a + 1" 0 col] by (auto simp: cells_done_def st col)
  let ?st = "(previous, current[0 := gap * int i], tracing[i * col := Up])"
  have "cells_done sf gap mism a b col i 1 ?st"
    using cells_done_next [OF filled [unfolded st] pos(3) i(2)] by (simp add: i')
  then have "\<exists>st'. for_each (score_cell sf gap mism first second start col i) [1..<col] ?st = Some st'
      \<and> cells_done sf gap mism a b col i col st'"
    using pos(3) score_cell_ok [OF small a b col i]
    by (intro for_range_rule [of 1 col "cells_done sf gap mism a b col i"]) auto
  then obtain p c t where run: "for_each (score_cell sf gap mism first second start col i) [1..<col] ?st = Some (p, c, t)"
    and fin: "cells_done sf gap mism a b col i col (p, c, t)"
    by (metis prod_cases3)
  have "c = map (best sf gap mism a b i) [0..<col]" "length p = col"
    using fin by (auto simp: cells_done_def list_eq_iff_nth_eq)
  with fin have "cells_done sf gap mism a b col (Suc i) 0 (c, p, t)"
    by (auto simp: cells_done_def less_Suc_eq)
  moreover have "i32 (gap * as_i32 i) = Some (gap * int i)"
    using i by (intro small_scores_nat(2) [OF small]) simp
  ultimately show ?thesis
    using pos run by (simp add: score_row_def st)
qed

subsection \<open>The alignment\<close>

lemma common_start_le: "common_start sf xs ys \<le> length xs" "common_start sf xs ys \<le> length ys"
  by (induction sf xs ys rule: common_start.induct) auto

lemma common_start_matches: "i < common_start sf xs ys \<Longrightarrow> 0 < sf (xs ! i) (ys ! i)"
  by (induction sf xs ys arbitrary: i rule: common_start.induct) (auto simp: nth_Cons split: nat.splits if_splits)

lemma initial_cells_done:
  assumes col: "col = length b + 1" and row: "row = length a + 1"
  shows "cells_done sf gap mism a b col 1 0
    (map (best sf gap mism a b 0) [0..<col], replicate col 0,
     Stop # replicate (col - 1) Left @ replicate (row * col - col) Stop)"
proof -
  have "(Stop # replicate (col - 1) Left @ replicate (row * col - col) Stop) ! c = trace_of sf gap mism a b 0 c"
    if "c < col" for c
    using that by (cases c) (auto simp: nth_append)
  then show ?thesis by (auto simp: cells_done_def col row)
qed

lemma score_rows_ok:
  assumes small: "small_scores sf gap mism a b P" and a: "a = drop start first" and b: "b = drop start second"
    and col: "col = length b + 1" and row: "row = length a + 1"
  shows "\<exists>p c t. for_each (score_row sf gap mism first second start col) [1..<row]
        (map (best sf gap mism a b 0) [0..<col], replicate col 0,
         Stop # replicate (col - 1) Left @ replicate (row * col - col) Stop) = Some (p, c, t)
      \<and> (\<forall>r c. r \<le> length a \<longrightarrow> c \<le> length b \<longrightarrow> vget t (r * col + c) = Some (trace_of sf gap mism a b r c))"
proof -
  have "\<exists>st. for_each (score_row sf gap mism first second start col) [1..<row]
        (map (best sf gap mism a b 0) [0..<col], replicate col 0,
         Stop # replicate (col - 1) Left @ replicate (row * col - col) Stop) = Some st
      \<and> cells_done sf gap mism a b col row 0 st"
    using score_row_ok [OF small a b col]
    by (intro for_range_rule [of 1 row "\<lambda>i. cells_done sf gap mism a b col i 0"] initial_cells_done [OF col row])
      (auto simp: row)
  then obtain p c t where run: "for_each (score_row sf gap mism first second start col) [1..<row]
        (map (best sf gap mism a b 0) [0..<col], replicate col 0,
         Stop # replicate (col - 1) Left @ replicate (row * col - col) Stop) = Some (p, c, t)"
    and fin: "cells_done sf gap mism a b col row 0 (p, c, t)" by (metis prod_cases3)
  have "vget t (r * col + c) = Some (trace_of sf gap mism a b r c)" if "r \<le> length a" "c \<le> length b" for r c
    using fin that row_major_less [of r row c col] by (auto simp: cells_done_def vget_def row col)
  with run show ?thesis by blast
qed

text \<open>The penalties and the scoring function in force.\<close>

definition gap_of :: "int option \<Rightarrow> int" where
  "gap_of g = (case g of Some g \<Rightarrow> g | None \<Rightarrow> - 1)"

definition mism_of :: "int option \<Rightarrow> int" where
  "mism_of g = (case g of Some g \<Rightarrow> g | None \<Rightarrow> - 2)"

definition scoring_of :: "('a \<Rightarrow> 'a \<Rightarrow> int) option \<Rightarrow> 'a \<Rightarrow> 'a \<Rightarrow> int" where
  "scoring_of f = (case f of Some f \<Rightarrow> f | None \<Rightarrow> simple_score)"

lemma match_sequences_bounded_ok:
  fixes nw :: "'a needleman_wunsch"
  defines "first \<equiv> first_sequence nw" and "second \<equiv> second_sequence nw"
  assumes sf: "sf = scoring_of scoring" and gap: "gap = gap_of g" and mism: "mism = mism_of h"
    and start: "start = common_start sf first second"
    and a: "a = drop start first" and b: "b = drop start second" and small: "small_scores sf gap mism a b P"
    and cells: "(length a + 1) * (length b + 1) \<le> max_cells" "(length a + 1) * (length b + 1) \<le> u64_max"
  shows "\<exists>al ms k. aligned_to sf gap mism a b start (length a) (length b) al ms k (best sf gap mism a b (length a) (length b))
      \<and> match_sequences_bounded scoring g h max_cells nw = Some (Inr (start, al), nw\<lparr>mismatches := ms, num_mismatches := k\<rparr>)"
proof -
  let ?row = "length a + 1" and ?col = "length b + 1"
  have rc: "length first + 1 - start = ?row" "length second + 1 - start = ?col"
    using common_start_le [of sf first second] by (simp_all add: a b start Suc_diff_le)
  have mul: "checked_mul ?row ?col = Some (?row * ?col)" using cells(2) by (simp add: checked_mul_def)
  have fr: "first_row gap [0..<?col] = Some (map (best sf gap mism a b 0) [0..<?col])"
    by (rule first_row_ok [OF small]) auto
  obtain p c t where run: "for_each (score_row sf gap mism first second start ?col) [1..<?row]
        (map (best sf gap mism a b 0) [0..<?col], replicate ?col 0,
         Stop # replicate (?col - 1) Left @ replicate (?row * ?col - ?col) Stop) = Some (p, c, t)"
    and tr: "\<And>r c. r \<le> length a \<Longrightarrow> c \<le> length b \<Longrightarrow> vget t (r * ?col + c) = Some (trace_of sf gap mism a b r c)"
    using score_rows_ok [OF small a b refl refl] by blast
  obtain al ms k where al: "aligned_to sf gap mism a b start (length a) (length b) al ms k (best sf gap mism a b (length a) (length b))"
    and tb: "trace_back t ?col start (length a) (length b) ([], [], 0) = Some (rev al, rev ms, k)"
    using trace_back_ok [OF tr, of "length a" "length b" start "[]" "[]" 0] by auto
  have "match_sequences_bounded scoring g h max_cells nw = Some (Inr (start, al), nw\<lparr>mismatches := ms, num_mismatches := k\<rparr>)"
  proof -
    have sel: "first_sequence (nw\<lparr>mismatches := [], num_mismatches := 0\<rparr>) = first"
      "second_sequence (nw\<lparr>mismatches := [], num_mismatches := 0\<rparr>) = second"
      by (simp_all add: first_def second_def)
    have last: "?row - 1 = length a" "?col - 1 = length b" by simp_all
    have "\<not> max_cells < ?row * ?col" using cells(1) by simp
    then have "match_sequences_bounded scoring g h max_cells nw =
        Some (Inr (start, rev (rev al)), nw\<lparr>mismatches := [], num_mismatches := 0\<rparr>\<lparr>mismatches := rev (rev ms), num_mismatches := k\<rparr>)"
      by (simp only: match_sequences_bounded_def Let_def sel scoring_of_def [symmetric] gap_of_def [symmetric]
          mism_of_def [symmetric] sf [symmetric] gap [symmetric] mism [symmetric] start [symmetric] rc mul option.case
          if_False fr Option.bind.bind_lunit run [unfolded last] prod.case last tb)
    then show ?thesis by simp
  qed
  with al show ?thesis by blast
qed

subsection \<open>The midpoint\<close>

text \<open>
  Replaying an alignment into the midpoint schedule: elements of the first sequence up to the turning
  point \<open>T\<close>, and of the second from the position the alignment has reached there.
\<close>

definition midpoint_inv ::
  "'a list \<Rightarrow> 'a list \<Rightarrow> nat \<Rightarrow> nat \<Rightarrow> nat \<Rightarrow> nat \<Rightarrow> 'a list \<Rightarrow> nat \<Rightarrow> bool" where
  "midpoint_inv first second start T i j schedule cur \<longleftrightarrow>
     (\<exists>j0 \<le> j. schedule = take (start + min T i) first @ take (j - j0) (drop (start + j0) second)
        \<and> cur = min T i + (j - j0) \<and> (i < T \<longrightarrow> j0 = j))"

lemma midpoint_take_first:
  assumes "midpoint_inv first second start T i j schedule cur" "cur < T" "start + i < length first"
  shows "midpoint_inv first second start T (Suc i) j' (schedule @ [first ! (i + start)]) (cur + 1)"
proof -
  have i: "i < T" and sched: "schedule = take (start + i) first" "cur = i"
    using assms(1,2) by (auto simp: midpoint_inv_def min_def split: if_splits)
  then have "schedule @ [first ! (i + start)] = take (start + Suc i) first"
    using assms(3) by (simp add: take_Suc_conv_app_nth add.commute)
  moreover have "min T (Suc i) = Suc i" using i by simp
  ultimately show ?thesis
    unfolding midpoint_inv_def using sched by (intro exI [of _ j']) simp
qed

lemma midpoint_take_second:
  assumes "midpoint_inv first second start T i j schedule cur" "\<not> cur < T" "start + j < length second" "i \<le> i'"
  shows "midpoint_inv first second start T i' (Suc j) (schedule @ [second ! (j + start)]) (cur + 1)"
proof -
  obtain j0 where j0: "j0 \<le> j" "schedule = take (start + min T i) first @ take (j - j0) (drop (start + j0) second)"
    "cur = min T i + (j - j0)" "i < T \<longrightarrow> j0 = j"
    using assms(1) unfolding midpoint_inv_def by blast
  have T: "T \<le> i" using assms(2) j0 by (auto simp: min_def split: if_splits)
  have "take (Suc j - j0) (drop (start + j0) second) = take (j - j0) (drop (start + j0) second) @ [second ! (j + start)]"
    using j0(1) assms(3) by (simp add: Suc_diff_le take_Suc_conv_app_nth add.commute)
  with j0 T assms(4) show ?thesis
    unfolding midpoint_inv_def by (intro exI [of _ j0]) (auto simp: min_def)
qed

lemma midpoint_skip:
  assumes "midpoint_inv first second start T i j schedule cur"
  shows "cur < T \<Longrightarrow> midpoint_inv first second start T i (Suc j) schedule cur"
    and "\<not> cur < T \<Longrightarrow> midpoint_inv first second start T (Suc i) j schedule cur"
  using assms by (auto simp: midpoint_inv_def min_def split: if_splits)

lemma midpoint_step_eqs:
  "i < length (first_sequence nw) \<Longrightarrow> j < length (second_sequence nw)
   \<Longrightarrow> midpoint_step nw (Some i, Some j) (sc, cur, full) =
     Some (sc @ [if cur < num_mismatches nw div 2 then first_sequence nw ! i else second_sequence nw ! j], cur + 1, full)"
  "i < length (first_sequence nw)
   \<Longrightarrow> midpoint_step nw (Some i, None) (sc, cur, full) =
     Some (if cur < num_mismatches nw div 2 then (sc @ [first_sequence nw ! i], cur + 1, full) else (sc, cur, full))"
  "j < length (second_sequence nw)
   \<Longrightarrow> midpoint_step nw (None, Some j) (sc, cur, full) =
     Some (if cur < num_mismatches nw div 2 then (sc, cur, full) else (sc @ [second_sequence nw ! j], cur + 1, full))"
  "full < length (mismatches nw) \<Longrightarrow> mismatches nw ! full = (i, j) \<Longrightarrow> i < length (first_sequence nw)
   \<Longrightarrow> j < length (second_sequence nw)
   \<Longrightarrow> midpoint_step nw (None, None) (sc, cur, full) =
     Some (sc @ [if cur < num_mismatches nw div 2 then first_sequence nw ! i else second_sequence nw ! j], cur + 1, full + 1)"
  by (simp_all add: midpoint_step_def Let_def)

lemma midpoint_replay:
  fixes nw :: "'a needleman_wunsch"
  assumes al: "aligned_to sf gap mism a b start i j al ms k s"
    and a: "a = drop start (first_sequence nw)" and b: "b = drop start (second_sequence nw)"
    and ms: "mismatches nw = ms @ rest" and T: "T = num_mismatches nw div 2"
  shows "\<exists>schedule cur. for_each (midpoint_step nw) al (take start (first_sequence nw), 0, 0) = Some (schedule, cur, length ms)
      \<and> midpoint_inv (first_sequence nw) (second_sequence nw) start T i j schedule cur"
  using al ms
proof (induction arbitrary: rest rule: aligned_to.induct)
  case origin
  show ?case by (auto simp: midpoint_inv_def)
next
  case (matching i j al ms k s)
  then obtain schedule cur where IH: "for_each (midpoint_step nw) al (take start (first_sequence nw), 0, 0) = Some (schedule, cur, length ms)"
    "midpoint_inv (first_sequence nw) (second_sequence nw) start T i j schedule cur" by blast
  have lt: "i + start < length (first_sequence nw)" "j + start < length (second_sequence nw)"
    using matching.hyps by (auto simp: a b)
  show ?case
    using IH(1) lt midpoint_take_first [OF IH(2)] midpoint_take_second [OF IH(2), of "Suc i"]
    by (cases "cur < T") (auto simp: for_each_append midpoint_step_eqs T [symmetric] add.commute)
next
  case (mismatch i j al ms k s)
  then obtain schedule cur where IH: "for_each (midpoint_step nw) al (take start (first_sequence nw), 0, 0) = Some (schedule, cur, length ms)"
    "midpoint_inv (first_sequence nw) (second_sequence nw) start T i j schedule cur" by fastforce
  have lt: "i + start < length (first_sequence nw)" "j + start < length (second_sequence nw)"
    using mismatch.hyps by (auto simp: a b)
  have mm: "length ms < length (mismatches nw)" "mismatches nw ! length ms = (i + start, j + start)"
    using mismatch.prems by simp_all
  show ?case
    using IH(1) lt mm midpoint_take_first [OF IH(2)] midpoint_take_second [OF IH(2), of "Suc i"]
    by (cases "cur < T") (auto simp: for_each_append midpoint_step_eqs T [symmetric] add.commute)
next
  case (first_only i j al ms k s)
  then obtain schedule cur where IH: "for_each (midpoint_step nw) al (take start (first_sequence nw), 0, 0) = Some (schedule, cur, length ms)"
    "midpoint_inv (first_sequence nw) (second_sequence nw) start T i j schedule cur" by blast
  have lt: "i + start < length (first_sequence nw)" using first_only.hyps by (auto simp: a)
  show ?case
    using IH(1) lt midpoint_take_first [OF IH(2)] midpoint_skip(2) [OF IH(2)]
    by (cases "cur < T") (auto simp: for_each_append midpoint_step_eqs T [symmetric] add.commute)
next
  case (second_only i j al ms k s)
  then obtain schedule cur where IH: "for_each (midpoint_step nw) al (take start (first_sequence nw), 0, 0) = Some (schedule, cur, length ms)"
    "midpoint_inv (first_sequence nw) (second_sequence nw) start T i j schedule cur" by blast
  have lt: "j + start < length (second_sequence nw)" using second_only.hyps by (auto simp: b)
  show ?case
    using IH(1) lt midpoint_take_second [OF IH(2), of i] midpoint_skip(1) [OF IH(2)]
    by (cases "cur < T") (auto simp: for_each_append midpoint_step_eqs T [symmetric] add.commute)
qed

lemma copy_prefix:
  assumes "start \<le> length xs"
  shows "for_each (\<lambda>i schedule. do { x \<leftarrow> vget xs i; Some (schedule @ [x]) }) [0..<start] [] = Some (take start xs)"
  using for_range_rule [of 0 start "\<lambda>k schedule. schedule = take k xs" "[]"
      "\<lambda>i schedule. do { x \<leftarrow> vget xs i; Some (schedule @ [x]) }"] assms
  by (auto simp: take_Suc_conv_app_nth)

subsection \<open>Properties\<close>

text \<open>
  C28: the alignment is valid and optimal. Within the cell limit, and with penalties and lengths that
  keep every score in range, aligning returns (no panic, the trace never stops early); the common prefix
  is left out and matches throughout; the rest is aligned in order with every element used exactly once
  and the mismatches recorded with their positions; and no alignment of the rest scores higher.
\<close>

theorem match_sequences_optimal:
  fixes nw :: "'a needleman_wunsch"
  assumes sf: "sf = scoring_of scoring" and gap: "gap = gap_of g" and mism: "mism = mism_of h"
    and start: "start = common_start sf (first_sequence nw) (second_sequence nw)"
    and a: "a = drop start (first_sequence nw)" and b: "b = drop start (second_sequence nw)"
    and small: "small_scores sf gap mism a b P"
    and cells: "(length a + 1) * (length b + 1) \<le> max_cells" "(length a + 1) * (length b + 1) \<le> u64_max"
  shows "\<exists>al nw' s. match_sequences_bounded scoring g h max_cells nw = Some (Inr (start, al), nw')
      \<and> (\<forall>i < start. 0 < sf (first_sequence nw ! i) (second_sequence nw ! i))
      \<and> aligned_to sf gap mism a b start (length a) (length b) al (mismatches nw') (num_mismatches nw') s
      \<and> (\<forall>al' ms' k' s'. aligned_to sf gap mism a b start (length a) (length b) al' ms' k' s' \<longrightarrow> s' \<le> s)"
proof -
  obtain al ms k where
    "aligned_to sf gap mism a b start (length a) (length b) al ms k (best sf gap mism a b (length a) (length b))"
    "match_sequences_bounded scoring g h max_cells nw = Some (Inr (start, al), nw\<lparr>mismatches := ms, num_mismatches := k\<rparr>)"
    using match_sequences_bounded_ok [OF sf gap mism start a b small cells] by blast
  then show ?thesis
    using aligned_to_best common_start_matches start by fastforce
qed

definition sample_nw :: "nat needleman_wunsch" where
  "sample_nw = nw_default\<lparr>first_sequence := [1, 2, 3, 4], second_sequence := [1, 3, 5, 4]\<rparr>"

lemma sample_small: "small_scores simple_score (- 1) (- 2) [2, 3, 4 :: nat] [3, 5, 4] 5"
  by (simp add: small_scores_def simple_score_def)

lemma sample_settings:
  "simple_score = scoring_of None" "- 1 = gap_of None" "- 2 = mism_of None"
  by (simp_all add: scoring_of_def gap_of_def mism_of_def)

theorem match_sequences_optimal_witness:
  "\<exists>al nw' s. match_sequences_bounded None None None 16 sample_nw = Some (Inr (1, al), nw')
      \<and> aligned_to simple_score (- 1) (- 2) [2, 3, 4 :: nat] [3, 5, 4] 1 3 3 al (mismatches nw') (num_mismatches nw') s"
proof -
  have start: "1 = common_start simple_score (first_sequence sample_nw) (second_sequence sample_nw)"
    and ab: "[2, 3, 4] = drop 1 (first_sequence sample_nw)" "[3, 5, 4] = drop 1 (second_sequence sample_nw)"
    by (simp_all add: sample_nw_def simple_score_def)
  have cells: "(length [2, 3, 4 :: nat] + 1) * (length [3, 5, 4 :: nat] + 1) \<le> 16"
    "(length [2, 3, 4 :: nat] + 1) * (length [3, 5, 4 :: nat] + 1) \<le> u64_max"
    by (simp_all add: u64_max_def)
  have len: "length [2, 3, 4 :: nat] = 3" "length [3, 5, 4 :: nat] = 3" by simp_all
  from match_sequences_optimal [OF sample_settings start ab sample_small cells, unfolded len]
  show ?thesis by (elim exE conjE) (intro exI conjI)
qed

text \<open>
  An alignment whose matrix would have more cells than the limit, or than a machine word counts, is
  refused with the size and the limit before anything is computed; the sequences stay as they are and
  the mismatches of an earlier run are cleared.
\<close>

theorem match_sequences_refuses:
  assumes "start = common_start (scoring_of scoring) (first_sequence nw) (second_sequence nw)"
    and "cells = (length (first_sequence nw) + 1 - start) * (length (second_sequence nw) + 1 - start)"
    and "min max_cells u64_max < cells"
  shows "match_sequences_bounded scoring g h max_cells nw =
    Some (Inl (MatrixTooLarge (if cells \<le> u64_max then cells else u64_max) max_cells),
      nw\<lparr>mismatches := [], num_mismatches := 0\<rparr>)"
  using assms
  by (auto simp: match_sequences_bounded_def Let_def scoring_of_def [symmetric] checked_mul_def min_def split: if_splits)

theorem match_sequences_refuses_witness:
  "match_sequences_bounded None None None 15 sample_nw = Some (Inl (MatrixTooLarge 16 15), sample_nw)"
  using match_sequences_refuses [of 1 None sample_nw 16 15 None None]
  by (simp add: sample_nw_def nw_default_def scoring_of_def simple_score_def u64_max_def)

text \<open>
  The midpoint schedule is a crossover of the two. It is a beginning of the first sequence, as long
  as the common prefix and half the mismatches, followed by an end of the second sequence, so each of
  its steps keeps the order of one of the two schedules; and it never panics after an alignment.
\<close>

theorem midpoint_schedule_crossover:
  fixes nw :: "'a needleman_wunsch"
  assumes sf: "sf = scoring_of scoring" and gap: "gap = gap_of g" and mism: "mism = mism_of h"
    and start: "start = common_start sf (first_sequence nw) (second_sequence nw)"
    and a: "a = drop start (first_sequence nw)" and b: "b = drop start (second_sequence nw)"
    and small: "small_scores sf gap mism a b P"
    and cells: "(length a + 1) * (length b + 1) \<le> max_cells" "(length a + 1) * (length b + 1) \<le> u64_max"
  shows "\<exists>al nw' j. match_sequences_bounded scoring g h max_cells nw = Some (Inr (start, al), nw') \<and> j \<le> length b
      \<and> generate_midpoint_schedule start al nw' =
          Some (take (start + num_mismatches nw' div 2) (first_sequence nw) @ drop (start + j) (second_sequence nw))"
proof -
  obtain al ms k where
    al: "aligned_to sf gap mism a b start (length a) (length b) al ms k (best sf gap mism a b (length a) (length b))"
    and run: "match_sequences_bounded scoring g h max_cells nw = Some (Inr (start, al), nw\<lparr>mismatches := ms, num_mismatches := k\<rparr>)"
    using match_sequences_bounded_ok [OF sf gap mism start a b small cells] by blast
  let ?nw = "nw\<lparr>mismatches := ms, num_mismatches := k\<rparr>"
  obtain schedule cur where rep: "for_each (midpoint_step ?nw) al (take start (first_sequence ?nw), 0, 0) = Some (schedule, cur, length ms)"
    and inv: "midpoint_inv (first_sequence ?nw) (second_sequence ?nw) start (k div 2) (length a) (length b) schedule cur"
    using midpoint_replay [OF al, of ?nw "[]" "k div 2"] a b by auto
  from inv obtain j where j: "j \<le> length b"
    "schedule = take (start + min (k div 2) (length a)) (first_sequence nw) @ take (length b - j) (drop (start + j) (second_sequence nw))"
    by (auto simp: midpoint_inv_def)
  have le: "start \<le> length (first_sequence nw)" "start \<le> length (second_sequence nw)"
    using common_start_le start by auto
  have "take (start + min (k div 2) (length a)) (first_sequence nw) = take (start + k div 2) (first_sequence nw)"
    using le by (simp add: a min_def)
  moreover have "take (length b - j) (drop (start + j) (second_sequence nw)) = drop (start + j) (second_sequence nw)"
    by (simp add: b)
  moreover have "generate_midpoint_schedule start al ?nw = Some schedule"
    using rep copy_prefix [OF le(1)] by (simp add: generate_midpoint_schedule_def)
  ultimately show ?thesis using run j by auto
qed

theorem midpoint_schedule_crossover_witness:
  "\<exists>al nw' j. match_sequences_bounded None None None 16 sample_nw = Some (Inr (1, al), nw') \<and> j \<le> 3
      \<and> generate_midpoint_schedule 1 al nw' =
          Some (take (1 + num_mismatches nw' div 2) [1, 2, 3, 4] @ drop (1 + j) [1, 3, 5, 4])"
proof -
  have start: "1 = common_start simple_score (first_sequence sample_nw) (second_sequence sample_nw)"
    and ab: "[2, 3, 4] = drop 1 (first_sequence sample_nw)" "[3, 5, 4] = drop 1 (second_sequence sample_nw)"
    by (simp_all add: sample_nw_def simple_score_def)
  have seqs: "first_sequence sample_nw = [1, 2, 3, 4]" "second_sequence sample_nw = [1, 3, 5, 4]"
    by (simp_all add: sample_nw_def)
  have cells: "(length [2, 3, 4 :: nat] + 1) * (length [3, 5, 4 :: nat] + 1) \<le> 16"
    "(length [2, 3, 4 :: nat] + 1) * (length [3, 5, 4 :: nat] + 1) \<le> u64_max"
    by (simp_all add: u64_max_def)
  have len: "length [3, 5, 4 :: nat] = 3" by simp
  from midpoint_schedule_crossover [OF sample_settings start ab sample_small cells, unfolded seqs len]
  show ?thesis .
qed

end
