(* ===== verification/Fenwick.thy ===== *)
theory Fenwick
  imports Vec
begin

text \<open>
  The binary indexed tree of detcore/src/edit_distance/bubbles.rs: counts of marked slots. The interface
  its client uses is the locale \<open>mark_counter\<close>, over the list of marks the tree stands for.
\<close>

subsection \<open>The tree\<close>

fun trailing_zeros :: "nat \<Rightarrow> nat" where
  "trailing_zeros n = (if n = 0 then 64 else if odd n then 0 else Suc (trailing_zeros (n div 2)))"

declare trailing_zeros.simps [simp del]

definition lowest_bit :: "nat \<Rightarrow> nat" where
  "lowest_bit node = 2 ^ trailing_zeros node"

fun ilog2 :: "nat \<Rightarrow> nat" where
  "ilog2 n = (if n < 2 then 0 else Suc (ilog2 (n div 2)))"

declare ilog2.simps [simp del]

definition fenwick_zeros :: "nat \<Rightarrow> nat list" where
  "fenwick_zeros len = replicate (len + 1) 0"

definition fenwick_ones :: "nat \<Rightarrow> nat list option" where
  "fenwick_ones len = do {
     tree \<leftarrow> vset (replicate (len + 1) 1) 0 0;
     for_each (\<lambda>node tree.
         let parent = node + lowest_bit node
         in if parent \<le> len then do {
              p \<leftarrow> vget tree parent;
              c \<leftarrow> vget tree node;
              vset tree parent (p + c)
            }
            else Some tree) [1..<len + 1] tree
   }"

lemma lowest_bit_pos [simp]: "0 < lowest_bit n"
  by (simp add: lowest_bit_def)

text \<open>The loops of \<open>add\<close> and \<open>remove\<close>; the slot's own node is its index plus one, never zero.\<close>

function fenwick_add_loop :: "nat list \<Rightarrow> nat \<Rightarrow> nat list option" where
  "fenwick_add_loop tree node =
     (if node < length tree
      then fenwick_add_loop (tree[node := tree ! node + 1]) (node + lowest_bit node)
      else Some tree)"
  by pat_completeness auto
termination
  by (relation "measure (\<lambda>(tree, node). length tree - node)") (auto simp: diff_less_mono2)

function fenwick_remove_loop :: "nat list \<Rightarrow> nat \<Rightarrow> nat list option" where
  "fenwick_remove_loop tree node =
     (if node < length tree
      then (case sub_u64 (tree ! node) 1 of
              None \<Rightarrow> None
            | Some v \<Rightarrow> fenwick_remove_loop (tree[node := v]) (node + lowest_bit node))
      else Some tree)"
  by pat_completeness auto
termination
  by (relation "measure (\<lambda>(tree, node). length tree - node)") (auto simp: diff_less_mono2)

definition fenwick_add :: "nat list \<Rightarrow> nat \<Rightarrow> nat list option" where
  "fenwick_add tree slot = fenwick_add_loop tree (slot + 1)"

definition fenwick_remove :: "nat list \<Rightarrow> nat \<Rightarrow> nat list option" where
  "fenwick_remove tree slot = fenwick_remove_loop tree (slot + 1)"

function fenwick_count_loop :: "nat list \<Rightarrow> nat \<Rightarrow> nat \<Rightarrow> nat option" where
  "fenwick_count_loop tree node acc =
     (if 0 < node
      then (case vget tree node of
              None \<Rightarrow> None
            | Some c \<Rightarrow> fenwick_count_loop tree (node - lowest_bit node) (acc + c))
      else Some acc)"
  by pat_completeness auto
termination
  by (relation "measure (\<lambda>(tree, node, acc). node)") auto

definition fenwick_count_before :: "nat list \<Rightarrow> nat \<Rightarrow> nat option" where
  "fenwick_count_before tree slot = fenwick_count_loop tree slot 0"

fun fenwick_nth_loop :: "nat list \<Rightarrow> nat \<Rightarrow> nat \<Rightarrow> nat \<Rightarrow> nat option" where
  "fenwick_nth_loop tree slot rest step =
     (if step = 0 then Some slot
      else if slot + step < length tree \<and> tree ! (slot + step) \<le> rest
      then fenwick_nth_loop tree (slot + step) (rest - tree ! (slot + step)) (step div 2)
      else fenwick_nth_loop tree slot rest (step div 2))"

definition fenwick_nth :: "nat list \<Rightarrow> nat \<Rightarrow> nat option" where
  "fenwick_nth tree n = do {
     len \<leftarrow> sub_u64 (length tree) 1;
     fenwick_nth_loop tree 0 n (if len = 0 then 0 else 2 ^ ilog2 len)
   }"

declare fenwick_add_loop.simps [simp del] fenwick_remove_loop.simps [simp del]
  fenwick_count_loop.simps [simp del] fenwick_nth_loop.simps [simp del]

subsection \<open>The lowest bit\<close>

lemma lowest_bit_odd [simp]: "odd n \<Longrightarrow> lowest_bit n = 1"
  by (cases "n = 0") (simp_all add: lowest_bit_def trailing_zeros.simps [of n])

lemma lowest_bit_double [simp]: "0 < n \<Longrightarrow> lowest_bit (2 * n) = 2 * lowest_bit n"
  by (simp add: lowest_bit_def trailing_zeros.simps [of "2 * n"])

lemma lowest_bit_le: "0 < n \<Longrightarrow> lowest_bit n \<le> n"
proof (induction n rule: less_induct)
  case (less n)
  show ?case
  proof (cases "odd n")
    case False
    then obtain k where k: "n = 2 * k" by (auto elim: evenE)
    with less.prems less.IH [of k] show ?thesis by simp
  qed (use less.prems in simp)
qed

lemma lowest_bit_next_even: "0 < n \<Longrightarrow> even (n + lowest_bit n)"
proof (cases "odd n")
  case False
  assume "0 < n"
  with False obtain k where "n = 2 * k" "0 < k" by (auto elim: evenE)
  then show ?thesis by simp
qed simp

text \<open>A node sums the range of length \<open>lowest_bit\<close> that ends at it.\<close>

definition covers :: "nat \<Rightarrow> nat \<Rightarrow> bool" where
  "covers n p \<longleftrightarrow> n - lowest_bit n < p \<and> p \<le> n"

lemma covers_double: "0 < n \<Longrightarrow> covers (2 * n) (2 * p) \<longleftrightarrow> covers n p"
  by (simp add: covers_def flip: diff_mult_distrib2)

text \<open>Going up from a node visits exactly the nodes whose range contains it.\<close>

lemma covers_next: "0 < p \<Longrightarrow> p \<noteq> n \<Longrightarrow> covers n p \<longleftrightarrow> covers n (p + lowest_bit p)"
proof (induction n arbitrary: p rule: less_induct)
  case (less n)
  show ?case
  proof (cases "odd n")
    case True
    then have "0 < n" by (rule odd_pos)
    with True have "covers n q \<longleftrightarrow> q = n" for q by (auto simp: covers_def)
    moreover have "p + lowest_bit p \<noteq> n" using True less.prems(1) lowest_bit_next_even by blast
    ultimately show ?thesis using less.prems(2) by simp
  next
    case False
    then obtain k where k: "n = 2 * k" by (auto elim: evenE)
    show ?thesis
    proof (cases "k = 0")
      case True
      then show ?thesis using k less.prems by (simp add: covers_def)
    next
      case pos: False
      show ?thesis
      proof (cases "odd p")
        case True
        then obtain q where q: "p = 2 * q + 1" by (auto elim: oddE)
        have "covers n (2 * q + 2) \<longleftrightarrow> covers k (q + 1)"
          using covers_double [of k "q + 1"] pos k by simp
        moreover have "covers n p \<longleftrightarrow> covers k (q + 1)"
          using pos by (auto simp: covers_def k q simp flip: diff_mult_distrib2)
        ultimately show ?thesis using True q by simp
      next
        case False
        then obtain q where q: "p = 2 * q" by (auto elim: evenE)
        have "covers k q \<longleftrightarrow> covers k (q + lowest_bit q)"
          using less.IH [of k q] less.prems pos k q by simp
        then show ?thesis
          using covers_double [of k q] covers_double [of k "q + lowest_bit q"] pos less.prems k q by simp
      qed
    qed
  qed
qed

lemma not_covers_less: "n < p \<Longrightarrow> \<not> covers n p"
  by (simp add: covers_def)

lemma covers_self [simp]: "0 < n \<Longrightarrow> covers n n"
  by (simp add: covers_def)

subsection \<open>The interface: marked slots\<close>

definition marked_before :: "bool list \<Rightarrow> nat \<Rightarrow> nat" where
  "marked_before ms k = length (filter id (take k ms))"

lemma marked_before_0 [simp]: "marked_before ms 0 = 0"
  by (simp add: marked_before_def)

lemma marked_before_Suc:
  "k < length ms \<Longrightarrow> marked_before ms (Suc k) = marked_before ms k + (if ms ! k then 1 else 0)"
  by (simp add: marked_before_def take_Suc_conv_app_nth)

lemma marked_before_mono: "i \<le> j \<Longrightarrow> marked_before ms i \<le> marked_before ms j"
proof -
  assume "i \<le> j"
  then have "take j ms = take i ms @ take (j - i) (drop i ms)" by (metis le_add_diff_inverse take_add)
  then show ?thesis by (simp add: marked_before_def)
qed

lemma marked_before_update:
  assumes "s < length ms" "ms ! s \<noteq> b"
  shows "int (marked_before (ms[s := b]) k) = int (marked_before ms k) + (if s < k then (if b then 1 else - 1) else 0)"
proof (induction k)
  case (Suc k)
  show ?case
  proof (cases "k < length ms")
    case True
    with Suc assms show ?thesis by (auto simp: marked_before_Suc nth_list_update less_Suc_eq)
  next
    case False
    then have "take (Suc k) xs = take k xs" if "length xs = length ms" for xs :: "bool list" using that by simp
    then have "marked_before (ms[s := b]) (Suc k) = marked_before (ms[s := b]) k"
      "marked_before ms (Suc k) = marked_before ms k"
      by (simp_all add: marked_before_def)
    moreover have "(s < Suc k) = (s < k)" using False assms by auto
    ultimately show ?thesis using Suc by simp
  qed
qed simp

locale mark_counter =
  fixes ok :: "'t \<Rightarrow> bool list \<Rightarrow> bool"
    and zeros :: "nat \<Rightarrow> 't"
    and ones :: "nat \<Rightarrow> 't option"
    and add :: "'t \<Rightarrow> nat \<Rightarrow> 't option"
    and remove :: "'t \<Rightarrow> nat \<Rightarrow> 't option"
    and count_before :: "'t \<Rightarrow> nat \<Rightarrow> nat option"
    and nth_marked :: "'t \<Rightarrow> nat \<Rightarrow> nat option"
  assumes zeros_ok: "ok (zeros n) (replicate n False)"
    and ones_ok: "\<exists>t. ones n = Some t \<and> ok t (replicate n True)"
    and add_ok: "ok t ms \<Longrightarrow> s < length ms \<Longrightarrow> \<not> ms ! s \<Longrightarrow> \<exists>t'. add t s = Some t' \<and> ok t' (ms[s := True])"
    and remove_ok: "ok t ms \<Longrightarrow> s < length ms \<Longrightarrow> ms ! s \<Longrightarrow> \<exists>t'. remove t s = Some t' \<and> ok t' (ms[s := False])"
    and count_before_ok: "ok t ms \<Longrightarrow> s \<le> length ms \<Longrightarrow> count_before t s = Some (marked_before ms s)"
    and nth_marked_ok: "ok t ms \<Longrightarrow> s < length ms \<Longrightarrow> ms ! s \<Longrightarrow> nth_marked t (marked_before ms s) = Some s"

subsection \<open>The tree implements the interface\<close>

definition fenwick_ok :: "nat list \<Rightarrow> bool list \<Rightarrow> bool" where
  "fenwick_ok tree ms \<longleftrightarrow> length tree = length ms + 1
     \<and> (\<forall>node. 1 \<le> node \<longrightarrow> node \<le> length ms \<longrightarrow>
          tree ! node = marked_before ms node - marked_before ms (node - lowest_bit node))"

lemma fenwick_zeros_ok: "fenwick_ok (fenwick_zeros n) (replicate n False)"
proof -
  have "marked_before (replicate n False) k = 0" for k by (simp add: marked_before_def)
  then show ?thesis by (simp add: fenwick_ok_def fenwick_zeros_def)
qed

lemma add_loop_eq:
  "0 < node \<Longrightarrow> \<exists>tree'. fenwick_add_loop tree node = Some tree' \<and> length tree' = length tree
     \<and> (\<forall>n. 0 < n \<longrightarrow> n < length tree \<longrightarrow> tree' ! n = tree ! n + (if covers n node then 1 else 0))"
proof (induction tree node rule: fenwick_add_loop.induct)
  case (1 tree node)
  show ?case
  proof (cases "node < length tree")
    case True
    let ?tree = "tree[node := tree ! node + 1]"
    obtain tree' where tree': "fenwick_add_loop ?tree (node + lowest_bit node) = Some tree'" "length tree' = length ?tree"
      "\<And>n. 0 < n \<Longrightarrow> n < length ?tree \<Longrightarrow> tree' ! n = ?tree ! n + (if covers n (node + lowest_bit node) then 1 else 0)"
      using 1 True by force
    have "tree' ! n = tree ! n + (if covers n node then 1 else 0)" if "0 < n" "n < length tree" for n
    proof (cases "n = node")
      case True
      then show ?thesis using tree'(3) [of n] that not_covers_less [of n "node + lowest_bit node"] by simp
    next
      case False
      then show ?thesis using tree'(3) [of n] that covers_next [of node n] 1(2) by simp
    qed
    with True tree' show ?thesis by (simp add: fenwick_add_loop.simps [of tree node])
  next
    case False
    then show ?thesis by (auto simp: fenwick_add_loop.simps [of tree node] covers_def)
  qed
qed

lemma remove_loop_eq:
  "0 < node \<Longrightarrow> \<forall>n. n < length tree \<longrightarrow> covers n node \<longrightarrow> 0 < tree ! n
   \<Longrightarrow> \<exists>tree'. fenwick_remove_loop tree node = Some tree' \<and> length tree' = length tree
     \<and> (\<forall>n. 0 < n \<longrightarrow> n < length tree \<longrightarrow> tree' ! n = tree ! n - (if covers n node then 1 else 0))"
proof (induction tree node rule: fenwick_remove_loop.induct)
  case (1 tree node)
  show ?case
  proof (cases "node < length tree")
    case True
    let ?tree = "tree[node := tree ! node - 1]"
    have sub: "sub_u64 (tree ! node) 1 = Some (tree ! node - 1)"
      using 1(2,3) True by (auto simp: sub_u64_def Suc_le_eq)
    have pos: "\<forall>n. n < length ?tree \<longrightarrow> covers n (node + lowest_bit node) \<longrightarrow> 0 < ?tree ! n"
    proof (intro allI impI)
      fix n
      assume n: "n < length ?tree" "covers n (node + lowest_bit node)"
      then have "n \<noteq> node" using not_covers_less [of n "node + lowest_bit node"] by auto
      with n 1(2,3) covers_next [of node n] show "0 < ?tree ! n" by auto
    qed
    obtain tree' where tree': "fenwick_remove_loop ?tree (node + lowest_bit node) = Some tree'" "length tree' = length ?tree"
      "\<And>n. 0 < n \<Longrightarrow> n < length ?tree \<Longrightarrow> tree' ! n = ?tree ! n - (if covers n (node + lowest_bit node) then 1 else 0)"
      using 1(1) [OF True sub _ pos] by auto
    have "tree' ! n = tree ! n - (if covers n node then 1 else 0)" if "0 < n" "n < length tree" for n
    proof (cases "n = node")
      case True
      then show ?thesis using tree'(3) [of n] that not_covers_less [of n "node + lowest_bit node"] by simp
    next
      case False
      then show ?thesis using tree'(3) [of n] that covers_next [of node n] 1(2) by simp
    qed
    with True sub tree' show ?thesis by (simp add: fenwick_remove_loop.simps [of tree node])
  next
    case False
    then show ?thesis by (auto simp: fenwick_remove_loop.simps [of tree node] covers_def)
  qed
qed

text \<open>Marking a slot changes exactly the sums of the nodes that cover it.\<close>

lemma marked_range_update:
  assumes "s < length ms" "ms ! s \<noteq> b" "0 < n"
  defines "f \<equiv> \<lambda>xs. marked_before xs n - marked_before xs (n - lowest_bit n)"
  shows "int (f (ms[s := b])) = int (f ms) + (if covers n (Suc s) then (if b then 1 else - 1) else 0)"
proof -
  have le: "marked_before xs (n - lowest_bit n) \<le> marked_before xs n" for xs
    by (rule marked_before_mono) simp
  show ?thesis
    using marked_before_update [OF assms(1,2), of n] marked_before_update [OF assms(1,2), of "n - lowest_bit n"]
      le [of ms] le [of "ms[s := b]"]
    by (auto simp: f_def covers_def of_nat_diff)
qed

lemma fenwick_add_ok:
  assumes ok: "fenwick_ok tree ms" and s: "s < length ms" "\<not> ms ! s"
  shows "\<exists>tree'. fenwick_add tree s = Some tree' \<and> fenwick_ok tree' (ms[s := True])"
proof -
  obtain tree' where tree': "fenwick_add_loop tree (Suc s) = Some tree'" "length tree' = length tree"
    "\<And>n. 0 < n \<Longrightarrow> n < length tree \<Longrightarrow> tree' ! n = tree ! n + (if covers n (Suc s) then 1 else 0)"
    using add_loop_eq [of "Suc s" tree] by auto
  have "tree' ! n = marked_before (ms[s := True]) n - marked_before (ms[s := True]) (n - lowest_bit n)"
    if "1 \<le> n" "n \<le> length ms" for n
    using tree'(3) [of n] that ok marked_range_update [of s ms True n] s by (auto simp: fenwick_ok_def split: if_splits)
  with tree' ok show ?thesis by (simp add: fenwick_add_def fenwick_ok_def)
qed

lemma fenwick_remove_ok:
  assumes ok: "fenwick_ok tree ms" and s: "s < length ms" "ms ! s"
  shows "\<exists>tree'. fenwick_remove tree s = Some tree' \<and> fenwick_ok tree' (ms[s := False])"
proof -
  have upd: "int (tree ! n) - 1 = int (marked_before (ms[s := False]) n - marked_before (ms[s := False]) (n - lowest_bit n))"
    if "1 \<le> n" "n \<le> length ms" "covers n (Suc s)" for n
    using that ok marked_range_update [of s ms False n] s by (simp add: fenwick_ok_def)
  have pos: "\<forall>n. n < length tree \<longrightarrow> covers n (Suc s) \<longrightarrow> 0 < tree ! n"
  proof (intro allI impI)
    fix n
    assume "n < length tree" "covers n (Suc s)"
    then have "1 \<le> n" "n \<le> length ms" using ok by (auto simp: covers_def fenwick_ok_def)
    with upd [of n] \<open>covers n (Suc s)\<close> show "0 < tree ! n" by linarith
  qed
  obtain tree' where tree': "fenwick_remove_loop tree (Suc s) = Some tree'" "length tree' = length tree"
    "\<And>n. 0 < n \<Longrightarrow> n < length tree \<Longrightarrow> tree' ! n = tree ! n - (if covers n (Suc s) then 1 else 0)"
    using remove_loop_eq [OF _ pos] by auto
  have "tree' ! n = marked_before (ms[s := False]) n - marked_before (ms[s := False]) (n - lowest_bit n)"
    if n: "1 \<le> n" "n \<le> length ms" for n
  proof (cases "covers n (Suc s)")
    case True
    have "tree' ! n = tree ! n - 1" using tree'(3) [of n] n ok True by (simp add: fenwick_ok_def)
    with upd [OF n True] show ?thesis by linarith
  next
    case False
    with tree'(3) [of n] n ok marked_range_update [of s ms False n] s show ?thesis by (simp add: fenwick_ok_def)
  qed
  with tree' ok show ?thesis by (simp add: fenwick_remove_def fenwick_ok_def)
qed

lemma count_loop_eq:
  "fenwick_ok tree ms \<Longrightarrow> node \<le> length ms \<Longrightarrow> fenwick_count_loop tree node acc = Some (acc + marked_before ms node)"
proof (induction tree node acc rule: fenwick_count_loop.induct)
  case (1 tree node acc)
  show ?case
  proof (cases "0 < node")
    case True
    have get: "vget tree node = Some (marked_before ms node - marked_before ms (node - lowest_bit node))"
      using 1(2,3) True by (simp add: fenwick_ok_def)
    have "marked_before ms (node - lowest_bit node) \<le> marked_before ms node" by (rule marked_before_mono) simp
    with 1(1) [OF True get 1(2)] 1(3) True get show ?thesis by (simp add: fenwick_count_loop.simps [of tree node])
  next
    case False
    then show ?thesis by (simp add: fenwick_count_loop.simps [of tree 0])
  qed
qed

lemma fenwick_count_before_ok:
  "fenwick_ok tree ms \<Longrightarrow> s \<le> length ms \<Longrightarrow> fenwick_count_before tree s = Some (marked_before ms s)"
  by (simp add: fenwick_count_before_def count_loop_eq)

text \<open>Finding the slot of a marked element by descent.\<close>

lemma lowest_bit_power: "lowest_bit (2 ^ k * (2 * a + 1)) = 2 ^ k"
proof (induction k)
  case (Suc k)
  have "2 ^ Suc k * (2 * a + 1) = 2 * (2 ^ k * (2 * a + 1))" by simp
  then show ?case using Suc lowest_bit_double [of "2 ^ k * (2 * a + 1)"] by (simp only: power_Suc) simp
qed simp

lemma nth_step_eq:
  assumes ok: "fenwick_ok tree ms" and s: "s < length ms" "ms ! s"
    and slot: "2 ^ Suc k dvd slot" "slot \<le> s"
  defines "mid \<equiv> slot + 2 ^ k" and "slot' \<equiv> (if slot + 2 ^ k \<le> s then slot + 2 ^ k else slot)"
  shows "fenwick_nth_loop tree slot (marked_before ms s - marked_before ms slot) (2 ^ k)
    = fenwick_nth_loop tree slot' (marked_before ms s - marked_before ms slot') (2 ^ k div 2)"
proof -
  let ?mb = "marked_before ms"
  from slot(1) obtain a where "slot = 2 ^ Suc k * a" by (auto elim: dvdE)
  then have "mid = 2 ^ k * (2 * a + 1)" by (simp add: mid_def algebra_simps)
  then have low: "lowest_bit mid = 2 ^ k" by (simp only: lowest_bit_power)
  have node: "tree ! mid = ?mb mid - ?mb slot" if "mid \<le> length ms"
  proof -
    have "1 \<le> mid" using one_le_power [of "2 :: nat" k] unfolding mid_def by linarith
    moreover have "mid - lowest_bit mid = slot" unfolding low by (simp add: mid_def)
    ultimately show ?thesis using ok that by (auto simp: fenwick_ok_def)
  qed
  have len: "length tree = length ms + 1" using ok by (simp add: fenwick_ok_def)
  have below: "?mb slot \<le> ?mb mid" "?mb slot \<le> ?mb s"
    using slot(2) by (auto simp: mid_def intro: marked_before_mono)
  show ?thesis
  proof (cases "mid \<le> s")
    case True
    then have "?mb mid \<le> ?mb s" by (rule marked_before_mono)
    then have "?mb mid - ?mb slot \<le> ?mb s - ?mb slot" by simp
    with True s node below len show ?thesis
      by (subst fenwick_nth_loop.simps) (simp add: slot'_def mid_def [symmetric])
  next
    case False
    have "?mb s < ?mb mid" if "mid \<le> length ms"
    proof -
      have "?mb (Suc s) \<le> ?mb mid" using False by (intro marked_before_mono) simp
      with s show ?thesis by (simp add: marked_before_Suc)
    qed
    with False node below len have "\<not> (mid < length tree \<and> tree ! mid \<le> ?mb s - ?mb slot)" by auto
    with False show ?thesis
      by (subst fenwick_nth_loop.simps) (auto simp: slot'_def mid_def [symmetric])
  qed
qed

lemma nth_loop_eq:
  assumes ok: "fenwick_ok tree ms" and s: "s < length ms" "ms ! s"
  shows "2 ^ Suc k dvd slot \<Longrightarrow> slot \<le> s \<Longrightarrow> s < slot + 2 ^ Suc k
    \<Longrightarrow> fenwick_nth_loop tree slot (marked_before ms s - marked_before ms slot) (2 ^ k) = Some s"
proof (induction k arbitrary: slot)
  case 0
  let ?slot' = "if slot + 2 ^ 0 \<le> s then slot + 2 ^ 0 else slot"
  have "?slot' = s" using 0 by auto
  with nth_step_eq [OF ok s 0(1,2)] show ?case by (simp add: fenwick_nth_loop.simps [of tree s])
next
  case (Suc k)
  let ?slot' = "if slot + 2 ^ Suc k \<le> s then slot + 2 ^ Suc k else slot"
  have "2 ^ Suc k dvd ?slot'"
    using Suc.prems(1) by (auto simp: dvd_add_left_iff intro: dvd_trans [of _ "2 ^ Suc (Suc k)"])
  moreover have "?slot' \<le> s" "s < ?slot' + 2 ^ Suc k" using Suc.prems by auto
  ultimately have "fenwick_nth_loop tree ?slot' (marked_before ms s - marked_before ms ?slot') (2 ^ k) = Some s"
    by (rule Suc.IH)
  with nth_step_eq [OF ok s Suc.prems(1,2)] show ?case by simp
qed

lemma ilog2_bounds: "0 < n \<Longrightarrow> 2 ^ ilog2 n \<le> n \<and> n < 2 ^ Suc (ilog2 n)"
proof (induction n rule: ilog2.induct)
  case (1 n)
  show ?case
  proof (cases "n < 2")
    case True
    with 1 show ?thesis by (simp add: ilog2.simps [of n])
  next
    case False
    with 1 have "2 ^ ilog2 (n div 2) \<le> n div 2" "n div 2 < 2 ^ Suc (ilog2 (n div 2))" by auto
    with False show ?thesis by (simp add: ilog2.simps [of n]) linarith
  qed
qed

lemma fenwick_nth_ok:
  assumes ok: "fenwick_ok tree ms" and s: "s < length ms" "ms ! s"
  shows "fenwick_nth tree (marked_before ms s) = Some s"
proof -
  have len: "sub_u64 (length tree) 1 = Some (length ms)" "length ms \<noteq> 0"
    using ok s by (auto simp: fenwick_ok_def sub_u64_def)
  have "s < 2 ^ Suc (ilog2 (length ms))" using ilog2_bounds [of "length ms"] s by linarith
  then have "fenwick_nth_loop tree 0 (marked_before ms s - marked_before ms 0) (2 ^ ilog2 (length ms)) = Some s"
    by (intro nth_loop_eq [OF ok s]) simp_all
  then show ?thesis using len by (simp add: fenwick_nth_def)
qed

text \<open>Building the tree of ones: every node collects its children.\<close>

definition children :: "nat \<Rightarrow> nat \<Rightarrow> nat set" where
  "children k n = {c. 0 < c \<and> c < k \<and> c + lowest_bit c = n}"

lemma children_finite [simp]: "finite (children k n)"
  by (rule finite_subset [of _ "{..<k}"]) (auto simp: children_def)

lemma children_Suc: "0 < k \<Longrightarrow> children (Suc k) n = children k n \<union> (if k + lowest_bit k = n then {k} else {})"
  by (auto simp: children_def less_Suc_eq)

lemma sum_children_Suc:
  "0 < k \<Longrightarrow> (\<Sum>c \<in> children (Suc k) n. lowest_bit c) =
     (\<Sum>c \<in> children k n. lowest_bit c) + (if k + lowest_bit k = n then lowest_bit k else 0)"
proof -
  have "k \<notin> children k n" by (simp add: children_def)
  then show "0 < k \<Longrightarrow> ?thesis" by (simp add: children_Suc)
qed

lemma children_all: "n \<le> k \<Longrightarrow> children k n = children n n"
proof -
  assume "n \<le> k"
  moreover have "c < n" if "c + lowest_bit c = n" for c using that lowest_bit_pos [of c] by linarith
  ultimately show ?thesis unfolding children_def using less_le_trans by blast
qed

lemma sum_children: "0 < n \<Longrightarrow> (\<Sum>c \<in> children n n. lowest_bit c) + 1 = lowest_bit n"
proof (induction n rule: less_induct)
  case (less n)
  show ?case
  proof (cases "odd n")
    case True
    then have "children n n = {}"
      using lowest_bit_next_even unfolding children_def by blast
    with True show ?thesis by simp
  next
    case False
    then obtain k where k: "n = 2 * k" by (auto elim: evenE)
    with less.prems have pos: "0 < k" by simp
    have "children n n = insert (n - 1) ((*) 2 ` children k k)"
    proof (intro equalityI subsetI)
      fix c
      assume c: "c \<in> children n n"
      show "c \<in> insert (n - 1) ((*) 2 ` children k k)"
      proof (cases "odd c")
        case True
        with c show ?thesis by (auto simp: children_def)
      next
        case False
        then obtain d where "c = 2 * d" by (auto elim: evenE)
        with c k show ?thesis by (auto simp: children_def)
      qed
    next
      fix c
      assume "c \<in> insert (n - 1) ((*) 2 ` children k k)"
      then consider "c = n - 1" | d where "c = 2 * d" "d \<in> children k k" by auto
      then show "c \<in> children n n"
      proof cases
        case 1
        with False less.prems show ?thesis by (auto simp: children_def)
      next
        case 2
        with k show ?thesis by (auto simp: children_def)
      qed
    qed
    moreover have "n - 1 \<notin> (*) 2 ` children k k" using k pos by auto presburger
    moreover have "(\<Sum>c \<in> (*) 2 ` children k k. lowest_bit c) = 2 * (\<Sum>c \<in> children k k. lowest_bit c)"
      by (simp add: sum.reindex inj_on_def sum_distrib_left children_def)
    ultimately show ?thesis
      using less.IH [of k] pos k False by simp
  qed
qed

lemma fenwick_ones_ok: "\<exists>tree. fenwick_ones n = Some tree \<and> fenwick_ok tree (replicate n True)"
proof -
  let ?body = "\<lambda>node tree. let parent = node + lowest_bit node
         in if parent \<le> n then do { p \<leftarrow> vget tree parent; c \<leftarrow> vget tree node; vset tree parent (p + c) } else Some tree"
  let ?P = "\<lambda>k tree. length tree = n + 1 \<and> (\<forall>m. 1 \<le> m \<and> m \<le> n \<longrightarrow> tree ! m = 1 + (\<Sum>c \<in> children k m. lowest_bit c))"
  have "\<exists>tree. for_each ?body [1..<n + 1] ((replicate (n + 1) 1)[0 := 0]) = Some tree \<and> ?P (n + 1) tree"
  proof (rule for_range_rule [where P = ?P])
    show "?P 1 ((replicate (n + 1) 1)[0 := 0])" by (auto simp: children_def nth_list_update)
    fix k tree
    assume k: "1 \<le> k" "k < n + 1" and P: "?P k tree"
    have own: "tree ! k = lowest_bit k"
      using P k sum_children [of k] children_all [of k k] by simp
    let ?p = "k + lowest_bit k"
    let ?tree = "if ?p \<le> n then tree[?p := tree ! ?p + tree ! k] else tree"
    have "?body k tree = Some ?tree" using P k by (simp add: Let_def)
    moreover have "?P (Suc k) ?tree"
      using P k own by (auto simp: sum_children_Suc nth_list_update)
    ultimately show "\<exists>tree'. ?body k tree = Some tree' \<and> ?P (Suc k) tree'" by blast
  qed simp
  then obtain tree where tree: "for_each ?body [1..<n + 1] ((replicate (n + 1) 1)[0 := 0]) = Some tree" "?P (n + 1) tree"
    by blast
  have "marked_before (replicate n True) k = min n k" for k by (simp add: marked_before_def min.commute)
  moreover have "tree ! m = lowest_bit m" if "1 \<le> m" "m \<le> n" for m
    using tree(2) that sum_children [of m] children_all [of m "n + 1"] by simp
  ultimately have "fenwick_ok tree (replicate n True)"
    using tree(2) lowest_bit_le by (auto simp: fenwick_ok_def)
  moreover have "fenwick_ones n = Some tree" using tree(1) by (simp add: fenwick_ones_def del: upt_Suc)
  ultimately show ?thesis by blast
qed

interpretation fenwick: mark_counter fenwick_ok fenwick_zeros fenwick_ones fenwick_add fenwick_remove
  fenwick_count_before fenwick_nth
  by unfold_locales (simp_all add: fenwick_zeros_ok fenwick_ones_ok fenwick_add_ok fenwick_remove_ok
      fenwick_count_before_ok fenwick_nth_ok)

end
