(* ===== verification/Bubble_Sort.thy ===== *)
theory Bubble_Sort
  imports Prelude
begin

text \<open>
  Bubble sort, one swap of neighbours at a time: the reference for the schedule interpolation of
  detcore/src/edit_distance/bubbles.rs. A pass goes from left to right; what it does to the table of
  larger predecessors (Knuth, section 5.2.2) is what lets the program rebuild any intermediate state.
\<close>

subsection \<open>Passes and states\<close>

text \<open>A pass that stops after \<open>k\<close> swaps, with the number of swaps it did not use.\<close>

fun pass :: "nat \<Rightarrow> nat list \<Rightarrow> nat list \<times> nat" where
  "pass k (x # y # zs) =
     (if y < x then (if k = 0 then (x # y # zs, 0) else (let (r, k') = pass (k - 1) (x # zs) in (y # r, k')))
      else (let (r, k') = pass k (y # zs) in (x # r, k')))"
| "pass k xs = (xs, k)"

lemma pass_rest_le: "snd (pass k xs) \<le> k"
  by (induction k xs rule: pass.induct) (auto split: prod.splits)

text \<open>The list after the first \<open>k\<close> swaps of bubble sort.\<close>

function bubble :: "nat \<Rightarrow> nat list \<Rightarrow> nat list" where
  "bubble k xs = (if k = 0 then xs else (let (ys, k') = pass k xs in if k' = k then ys else bubble k' ys))"
  by pat_completeness auto
termination
proof (relation "measure fst", goal_cases)
  case (2 k xs x ys k')
  then have "snd (pass k xs) = k'" by (metis snd_conv)
  with 2 show ?case using pass_rest_le [of k xs] by simp
qed simp

declare bubble.simps [simp del]

fun full_pass :: "nat list \<Rightarrow> nat list" where
  "full_pass (x # y # zs) = (if y < x then y # full_pass (x # zs) else x # full_pass (y # zs))"
| "full_pass xs = xs"

fun pass_swaps :: "nat list \<Rightarrow> nat" where
  "pass_swaps (x # y # zs) = (if y < x then Suc (pass_swaps (x # zs)) else pass_swaps (y # zs))"
| "pass_swaps xs = 0"

text \<open>How many larger values stand before a value.\<close>

fun larger :: "nat list \<Rightarrow> nat \<Rightarrow> nat" where
  "larger [] v = 0"
| "larger (x # xs) v = (if x = v then 0 else (if v < x then 1 else 0) + larger xs v)"

lemma mset_full_pass [simp]: "mset (full_pass xs) = mset xs"
  by (induction xs rule: full_pass.induct) auto

lemma set_full_pass [simp]: "set (full_pass xs) = set xs"
  using mset_eq_setD [OF mset_full_pass] .

lemma length_full_pass [simp]: "length (full_pass xs) = length xs"
  using mset_eq_length [OF mset_full_pass] .

lemma distinct_full_pass [simp]: "distinct (full_pass xs) = distinct xs"
  by (metis mset_full_pass mset_eq_imp_distinct_iff)

lemma mset_pass [simp]: "mset (fst (pass k xs)) = mset xs"
  by (induction k xs rule: pass.induct) (auto split: prod.splits)

lemma set_pass [simp]: "set (fst (pass k xs)) = set xs"
  using mset_eq_setD [OF mset_pass] .

lemma pass_full: "pass_swaps xs \<le> k \<Longrightarrow> pass k xs = (full_pass xs, k - pass_swaps xs)"
  by (induction xs arbitrary: k rule: full_pass.induct) auto

lemma pass_part: "k < pass_swaps xs \<Longrightarrow> snd (pass k xs) = 0"
  by (induction xs arbitrary: k rule: full_pass.induct) (auto simp: split_beta Let_def)

text \<open>
  Knuth's observation: a pass lowers every nonzero entry of the table by one, and makes one swap for
  each of them.
\<close>

lemma larger_notin: "v \<notin> set xs \<Longrightarrow> larger xs v = length (filter (\<lambda>w. v < w) xs)"
  by (induction xs) auto

lemma larger_full_pass: "distinct xs \<Longrightarrow> v \<in> set xs \<Longrightarrow> larger (full_pass xs) v = larger xs v - 1"
proof (induction xs rule: full_pass.induct)
  case (1 x y zs)
  have d: "x \<noteq> y" "x \<notin> set zs" "y \<notin> set zs" "distinct zs" using 1(3) by auto
  show ?case
  proof (cases "y < x")
    case True
    have IH: "larger (full_pass (x # zs)) v = larger (x # zs) v - 1" if "v = x \<or> v \<in> set zs"
      using 1(1) [OF True] d that by auto
    consider "v = x" | "v = y" | "v \<in> set zs" "v \<noteq> x" "v \<noteq> y" using 1(4) d by auto
    then show ?thesis using True IH d by cases auto
  next
    case False
    have IH: "larger (full_pass (y # zs)) v = larger (y # zs) v - 1" if "v = y \<or> v \<in> set zs"
      using 1(2) [OF False] d that by auto
    consider "v = x" | "v = y" | "v \<in> set zs" "v \<noteq> x" "v \<noteq> y" using 1(4) d by auto
    then show ?thesis using False IH d by cases auto
  qed
qed auto

lemma pass_swaps_eq: "distinct xs \<Longrightarrow> pass_swaps xs = length (filter (\<lambda>v. 0 < larger xs v) xs)"
proof (induction xs rule: full_pass.induct)
  case (1 x y zs)
  have d: "x \<noteq> y" "x \<notin> set zs" "y \<notin> set zs" "distinct zs" using 1(3) by auto
  have zs: "filter (\<lambda>v. 0 < larger (x # y # zs) v) zs = filter (\<lambda>v. 0 < larger (max x y # zs) v) zs"
    using d by (intro filter_cong) (auto simp: max_def)
  show ?case using 1 d zs by (auto simp: max_def)
qed auto

lemma iterate_larger:
  "distinct xs \<Longrightarrow> v \<in> set xs \<Longrightarrow> larger ((full_pass ^^ p) xs) v = larger xs v - p"
proof (induction p)
  case (Suc p)
  have "distinct ((full_pass ^^ p) xs) \<and> set ((full_pass ^^ p) xs) = set xs" using Suc.prems by (induction p) auto
  with Suc show ?case by (simp add: larger_full_pass)
qed simp

lemma iterate_full_pass [simp]:
  "mset ((full_pass ^^ p) xs) = mset xs" "set ((full_pass ^^ p) xs) = set xs" "length ((full_pass ^^ p) xs) = length xs"
  "distinct ((full_pass ^^ p) xs) = distinct xs"
  by (induction p) auto

text \<open>The swaps of the pass after \<open>p\<close> passes.\<close>

lemma iterate_pass_swaps:
  assumes "distinct xs"
  shows "pass_swaps ((full_pass ^^ p) xs) = length (filter (\<lambda>v. p < larger xs v) xs)"
proof -
  let ?ys = "(full_pass ^^ p) xs"
  have "pass_swaps ?ys = length (filter (\<lambda>v. 0 < larger ?ys v) ?ys)"
    using assms by (intro pass_swaps_eq) simp
  also have "filter (\<lambda>v. 0 < larger ?ys v) ?ys = filter (\<lambda>v. p < larger xs v) ?ys"
    using assms by (intro filter_cong) (auto simp: iterate_larger)
  also have "length \<dots> = length (filter (\<lambda>v. p < larger xs v) xs)"
    by (metis iterate_full_pass(1) mset_filter size_mset)
  finally show ?thesis .
qed

lemma bubble_0 [simp]: "bubble 0 xs = xs"
  by (simp add: bubble.simps)

lemma bubble_pass:
  assumes "pass_swaps xs \<le> k"
  shows "bubble k xs = bubble (k - pass_swaps xs) (full_pass xs)"
proof (cases "pass_swaps xs = 0")
  case True
  have same: "full_pass ys = ys" if "pass_swaps ys = 0" for ys
    using that by (induction ys rule: full_pass.induct) (auto split: if_splits)
  with True show ?thesis by simp
next
  case False
  with assms have "k - pass_swaps xs \<noteq> k" "k \<noteq> 0" by linarith+
  with assms show ?thesis by (simp add: bubble.simps [of k xs] pass_full)
qed

definition swaps_within :: "nat list \<Rightarrow> nat \<Rightarrow> nat" where
  "swaps_within xs p = (\<Sum>q < p. length (filter (\<lambda>v. q < larger xs v) xs))"

lemma bubble_passes:
  assumes "distinct xs"
  shows "swaps_within xs p \<le> k \<Longrightarrow> bubble k xs = bubble (k - swaps_within xs p) ((full_pass ^^ p) xs)"
proof (induction p)
  case (Suc p)
  let ?ys = "(full_pass ^^ p) xs"
  have step: "swaps_within xs (Suc p) = swaps_within xs p + pass_swaps ?ys"
    using assms by (simp add: swaps_within_def iterate_pass_swaps)
  with Suc have "bubble k xs = bubble (k - swaps_within xs p) ?ys" by simp
  also have "\<dots> = bubble (k - swaps_within xs p - pass_swaps ?ys) (full_pass ?ys)"
    using step Suc.prems by (intro bubble_pass) simp
  finally show ?case using step by simp
qed (simp add: swaps_within_def)

lemma bubble_part: "k < pass_swaps xs \<or> k = 0 \<Longrightarrow> bubble k xs = fst (pass k xs)"
proof -
  have "fst (pass 0 ys) = ys" for ys by (induction "0 :: nat" ys rule: pass.induct) (auto split: prod.splits)
  moreover have "bubble k xs = fst (pass k xs)" if "k < pass_swaps xs" "0 < k"
    using that pass_part [of k xs] by (auto simp: bubble.simps [of k xs] split: prod.splits)
  ultimately show "k < pass_swaps xs \<or> k = 0 \<Longrightarrow> ?thesis" by (cases "k = 0") auto
qed

text \<open>A list with an empty table is sorted.\<close>

lemma larger_zero_sorted: "\<forall>v \<in> set xs. larger xs v = 0 \<Longrightarrow> distinct xs \<Longrightarrow> sorted xs"
proof (induction xs)
  case (Cons x xs)
  have ne: "x \<noteq> v" if "v \<in> set xs" for v using Cons.prems(2) that by auto
  have "larger xs v = 0" "\<not> v < x" if "v \<in> set xs" for v
    using Cons.prems(1) that ne [OF that] by (auto split: if_splits)
  with Cons show ?case by (auto simp: not_less)
qed simp

lemma sum_levels:
  fixes ls :: "nat list"
  assumes "\<forall>l \<in> set ls. l \<le> d"
  shows "sum_list ls = (\<Sum>q < d. length (filter (\<lambda>l. q < l) ls))"
  using assms
proof (induction ls)
  case (Cons l ls)
  have "(\<Sum>q < d. if q < l then 1 else 0) = card ({..<d} \<inter> {..<l})" by (simp add: sum.If_cases Int_def lessThan_def)
  also have "{..<d} \<inter> {..<l} = {..<l}" using Cons.prems by auto
  finally have "(\<Sum>q < d. if q < l then 1 else 0) = l" by simp
  moreover have "length (filter (\<lambda>l'. q < l') (l # ls)) = (if q < l then 1 else 0) + length (filter (\<lambda>l'. q < l') ls)" for q
    by simp
  ultimately show ?case using Cons by (simp add: sum.distrib del: filter.simps)
qed simp

text \<open>All the swaps sort the list.\<close>

lemma bubble_sorts:
  assumes "distinct xs" "\<forall>v \<in> set xs. larger xs v \<le> d"
  shows "bubble (swaps_within xs d) xs = sort xs"
proof -
  have "bubble (swaps_within xs d) xs = (full_pass ^^ d) xs"
    using bubble_passes [OF assms(1), of d "swaps_within xs d"] by simp
  moreover have "sorted ((full_pass ^^ d) xs)"
    using assms by (intro larger_zero_sorted) (auto simp: iterate_larger)
  ultimately show ?thesis using properties_for_sort [of "(full_pass ^^ d) xs" xs] by simp
qed

text \<open>Values that are already in place stay there: bubble sort works on the part between.\<close>

lemma pass_sorted: "sorted ys \<Longrightarrow> pass k ys = (ys, k)"
  by (induction k ys rule: pass.induct) auto

lemma pass_append:
  "sorted post \<Longrightarrow> \<forall>x \<in> set xs. \<forall>y \<in> set post. x < y
   \<Longrightarrow> pass k (xs @ post) = (fst (pass k xs) @ post, snd (pass k xs))"
proof (induction k xs rule: pass.induct)
  case (1 k x y zs)
  then show ?case by (auto split: prod.splits)
qed (auto simp: pass_sorted less_imp_le)

lemma pass_prepend:
  "sorted pre \<Longrightarrow> \<forall>x \<in> set pre. \<forall>y \<in> set xs. x < y
   \<Longrightarrow> pass k (pre @ xs) = (pre @ fst (pass k xs), snd (pass k xs))"
proof (induction pre)
  case (Cons x pre)
  then show ?case
    by (cases pre; cases xs) (auto simp: split_beta Let_def)
qed simp

lemma bubble_middle:
  assumes "sorted pre" "sorted post" "\<forall>x \<in> set pre. \<forall>y \<in> set xs \<union> set post. x < y"
    "\<forall>x \<in> set xs. \<forall>y \<in> set post. x < y"
  shows "bubble k (pre @ xs @ post) = pre @ bubble k xs @ post"
  using assms
proof (induction k xs rule: bubble.induct)
  case (1 k xs)
  have p: "pass k (pre @ xs @ post) = (pre @ fst (pass k xs) @ post, snd (pass k xs))"
    using 1(2-) pass_prepend [of pre "xs @ post" k] pass_append [of post xs k] by auto
  show ?case
  proof (cases "k = 0 \<or> snd (pass k xs) = k")
    case True
    then show ?thesis using p by (auto simp: bubble.simps [of k] split_beta Let_def)
  next
    case False
    have "bubble (snd (pass k xs)) (pre @ fst (pass k xs) @ post) = pre @ bubble (snd (pass k xs)) (fst (pass k xs)) @ post"
      using False 1(2-) by (intro 1(1)) (auto simp: prod_eq_iff)
    then show ?thesis
      using p False by (simp add: bubble.simps [of k xs] bubble.simps [of k "pre @ xs @ post"] split_beta Let_def)
  qed
qed

end
