(* ===== verification/Bubbles.thy ===== *)
theory Bubbles
  imports Fenwick Bubble_Sort "HOL-Library.AList"
begin

text \<open>
  Permutations between two schedules and the states between them
  (detcore/src/edit_distance/bubbles.rs): the matching of equal events, and an iterator over the bubble
  sort of the permutation that keeps no swap but rebuilds the state after any number of swaps from the
  permutation's inversion table.
\<close>

subsection \<open>Matching the elements of two sequences\<close>

record permutation_result =
  pr_perm :: "nat list"
  pr_unmatched_source :: "nat list"
  pr_unmatched_target :: "nat list"

record expanded_perm_result =
  ex_perm :: "nat option list"
  ex_unmatched_source :: "nat list"
  ex_unmatched_target :: "nat list"

definition collapse :: "expanded_perm_result \<Rightarrow> permutation_result" where
  "collapse r = \<lparr>pr_perm = map the (filter (\<lambda>v. v \<noteq> None) (ex_perm r)),
     pr_unmatched_source = ex_unmatched_source r, pr_unmatched_target = ex_unmatched_target r\<rparr>"

text \<open>The hash map from a value to the indices where the source has it, as an association list.\<close>

fun index_source :: "nat \<Rightarrow> 'a list \<Rightarrow> ('a \<times> nat list) list \<Rightarrow> ('a \<times> nat list) list" where
  "index_source i [] m = m"
| "index_source i (v # vs) m =
     index_source (Suc i) vs (AList.update v ((case map_of m v of Some l \<Rightarrow> l | None \<Rightarrow> []) @ [i]) m)"

text \<open>\<open>get_mut(v).and_then(pop)\<close>: takes the last index of the value, if any is left.\<close>

definition pop_index :: "'a \<Rightarrow> ('a \<times> nat list) list \<Rightarrow> nat option \<times> ('a \<times> nat list) list" where
  "pop_index v m = (case map_of m v of
       None \<Rightarrow> (None, m)
     | Some l \<Rightarrow> if l = [] then (None, m) else (Some (last l), AList.update v (butlast l) m))"

fun match_target ::
  "nat \<Rightarrow> 'a list \<Rightarrow> ('a \<times> nat list) list \<Rightarrow> nat option list \<times> nat list \<times> ('a \<times> nat list) list" where
  "match_target i [] m = ([], [], m)"
| "match_target i (v # vs) m =
     (let (s, m') = pop_index v m;
          (perm, unmatched, m'') = match_target (Suc i) vs m'
      in (s # perm, if s = None then i # unmatched else unmatched, m''))"

definition generate_expanded_permutation :: "'a list \<Rightarrow> 'a list \<Rightarrow> expanded_perm_result" where
  "generate_expanded_permutation source target =
     (let m = map (\<lambda>e. (fst e, rev (snd e))) (index_source 0 source []);
          (perm, unmatched_target, m') = match_target 0 target m
      in \<lparr>ex_perm = perm, ex_unmatched_source = sort (concat (map snd m')),
          ex_unmatched_target = unmatched_target\<rparr>)"

definition generate_permutation :: "'a list \<Rightarrow> 'a list \<Rightarrow> permutation_result" where
  "generate_permutation source target = collapse (generate_expanded_permutation source target)"

subsection \<open>The part that has to be sorted\<close>

fun prefix_len :: "nat \<Rightarrow> nat list \<Rightarrow> nat" where
  "prefix_len expected [] = 0"
| "prefix_len expected (v # vs) = (if expected = v then Suc (prefix_len (Suc expected) vs) else 0)"

fun postfix_len :: "nat \<Rightarrow> nat \<Rightarrow> nat list \<Rightarrow> nat option" where
  "postfix_len max_index i [] = Some 0"
| "postfix_len max_index i (v # vs) = do {
     expected \<leftarrow> sub_u64 max_index i;
     if expected = v then map_option Suc (postfix_len max_index (Suc i) vs) else Some 0
   }"

definition find_sortable_range :: "nat list \<Rightarrow> nat \<Rightarrow> (nat \<times> nat) option" where
  "find_sortable_range perm max_index = do {
     let pre = prefix_len 0 perm;
     post \<leftarrow> (if pre < length perm then postfix_len max_index 0 (rev perm) else Some 0);
     last \<leftarrow> sub_u64 (length perm) post;
     Some (pre, last)
   }"

subsection \<open>The iterator\<close>

record 'a bubble_sort_iter =
  bi_perm :: "nat list"
  bi_source :: "'a list"
  bi_sortable :: "nat \<times> nat"
  bi_ranked :: "nat list"
  bi_larger_before :: "nat list"
  bi_at_least :: "nat list"
  bi_swap_count :: nat
  bi_cursor :: nat
  bi_unused_value_count :: nat

definition binary_search :: "nat list \<Rightarrow> nat \<Rightarrow> nat option" where
  "binary_search xs v = (if v \<in> set xs then Some (length (takeWhile (\<lambda>w. w \<noteq> v) xs)) else None)"

definition rank_step :: "nat list \<Rightarrow> nat \<times> nat \<Rightarrow> nat list \<times> nat list \<Rightarrow> (nat list \<times> nat list) option" where
  "rank_step ranked e st = (case (e, st) of ((preceding, value), (larger_before, seen)) \<Rightarrow> do {
     rank \<leftarrow> binary_search ranked value;
     before \<leftarrow> fenwick_count_before seen rank;
     d \<leftarrow> sub_u64 preceding before;
     larger_before \<leftarrow> vset larger_before rank d;
     seen \<leftarrow> fenwick_add seen rank;
     Some (larger_before, seen)
   })"

definition slice :: "nat \<times> nat \<Rightarrow> 'b list \<Rightarrow> 'b list option" where
  "slice r xs = (if fst r \<le> snd r \<and> snd r \<le> length xs then Some (take (snd r - fst r) (drop (fst r) xs)) else None)"

definition splice :: "nat \<times> nat \<Rightarrow> 'b list \<Rightarrow> 'b list \<Rightarrow> 'b list" where
  "splice r ys xs = take (fst r) xs @ ys @ drop (snd r) xs"

text \<open>The table of how many values have at least so many larger values before them.\<close>

definition at_least_table :: "nat list \<Rightarrow> nat \<Rightarrow> nat list option" where
  "at_least_table larger_before deepest = do {
     t \<leftarrow> for_each (\<lambda>l t. do {
         c \<leftarrow> vget t l;
         vset t l (c + 1)
       }) larger_before (replicate (deepest + 2) 0);
     for_each (\<lambda>p t. do {
         a \<leftarrow> vget t p;
         b \<leftarrow> vget t (p + 1);
         vset t p (a + b)
       }) (rev [0..<deepest + 1]) t
   }"

definition bubble_iter_new :: "nat list \<Rightarrow> 'a list \<Rightarrow> nat \<Rightarrow> 'a bubble_sort_iter option" where
  "bubble_iter_new perm source unused_value_count = do {
     sortable \<leftarrow> find_sortable_range perm (length source - 1);
     unsorted \<leftarrow> slice sortable perm;
     let ranked = sort unsorted;
     (larger_before, _) \<leftarrow>
       for_each (rank_step ranked) (enumerate 0 unsorted)
         (replicate (length unsorted) 0, fenwick_zeros (length unsorted));
     let deepest = fold max larger_before 0;
     at_least \<leftarrow> at_least_table larger_before deepest;
     let swap_count = sum_list larger_before;
     Some \<lparr>bi_perm = splice sortable ranked perm, bi_source = source, bi_sortable = sortable, bi_ranked = ranked,
           bi_larger_before = larger_before, bi_at_least = at_least, bi_swap_count = swap_count,
           bi_cursor = swap_count, bi_unused_value_count = unused_value_count\<rparr>
   }"

definition edit_distance :: "'a bubble_sort_iter \<Rightarrow> nat" where
  "edit_distance it = bi_swap_count it + bi_unused_value_count it"

definition swap_distance :: "'a bubble_sort_iter \<Rightarrow> nat" where
  "swap_distance it = bi_swap_count it"

function passes_loop :: "nat list \<Rightarrow> nat \<Rightarrow> nat \<Rightarrow> nat \<Rightarrow> nat \<Rightarrow> (nat \<times> nat) option" where
  "passes_loop at_least deepest swaps passes finished =
     (if passes < deepest
      then (case vget at_least (passes + 1) of
              None \<Rightarrow> None
            | Some a \<Rightarrow> if finished + a \<le> swaps then passes_loop at_least deepest swaps (passes + 1) (finished + a)
                        else map_option (Pair passes) (sub_u64 swaps finished))
      else map_option (Pair passes) (sub_u64 swaps finished))"
  by pat_completeness auto
termination by (relation "measure (\<lambda>(t, d, s, p, f). d - p)") auto

declare passes_loop.simps [simp del]

definition passes_within :: "'a bubble_sort_iter \<Rightarrow> nat \<Rightarrow> (nat \<times> nat) option" where
  "passes_within it swaps = do {
     deepest \<leftarrow> sub_u64 (length (bi_at_least it)) 2;
     passes_loop (bi_at_least it) deepest swaps 0 0
   }"

definition place_step :: "nat \<Rightarrow> nat list \<Rightarrow> nat \<times> nat \<Rightarrow> nat list \<times> nat list \<Rightarrow> (nat list \<times> nat list) option" where
  "place_step passes larger_before e st = (case (e, st) of ((rank, value), (free, state)) \<Rightarrow> do {
     l \<leftarrow> vget larger_before rank;
     slot \<leftarrow> fenwick_nth free (saturating_sub l passes);
     free \<leftarrow> fenwick_remove free slot;
     state \<leftarrow> vset state slot value;
     Some (free, state)
   })"

function partial_loop :: "nat list \<Rightarrow> nat \<Rightarrow> nat \<Rightarrow> nat list option" where
  "partial_loop state left j =
     (if left = 0 then Some state
      else if j + 1 < length state
      then (if state ! (j + 1) < state ! j
            then partial_loop (state[j := state ! (j + 1), j + 1 := state ! j]) (left - 1) (j + 1)
            else partial_loop state left (j + 1))
      else None)"
  by pat_completeness auto
termination by (relation "measure (\<lambda>(state, left, j). length state - j)") auto

declare partial_loop.simps [simp del]

definition seek :: "nat \<Rightarrow> 'a bubble_sort_iter \<Rightarrow> 'a bubble_sort_iter option" where
  "seek swaps it = (let swaps = min swaps (bi_swap_count it) in
     if swaps = bi_cursor it then Some it
     else do {
       (passes, partial) \<leftarrow> passes_within it swaps;
       state \<leftarrow> slice (bi_sortable it) (bi_perm it);
       free \<leftarrow> fenwick_ones (length state);
       (_, state) \<leftarrow> for_each (place_step passes (bi_larger_before it)) (enumerate 0 (bi_ranked it)) (free, state);
       state \<leftarrow> partial_loop state partial 0;
       Some (it\<lparr>bi_perm := splice (bi_sortable it) state (bi_perm it), bi_cursor := swaps\<rparr>)
     })"

text \<open>The elements of the source in the order of the current state.\<close>

fun perm_elements :: "'a list \<Rightarrow> nat list \<Rightarrow> 'a list option" where
  "perm_elements source [] = Some []"
| "perm_elements source (i # is) = do {
     x \<leftarrow> vget source i;
     xs \<leftarrow> perm_elements source is;
     Some (x # xs)
   }"

definition current :: "'a bubble_sort_iter \<Rightarrow> 'a list option" where
  "current it = perm_elements (bi_source it) (bi_perm it)"

definition next_state :: "'a bubble_sort_iter \<Rightarrow> ('a list option \<times> 'a bubble_sort_iter) option" where
  "next_state it = (if bi_cursor it < bi_swap_count it then do {
       it \<leftarrow> seek (bi_cursor it + 1) it;
       xs \<leftarrow> current it;
       Some (Some xs, it)
     } else Some (None, it))"

definition skip :: "nat \<Rightarrow> 'a bubble_sort_iter \<Rightarrow> 'a bubble_sort_iter option" where
  "skip distance it = seek (saturating_add (bi_cursor it) distance) it"

definition next_back :: "'a bubble_sort_iter \<Rightarrow> ('a list option \<times> 'a bubble_sort_iter) option" where
  "next_back it = (if 0 < bi_cursor it then do {
       it \<leftarrow> seek (bi_cursor it - 1) it;
       xs \<leftarrow> current it;
       Some (Some xs, it)
     } else Some (None, it))"

definition skip_back :: "nat \<Rightarrow> 'a bubble_sort_iter \<Rightarrow> 'a bubble_sort_iter option" where
  "skip_back distance it = seek (saturating_sub (bi_cursor it) distance) it"

definition midpoint :: "'a bubble_sort_iter \<Rightarrow> ('a list \<times> 'a bubble_sort_iter) option" where
  "midpoint it = do {
     it \<leftarrow> seek (bi_swap_count it div 2) it;
     xs \<leftarrow> current it;
     Some (xs, it)
   }"

definition interpolate :: "nat \<Rightarrow> 'a bubble_sort_iter \<Rightarrow> ('a list \<times> 'a bubble_sort_iter) option" where
  "interpolate percentage it = do {
     n \<leftarrow> mul_u64 (bi_swap_count it) percentage;
     it \<leftarrow> seek (n div 100) it;
     xs \<leftarrow> current it;
     Some (xs, it)
   }"

definition history_size :: "'a bubble_sort_iter \<Rightarrow> nat" where
  "history_size it = bi_swap_count it"

definition iterable_bubble_sort_from_perm :: "'a list \<Rightarrow> permutation_result \<Rightarrow> 'a bubble_sort_iter option" where
  "iterable_bubble_sort_from_perm source r =
     bubble_iter_new (pr_perm r) source (length (pr_unmatched_source r) + length (pr_unmatched_target r))"

definition iterable_bubble_sort :: "'a list \<Rightarrow> 'a list \<Rightarrow> 'a bubble_sort_iter option" where
  "iterable_bubble_sort source target = iterable_bubble_sort_from_perm source (generate_permutation source target)"

definition bubble_sort_distance :: "'a list \<Rightarrow> 'a list \<Rightarrow> nat option" where
  "bubble_sort_distance source target = map_option bi_swap_count (iterable_bubble_sort source target)"

end
