(* ===== verification/Bubbles_Correct.thy ===== *)
theory Bubbles_Correct
  imports Bubbles
begin

text \<open>
  Correctness of the schedule interpolation: the iterator's state after any number of swaps is the state
  of bubble sort after so many swaps, and the permutation it sorts matches equal events in order.
\<close>

subsection \<open>Ranks and inversion tables\<close>

lemma larger_nth:
  "distinct xs \<Longrightarrow> i < length xs \<Longrightarrow> larger xs (xs ! i) = length (filter (\<lambda>w. xs ! i < w) (take i xs))"
proof (induction xs arbitrary: i)
  case (Cons x xs)
  show ?case
  proof (cases i)
    case (Suc j)
    with Cons.prems have "xs ! j \<noteq> x" by (metis distinct.simps(2) length_Cons nth_mem Suc_less_eq)
    with Suc Cons show ?thesis by auto
  qed simp
qed simp

lemma marked_before_map: "marked_before (map P xs) k = length (filter P (take k xs))"
proof -
  have "filter id (map P ys) = map P (filter P ys)" for ys by (induction ys) auto
  then show ?thesis by (simp add: marked_before_def take_map)
qed

lemma strict_sorted_take:
  fixes ranked :: "nat list"
  assumes "sorted_wrt (<) ranked" "r < length ranked"
  shows "w \<in> set (take r ranked) \<longleftrightarrow> w \<in> set ranked \<and> w < ranked ! r"
proof
  assume "w \<in> set (take r ranked)"
  then obtain k where "k < r" "w = ranked ! k" using assms(2) by (auto simp: in_set_conv_nth)
  with assms show "w \<in> set ranked \<and> w < ranked ! r" by (auto simp: sorted_wrt_iff_nth_less)
next
  assume w: "w \<in> set ranked \<and> w < ranked ! r"
  then obtain k where k: "k < length ranked" "w = ranked ! k" by (auto simp: in_set_conv_nth)
  have "\<not> r \<le> k"
  proof
    assume "r \<le> k"
    then have "ranked ! r \<le> ranked ! k"
      using assms(1) k(1) by (cases "r = k") (auto simp: sorted_wrt_iff_nth_less intro: less_imp_le)
    with w k show False by simp
  qed
  then have "take r ranked ! k = w" "k < length (take r ranked)" using k assms(2) by simp_all
  then show "w \<in> set (take r ranked)" by (metis nth_mem)
qed

lemma strict_sorted_distinct: "sorted_wrt (<) (xs :: nat list) \<Longrightarrow> distinct xs"
  by (simp add: strict_sorted_iff)

lemma sort_strict: "distinct xs \<Longrightarrow> sorted_wrt (<) (sort (xs :: nat list))"
  by (simp add: strict_sorted_iff)

text \<open>The smaller values seen so far, counted by rank.\<close>

lemma seen_smaller:
  fixes ranked :: "nat list"
  assumes ranked: "sorted_wrt (<) ranked" "r < length ranked" and ys: "distinct ys" "set ys \<subseteq> set ranked"
  shows "marked_before (map (\<lambda>w. w \<in> set ys) ranked) r = length (filter (\<lambda>w. w < ranked ! r) ys)"
proof -
  have "distinct (take r ranked)" using strict_sorted_distinct [OF ranked(1)] by simp
  then have "length (filter (\<lambda>w. w \<in> set ys) (take r ranked)) = card {w \<in> set (take r ranked). w \<in> set ys}"
    by (metis distinct_card distinct_filter set_filter)
  also have "{w \<in> set (take r ranked). w \<in> set ys} = {w \<in> set ys. w < ranked ! r}"
    using strict_sorted_take [OF ranked] ys(2) by auto
  also have "card \<dots> = length (filter (\<lambda>w. w < ranked ! r) ys)"
    using ys(1) by (metis distinct_card distinct_filter set_filter)
  finally show ?thesis by (simp add: marked_before_map)
qed

lemma binary_search_nth: "distinct xs \<Longrightarrow> r < length xs \<Longrightarrow> binary_search xs (xs ! r) = Some r"
proof -
  assume "distinct xs" "r < length xs"
  moreover have "length (takeWhile (\<lambda>w. w \<noteq> xs ! r) xs) = r" if "distinct xs" "r < length xs" for xs :: "nat list" and r
    using that
  proof (induction xs arbitrary: r)
    case (Cons x xs)
    then show ?case by (cases r) (auto simp: nth_mem)
  qed simp
  ultimately show ?thesis by (simp add: binary_search_def)
qed

lemma enumerate_snoc: "enumerate n (xs @ [x]) = enumerate n xs @ [(n + length xs, x)]"
  by (simp add: enumerate_append_eq)

lemma nth_notin_take: "distinct xs \<Longrightarrow> i < length xs \<Longrightarrow> xs ! i \<notin> set (take i xs)"
  by (auto simp: in_set_conv_nth nth_eq_iff_index_eq)

lemma map_update_nth:
  "distinct xs \<Longrightarrow> r < length xs \<Longrightarrow> (map P xs)[r := b] = map (\<lambda>w. if w = xs ! r then b else P w) xs"
  by (auto simp: list_eq_iff_nth_eq nth_list_update nth_eq_iff_index_eq)

context mark_counter
begin

text \<open>Counting the larger values before each value by marking the values seen.\<close>

lemma rank_loop:
  fixes xs ranked :: "nat list"
  assumes xs: "distinct xs" and ranked: "sorted_wrt (<) ranked" "set ranked = set xs"
  defines "body \<equiv> \<lambda>e st. (case (e, st) of ((preceding, value), (lb, seen)) \<Rightarrow> do {
     rank \<leftarrow> binary_search ranked value;
     before \<leftarrow> count_before seen rank;
     d \<leftarrow> sub_u64 preceding before;
     lb \<leftarrow> vset lb rank d;
     seen \<leftarrow> add seen rank;
     Some (lb, seen)
   })"
  shows "\<exists>seen. for_each body (enumerate 0 xs) (replicate (length xs) 0, zeros (length xs))
    = Some (map (larger xs) ranked, seen)"
proof -
  have len: "length ranked = length xs"
    using xs ranked strict_sorted_distinct [OF ranked(1)] by (metis distinct_card)
  have "\<exists>lb seen. for_each body (enumerate 0 (take i xs)) (replicate (length xs) 0, zeros (length xs)) = Some (lb, seen)
      \<and> ok seen (map (\<lambda>w. w \<in> set (take i xs)) ranked) \<and> length lb = length xs
      \<and> (\<forall>r < length xs. ranked ! r \<in> set (take i xs) \<longrightarrow> lb ! r = larger xs (ranked ! r))" if "i \<le> length xs" for i
    using that
  proof (induction i)
    case 0
    have "map (\<lambda>w. False) ranked = replicate (length xs) False" using len by (simp add: map_replicate_const)
    then show ?case using zeros_ok [of "length xs"] by simp
  next
    case (Suc i)
    then obtain lb seen where IH: "for_each body (enumerate 0 (take i xs)) (replicate (length xs) 0, zeros (length xs)) = Some (lb, seen)"
      "ok seen (map (\<lambda>w. w \<in> set (take i xs)) ranked)" "length lb = length xs"
      "\<And>r. r < length xs \<Longrightarrow> ranked ! r \<in> set (take i xs) \<Longrightarrow> lb ! r = larger xs (ranked ! r)" by auto
    let ?v = "xs ! i"
    have i: "i < length xs" using Suc.prems by simp
    obtain r where r: "r < length ranked" "ranked ! r = ?v"
      using i ranked(2) by (metis in_set_conv_nth nth_mem)
    have fresh: "?v \<notin> set (take i xs)" using xs i by (rule nth_notin_take)
    have "count_before seen r = Some (length (filter (\<lambda>w. w < ?v) (take i xs)))"
      using count_before_ok [OF IH(2), of r] seen_smaller [OF ranked(1) r(1), of "take i xs"] r xs ranked(2)
      by (simp add: set_take_subset)
    moreover have "sub_u64 i (length (filter (\<lambda>w. w < ?v) (take i xs))) = Some (larger xs ?v)"
    proof -
      have "filter (\<lambda>w. \<not> w < ?v) (take i xs) = filter (\<lambda>w. ?v < w) (take i xs)"
        using fresh by (intro filter_cong) (auto simp: not_less_iff_gr_or_eq)
      then show ?thesis
        using sum_length_filter_compl [of "\<lambda>w. w < ?v" "take i xs"] larger_nth [OF xs i] i
        by (simp add: sub_u64_def)
    qed
    moreover have "binary_search ranked ?v = Some r"
      using binary_search_nth [OF strict_sorted_distinct [OF ranked(1)] r(1)] r(2) by simp
    moreover obtain seen' where seen': "add seen r = Some seen'"
      "ok seen' ((map (\<lambda>w. w \<in> set (take i xs)) ranked)[r := True])"
      using add_ok [OF IH(2), of r] r fresh by auto
    ultimately have step: "body (i, ?v) (lb, seen) = Some (lb[r := larger xs ?v], seen')"
      using IH(3) r(1) len by (simp add: body_def)
    have marks: "(map (\<lambda>w. w \<in> set (take i xs)) ranked)[r := True] = map (\<lambda>w. w \<in> set (take (Suc i) xs)) ranked"
      using i r strict_sorted_distinct [OF ranked(1)]
      by (auto simp: map_update_nth take_Suc_conv_app_nth)
    have "for_each body (enumerate 0 (take (Suc i) xs)) (replicate (length xs) 0, zeros (length xs))
        = Some (lb[r := larger xs ?v], seen')"
      using IH(1) step i by (simp add: take_Suc_conv_app_nth enumerate_snoc for_each_append)
    moreover have "lb[r := larger xs ?v] ! k = larger xs (ranked ! k)" if "k < length xs" "ranked ! k \<in> set (take (Suc i) xs)" for k
    proof (cases "k = r")
      case True
      then show ?thesis using r IH(3) len by simp
    next
      case False
      then have "ranked ! k \<noteq> ?v"
        using nth_eq_iff_index_eq [OF strict_sorted_distinct [OF ranked(1)], of k r] that(1) len r by auto
      with that i have "ranked ! k \<in> set (take i xs)" by (simp add: take_Suc_conv_app_nth)
      with False that(1) IH(4) show ?thesis by simp
    qed
    ultimately show ?case using seen'(2) marks IH(3) by simp
  qed
  from this [of "length xs"] obtain lb seen where fin:
    "for_each body (enumerate 0 xs) (replicate (length xs) 0, zeros (length xs)) = Some (lb, seen)"
    "length lb = length xs" "\<And>r. r < length xs \<Longrightarrow> ranked ! r \<in> set xs \<Longrightarrow> lb ! r = larger xs (ranked ! r)" by auto
  have "lb = map (larger xs) ranked"
    using fin(2,3) len ranked(2) nth_mem [of _ ranked] by (auto simp: list_eq_iff_nth_eq)
  with fin(1) show ?thesis by blast
qed

text \<open>Placing the values in ascending order, each before as many free slots as it has larger predecessors.\<close>

lemma place_loop:
  fixes zs ranked lbs :: "nat list"
  assumes zs: "distinct zs" and ranked: "sorted_wrt (<) ranked" "set ranked = set zs"
    and lbs: "length lbs = length ranked" "\<And>r. r < length ranked \<Longrightarrow> lbs ! r - passes = larger zs (ranked ! r)"
    and free: "ones (length zs) = Some free" and state: "length state = length zs"
  defines "body \<equiv> \<lambda>e st. (case (e, st) of ((rank, value), (free, state)) \<Rightarrow> do {
     l \<leftarrow> vget lbs rank;
     slot \<leftarrow> nth_marked free (saturating_sub l passes);
     free \<leftarrow> remove free slot;
     state \<leftarrow> vset state slot value;
     Some (free, state)
   })"
  shows "\<exists>free'. for_each body (enumerate 0 ranked) (free, state) = Some (free', zs)"
proof -
  have len: "length ranked = length zs"
    using zs ranked strict_sorted_distinct [OF ranked(1)] by (metis distinct_card)
  have "\<exists>free' st. for_each body (enumerate 0 (take r ranked)) (free, state) = Some (free', st)
      \<and> ok free' (map (\<lambda>w. w \<notin> set (take r ranked)) zs) \<and> length st = length zs
      \<and> (\<forall>s < length zs. zs ! s \<in> set (take r ranked) \<longrightarrow> st ! s = zs ! s)" if "r \<le> length ranked" for r
    using that
  proof (induction r)
    case 0
    have "map (\<lambda>w. True) zs = replicate (length zs) True" by (simp add: map_replicate_const)
    then show ?case using ones_ok [of "length zs"] free state by auto
  next
    case (Suc r)
    then obtain free' st where IH: "for_each body (enumerate 0 (take r ranked)) (free, state) = Some (free', st)"
      "ok free' (map (\<lambda>w. w \<notin> set (take r ranked)) zs)" "length st = length zs"
      "\<And>s. s < length zs \<Longrightarrow> zs ! s \<in> set (take r ranked) \<Longrightarrow> st ! s = zs ! s" by auto
    let ?v = "ranked ! r"
    have r: "r < length ranked" using Suc.prems by simp
    obtain s where s: "s < length zs" "zs ! s = ?v"
      using r ranked(2) by (metis in_set_conv_nth nth_mem)
    have notin: "?v \<notin> set (take r ranked)" using strict_sorted_take [OF ranked(1) r] by simp
    have "filter (\<lambda>w. w \<notin> set (take r ranked)) (take s zs) = filter (\<lambda>w. ?v < w) (take s zs)"
    proof (rule filter_cong [OF refl])
      fix w
      assume w: "w \<in> set (take s zs)"
      then have "w \<in> set zs" by (rule in_set_takeD)
      moreover have "w \<noteq> ?v" using w s nth_notin_take [OF zs s(1)] by auto
      ultimately show "w \<notin> set (take r ranked) \<longleftrightarrow> ?v < w"
        using strict_sorted_take [OF ranked(1) r, of w] ranked(2) by auto
    qed
    then have "marked_before (map (\<lambda>w. w \<notin> set (take r ranked)) zs) s = larger zs ?v"
      using larger_nth [OF zs s(1)] s(2) by (simp add: marked_before_map)
    then have nth: "nth_marked free' (lbs ! r - passes) = Some s"
      using nth_marked_ok [OF IH(2), of s] s notin lbs(2) [OF r] by simp
    obtain free'' where free'': "remove free' s = Some free''"
      "ok free'' ((map (\<lambda>w. w \<notin> set (take r ranked)) zs)[s := False])"
      using remove_ok [OF IH(2), of s] s notin by auto
    have step: "body (r, ?v) (free', st) = Some (free'', st[s := ?v])"
      using nth free''(1) r lbs(1) s IH(3) by (simp add: body_def saturating_sub_def)
    have marks: "(map (\<lambda>w. w \<notin> set (take r ranked)) zs)[s := False] = map (\<lambda>w. w \<notin> set (take (Suc r) ranked)) zs"
      using r s zs by (auto simp: map_update_nth take_Suc_conv_app_nth)
    have "for_each body (enumerate 0 (take (Suc r) ranked)) (free, state) = Some (free'', st[s := ?v])"
      using IH(1) step r by (simp add: take_Suc_conv_app_nth enumerate_snoc for_each_append)
    moreover have "st[s := ?v] ! k = zs ! k" if "k < length zs" "zs ! k \<in> set (take (Suc r) ranked)" for k
    proof (cases "k = s")
      case True
      then show ?thesis using s IH(3) by simp
    next
      case False
      then have "zs ! k \<noteq> ?v" using nth_eq_iff_index_eq [OF zs, of k s] that(1) s by auto
      with that r have "zs ! k \<in> set (take r ranked)" by (simp add: take_Suc_conv_app_nth)
      with False that(1) IH(4) show ?thesis by simp
    qed
    ultimately show ?case using free''(2) marks IH(3) by simp
  qed
  from this [of "length ranked"] obtain free' st where fin:
    "for_each body (enumerate 0 ranked) (free, state) = Some (free', st)" "length st = length zs"
    "\<And>s. s < length zs \<Longrightarrow> zs ! s \<in> set ranked \<Longrightarrow> st ! s = zs ! s" by auto
  have "st = zs" using fin(2,3) ranked(2) nth_mem [of _ zs] by (auto simp: list_eq_iff_nth_eq)
  with fin(1) show ?thesis by blast
qed

end

subsection \<open>The tables\<close>

lemma fold_max_ge: "\<forall>l \<in> set ls. l \<le> fold max ls (a :: nat)" "a \<le> fold max ls a"
proof -
  have "a \<le> fold max ls a \<and> (\<forall>l \<in> set ls. l \<le> fold max ls a)"
  proof (induction ls arbitrary: a)
    case (Cons l ls)
    then have "max l a \<le> fold max ls (max l a)" by blast
    with Cons [of "max l a"] show ?case by auto
  qed simp
  then show "\<forall>l \<in> set ls. l \<le> fold max ls a" "a \<le> fold max ls a" by auto
qed

lemma histogram:
  fixes t :: "nat list"
  assumes "\<forall>l \<in> set ls. l < length t"
  shows "\<exists>t'. for_each (\<lambda>l t. do { c \<leftarrow> vget t l; vset t l (c + 1) }) ls t = Some t' \<and> length t' = length t
    \<and> (\<forall>p < length t. t' ! p = t ! p + count_list ls p)"
  using assms
proof (induction ls arbitrary: t)
  case (Cons l ls)
  let ?t = "t[l := t ! l + 1]"
  obtain t' where "for_each (\<lambda>l t. do { c \<leftarrow> vget t l; vset t l (c + 1) }) ls ?t = Some t'" "length t' = length t"
    "\<forall>p < length t. t' ! p = ?t ! p + count_list ls p"
    using Cons.IH [of ?t] Cons.prems by auto
  with Cons.prems show ?case by (auto simp: nth_list_update)
qed simp

lemma suffix_sums:
  fixes t :: "nat list"
  assumes "n < length t"
  shows "\<exists>t'. for_each (\<lambda>p t. do { a \<leftarrow> vget t p; b \<leftarrow> vget t (p + 1); vset t p (a + b) }) (rev [0..<n]) t = Some t'
    \<and> length t' = length t \<and> (\<forall>p \<le> n. t' ! p = (\<Sum>q = p..n. t ! q)) \<and> (\<forall>p < length t. n \<le> p \<longrightarrow> t' ! p = t ! p)"
  using assms
proof (induction n arbitrary: t)
  case (Suc n)
  let ?t = "t[n := t ! n + t ! (n + 1)]"
  obtain t' where t': "for_each (\<lambda>p t. do { a \<leftarrow> vget t p; b \<leftarrow> vget t (p + 1); vset t p (a + b) }) (rev [0..<n]) ?t = Some t'"
    "length t' = length t" "\<And>p. p \<le> n \<Longrightarrow> t' ! p = (\<Sum>q = p..n. ?t ! q)"
    "\<And>p. p < length t \<Longrightarrow> n \<le> p \<Longrightarrow> t' ! p = ?t ! p"
    using Suc.IH [of ?t] Suc.prems by auto
  have "t' ! p = (\<Sum>q = p..Suc n. t ! q)" if "p \<le> Suc n" for p
  proof (cases "p \<le> n")
    case True
    have "(\<Sum>q = p..n. ?t ! q) = (\<Sum>q \<in> {p..<n}. ?t ! q) + ?t ! n"
      using True by (simp add: atLeastLessThanSuc_atLeastAtMost [symmetric])
    also have "(\<Sum>q \<in> {p..<n}. ?t ! q) = (\<Sum>q \<in> {p..<n}. t ! q)" by (intro sum.cong) auto
    finally have "t' ! p = (\<Sum>q \<in> {p..<n}. t ! q) + t ! n + t ! Suc n"
      using t'(3) [OF True] Suc.prems by simp
    then show ?thesis using True by (simp add: atLeastLessThanSuc_atLeastAtMost [symmetric])
  next
    case False
    with that have "p = Suc n" by simp
    then show ?thesis using t'(4) [of "Suc n"] Suc.prems by simp
  qed
  with t' Suc.prems show ?case by auto
qed auto

lemma count_from:
  fixes ls :: "nat list"
  assumes "\<forall>l \<in> set ls. l \<le> d"
  shows "(\<Sum>q = p..d + 1. count_list ls q) = length (filter (\<lambda>l. p \<le> l) ls)"
  using assms
proof (induction ls)
  case (Cons l ls)
  have "(\<Sum>q = p..d + 1. if l = q then 1 else 0) = (if p \<le> l then 1 else 0 :: nat)"
    using Cons.prems sum.delta' [of "{p..d + 1}" l "\<lambda>_. 1 :: nat"] by auto
  moreover have "count_list (l # ls) q = (if l = q then 1 else 0) + count_list ls q" for q by simp
  ultimately show ?case using Cons by (simp add: sum.distrib del: count_list.simps)
qed simp

lemma at_least_table_ok:
  assumes "\<forall>l \<in> set ls. l \<le> d"
  shows "at_least_table ls d = Some (map (\<lambda>p. length (filter (\<lambda>l. p \<le> l) ls)) [0..<d + 2])"
proof -
  obtain t where t: "for_each (\<lambda>l t. do { c \<leftarrow> vget t l; vset t l (c + 1) }) ls (replicate (d + 2) 0) = Some t"
    "length t = length (replicate (d + 2) (0 :: nat))"
    "\<forall>p < length (replicate (d + 2) 0). t ! p = replicate (d + 2) 0 ! p + count_list ls p"
    using histogram [of ls "replicate (d + 2) 0"] assms le_imp_less_Suc by force
  have len: "length t = d + 2" using t(2) by simp
  have hist: "t ! p = count_list ls p" if "p < d + 2" for p
    using t(3) that nth_replicate [OF that, of 0] by (simp del: replicate_Suc add_2_eq_Suc')
  obtain t' where t': "for_each (\<lambda>p t. do { a \<leftarrow> vget t p; b \<leftarrow> vget t (p + 1); vset t p (a + b) }) (rev [0..<d + 1]) t = Some t'"
    "length t' = length t" "\<And>p. p \<le> d + 1 \<Longrightarrow> t' ! p = (\<Sum>q = p..d + 1. t ! q)"
    using suffix_sums [of "d + 1" t] len by auto
  have "t' ! p = length (filter (\<lambda>l. p \<le> l) ls)" if "p < d + 2" for p
  proof -
    have "t' ! p = (\<Sum>q = p..d + 1. t ! q)" using that by (intro t'(3)) simp
    also have "\<dots> = (\<Sum>q = p..d + 1. count_list ls q)" using hist by (intro sum.cong) auto
    finally show ?thesis using count_from [OF assms] by simp
  qed
  then have "t' = map (\<lambda>p. length (filter (\<lambda>l. p \<le> l) ls)) [0..<d + 2]"
    using len t'(2) by (auto simp: list_eq_iff_nth_eq simp del: upt_Suc)
  with t(1) t'(1) show ?thesis by (simp add: at_least_table_def del: upt_Suc)
qed

subsection \<open>The loops of a move\<close>

text \<open>Which pass a number of swaps ends in.\<close>

lemma passes_loop_ok:
  assumes at: "\<And>p. p < d \<Longrightarrow> vget at_least (p + 1) = Some (W (Suc p) - W p)" and mono: "\<And>p. W p \<le> W (Suc p)"
  shows "p \<le> d \<Longrightarrow> W p \<le> k \<Longrightarrow> \<exists>p'. passes_loop at_least d k p (W p) = Some (p', k - W p') \<and> p' \<le> d \<and> W p' \<le> k
      \<and> (p' = d \<or> k < W (Suc p'))"
proof (induction "d - p" arbitrary: p)
  case 0
  then show ?case
    by (intro exI [of _ p]) (subst passes_loop.simps, simp add: sub_u64_def)
next
  case (Suc n)
  then have p: "p < d" by simp
  have sum: "W p + (W (Suc p) - W p) = W (Suc p)" using mono [of p] by simp
  show ?case
  proof (cases "W (Suc p) \<le> k")
    case True
    then show ?thesis
      using Suc.hyps(1) [of "Suc p"] Suc.hyps(2) p at [OF p] sum
      by (simp add: passes_loop.simps [of at_least d k p])
  next
    case False
    then show ?thesis
      using Suc.prems p at [OF p] sum by (simp add: passes_loop.simps [of at_least d k p] sub_u64_def)
  qed
qed

lemma pass_0 [simp]: "fst (pass 0 xs) = xs"
  using bubble_part [of 0 xs] by simp

text \<open>The first swaps of a pass.\<close>

lemma partial_loop_ok:
  "left \<le> pass_swaps xs \<Longrightarrow> partial_loop (pre @ xs) left (length pre) = Some (pre @ fst (pass left xs))"
proof (induction left xs arbitrary: pre rule: pass.induct)
  case (1 k x y zs)
  have nth: "(pre @ x # y # zs) ! length pre = x" "(pre @ x # y # zs) ! Suc (length pre) = y"
    by (simp_all add: nth_append)
  show ?case
  proof (cases "k = 0")
    case True
    then show ?thesis by (simp add: partial_loop.simps [of _ 0] del: pass.simps)
  next
    case k: False
    show ?thesis
    proof (cases "y < x")
      case True
      have upd: "(pre @ x # y # zs)[length pre := y, Suc (length pre) := x] = (pre @ [y]) @ x # zs"
        by (simp add: list_update_append)
      have "partial_loop ((pre @ [y]) @ x # zs) (k - 1) (length (pre @ [y])) = Some ((pre @ [y]) @ fst (pass (k - 1) (x # zs)))"
        using 1(3) True k by (intro 1(1)) simp_all
      with upd nth True k show ?thesis
        by (simp add: partial_loop.simps [of "pre @ x # y # zs"] split_beta Let_def)
    next
      case False
      have "partial_loop ((pre @ [x]) @ y # zs) k (length (pre @ [x])) = Some ((pre @ [x]) @ fst (pass k (y # zs)))"
        using 1(3) False by (intro 1(2)) simp_all
      with nth False k show ?thesis
        by (simp add: partial_loop.simps [of "pre @ x # y # zs"] split_beta Let_def)
    qed
  qed
qed (simp_all add: partial_loop.simps)

subsection \<open>The sortable range\<close>

lemma prefix_len_spec:
  "prefix_len k xs \<le> length xs \<and> take (prefix_len k xs) xs = [k..<k + prefix_len k xs]
   \<and> (prefix_len k xs < length xs \<longrightarrow> xs ! prefix_len k xs \<noteq> k + prefix_len k xs)"
proof (induction xs arbitrary: k)
  case (Cons x xs)
  show ?case
  proof (cases "k = x")
    case True
    then show ?thesis using Cons [of "Suc k"] by (simp add: upt_conv_Cons)
  qed simp
qed simp

lemma postfix_len_spec:
  "i + length vs \<le> Suc M \<Longrightarrow> \<exists>q \<le> length vs. postfix_len M i vs = Some q \<and> (\<forall>j < q. vs ! j = M - (i + j))"
proof (induction vs arbitrary: i)
  case (Cons v vs)
  then obtain q where q: "q \<le> length vs" "postfix_len M (Suc i) vs = Some q" "\<forall>j < q. vs ! j = M - (Suc i + j)"
    using Cons.IH [of "Suc i"] by auto
  have sub: "sub_u64 M i = Some (M - i)" using Cons.prems by (simp add: sub_u64_def)
  show ?case
  proof (cases "M - i = v")
    case True
    with q sub show ?thesis
      by (intro exI [of _ "Suc q"]) (auto simp: nth_Cons split: nat.splits)
  next
    case False
    with sub show ?thesis by (intro exI [of _ 0]) simp
  qed
qed simp

text \<open>The values outside the sortable range are in their places.\<close>

definition in_place :: "nat list \<Rightarrow> nat list \<Rightarrow> nat list \<Rightarrow> bool" where
  "in_place pre mid post \<longleftrightarrow> sorted pre \<and> sorted post \<and> (\<forall>x \<in> set pre. \<forall>y \<in> set mid \<union> set post. x < y)
     \<and> (\<forall>x \<in> set mid. \<forall>y \<in> set post. x < y)"

lemma in_place_prefix: "distinct ([0..<p] @ rest) \<Longrightarrow> x \<in> set [0..<p] \<Longrightarrow> y \<in> set rest \<Longrightarrow> x < y"
  by (metis atLeastLessThan_iff disjoint_iff distinct_append le0 leI less_le_trans set_upt)

lemma sortable_split:
  assumes perm: "distinct perm" "\<forall>v \<in> set perm. v < n" and p: "p = prefix_len 0 perm" "p < length perm"
    and q: "q \<le> length perm" "\<forall>j < q. rev perm ! j = (n - 1) - j"
  shows "p + q \<le> length perm"
    and "in_place (take p perm) (take (length perm - q - p) (drop p perm)) (drop (length perm - q) perm)"
proof -
  let ?len = "length perm"
  have n: "?len \<le> n"
  proof -
    have "card (set perm) \<le> card {..<n}" using perm(2) by (intro card_mono) auto
    then show ?thesis using distinct_card [OF perm(1)] by simp
  qed
  have pre: "take p perm = [0..<p]" "perm ! p \<noteq> p" using prefix_len_spec [of 0 perm] p by auto
  have nth: "perm ! (?len - 1 - j) = (n - 1) - j" if "j < q" for j
    using q that by (simp add: rev_nth)
  show le: "p + q \<le> ?len"
  proof (rule ccontr)
    assume "\<not> p + q \<le> ?len"
    then have gt: "?len - p < q" using p(2) by linarith
    have 1: "perm ! p = (n - 1) - (?len - 1 - p)" using nth [of "?len - 1 - p"] gt p by simp
    have p0: "0 < p" using gt q by (cases p) auto
    have "perm ! (p - 1) = (n - 1) - (?len - p)" using nth [of "?len - p"] gt p p0 by simp
    moreover have "perm ! (p - 1) = p - 1" using pre(1) p p0 by (metis add_0 diff_less less_numeral_extra(1) nth_take nth_upt)
    ultimately have "n = ?len" using p p0 n by linarith
    with 1 p pre(2) show False by simp
  qed
  let ?post = "drop (?len - q) perm" and ?mid = "take (?len - q - p) (drop p perm)"
  have split: "perm = take p perm @ ?mid @ ?post"
    using le by (metis append_take_drop_id drop_drop le_add_diff_inverse2 add.commute diff_add_inverse2 le_diff_conv2 add_leD2)
  have post_nth: "?post ! i = n - q + i" if "i < q" for i
    using nth [of "q - 1 - i"] that q(1) n by simp
  have post: "?post = [n - q..<n]"
    using q(1) n post_nth by (intro nth_equalityI) auto
  have "distinct ([0..<p] @ ?mid @ ?post)" using perm(1) split pre(1) by simp
  then have "\<forall>x \<in> set (take p perm). \<forall>y \<in> set ?mid \<union> set ?post. x < y"
    using in_place_prefix [of p "?mid @ ?post"] pre(1) by auto
  moreover have "x < y" if "x \<in> set ?mid" "y \<in> set ?post" for x y
  proof -
    have "x < n" using that perm(2) by (meson in_set_dropD in_set_takeD)
    moreover have "x \<notin> set ?post" using perm(1) split that by (metis disjoint_iff distinct_append)
    ultimately have "x < n - q" unfolding post by auto
    with that(2) show ?thesis unfolding post by auto
  qed
  ultimately show "in_place (take p perm) ?mid ?post"
    unfolding in_place_def using pre(1) post by simp
qed

lemma find_sortable_range_ok:
  assumes perm: "distinct perm" "\<forall>v \<in> set perm. v < n"
  shows "\<exists>pre mid post. perm = pre @ mid @ post \<and> in_place pre mid post
    \<and> find_sortable_range perm (n - 1) = Some (length pre, length pre + length mid)"
proof (cases "prefix_len 0 perm < length perm")
  case True
  let ?p = "prefix_len 0 perm"
  have "card (set perm) \<le> card {..<n}" using perm(2) by (intro card_mono) auto
  then have "length perm \<le> n" using distinct_card [OF perm(1)] by simp
  then obtain q where q: "q \<le> length perm" "postfix_len (n - 1) 0 (rev perm) = Some q"
    "\<forall>j < q. rev perm ! j = (n - 1) - j"
    using postfix_len_spec [of 0 "rev perm" "n - 1"] True by auto
  note sp = sortable_split [OF perm refl True q(1,3)]
  let ?mid = "take (length perm - q - ?p) (drop ?p perm)" and ?post = "drop (length perm - q) perm"
  have "perm = take ?p perm @ ?mid @ ?post"
    using sp(1) by (metis append_take_drop_id drop_drop le_add_diff_inverse2 add.commute diff_add_inverse2 le_diff_conv2 add_leD2)
  moreover have "find_sortable_range perm (n - 1) = Some (length (take ?p perm), length (take ?p perm) + length ?mid)"
    using True q sp(1) by (simp add: find_sortable_range_def sub_u64_def Let_def)
  ultimately show ?thesis using sp(2) by blast
next
  case False
  then have "prefix_len 0 perm = length perm" "perm = [0..<length perm]"
    using prefix_len_spec [of 0 perm] by auto
  then show ?thesis
    by (intro exI [of _ perm] exI [of _ "[]"])
      (simp add: in_place_def find_sortable_range_def sub_u64_def Let_def, metis sorted_upt)
qed

subsection \<open>The iterator holds a state of the bubble sort\<close>

definition deepest :: "nat list \<Rightarrow> nat" where
  "deepest mid = fold max (map (larger mid) (sort mid)) 0"

definition tables_ok :: "nat list \<Rightarrow> nat list \<Rightarrow> 'a bubble_sort_iter \<Rightarrow> bool" where
  "tables_ok pre mid it \<longleftrightarrow> bi_sortable it = (length pre, length pre + length mid) \<and> bi_ranked it = sort mid
     \<and> bi_larger_before it = map (larger mid) (sort mid)
     \<and> bi_at_least it = map (\<lambda>p. length (filter (\<lambda>l. p \<le> l) (map (larger mid) (sort mid)))) [0..<deepest mid + 2]
     \<and> bi_swap_count it = swaps_within mid (deepest mid)"

definition iter_ok :: "nat list \<Rightarrow> 'a list \<Rightarrow> 'a bubble_sort_iter \<Rightarrow> bool" where
  "iter_ok perm0 source it \<longleftrightarrow> bi_source it = source \<and> bi_cursor it \<le> bi_swap_count it
     \<and> (\<exists>pre mid post. perm0 = pre @ mid @ post \<and> distinct mid \<and> in_place pre mid post \<and> tables_ok pre mid it
          \<and> bi_perm it = pre @ bubble (bi_cursor it) mid @ post)"

lemma iter_okI:
  "perm0 = pre @ mid @ post \<Longrightarrow> distinct mid \<Longrightarrow> in_place pre mid post \<Longrightarrow> tables_ok pre mid it
   \<Longrightarrow> bi_perm it = pre @ bubble (bi_cursor it) mid @ post \<Longrightarrow> bi_source it = source
   \<Longrightarrow> bi_cursor it \<le> bi_swap_count it \<Longrightarrow> iter_ok perm0 source it"
  unfolding iter_ok_def by blast

lemma mset_bubble [simp]: "mset (bubble k xs) = mset xs"
proof (induction k xs rule: bubble.induct)
  case (1 k xs)
  have m: "mset ys = mset xs" if "pass k xs = (ys, k')" for ys k'
    using mset_pass [of k xs] that by (metis fst_conv)
  show ?case using 1 by (subst bubble.simps) (auto dest: m split: prod.splits)
qed

lemma length_bubble [simp]: "length (bubble k xs) = length xs"
  using mset_eq_length [OF mset_bubble] .

lemma larger_le_deepest: "v \<in> set mid \<Longrightarrow> larger mid v \<le> deepest mid"
  using fold_max_ge(1) [of "map (larger mid) (sort mid)" 0] by (simp add: deepest_def)

lemma count_sort: "length (filter P (map f (sort mid))) = length (filter (\<lambda>v. P (f v)) mid)"
  by (metis (no_types, lifting) comp_apply filter_cong filter_map length_map mset_filter mset_sort size_mset)

lemma sum_larger: "sum_list (map (larger mid) (sort mid)) = swaps_within mid (deepest mid)"
proof -
  have "\<forall>l \<in> set (map (larger mid) (sort mid)). l \<le> deepest mid" using larger_le_deepest by auto
  then show ?thesis using sum_levels unfolding swaps_within_def count_sort [symmetric] by blast
qed

lemma slice_mid: "slice (length pre, length pre + length mid) (pre @ mid @ post) = Some mid"
  by (simp add: slice_def)

lemma splice_mid: "length mid = length mid' \<Longrightarrow> splice (length pre, length pre + length mid) ys (pre @ mid' @ post) = pre @ ys @ post"
  by (simp add: splice_def)

lemma iter_new_ok:
  assumes perm: "distinct perm" "\<forall>v \<in> set perm. v < length source"
  shows "\<exists>it. bubble_iter_new perm source u = Some it \<and> iter_ok perm source it \<and> bi_cursor it = bi_swap_count it
    \<and> bi_unused_value_count it = u"
proof -
  obtain pre mid post where split: "perm = pre @ mid @ post" "in_place pre mid post"
    and range: "find_sortable_range perm (length source - 1) = Some (length pre, length pre + length mid)"
    using find_sortable_range_ok [OF perm] by blast
  have mid: "distinct mid" using perm(1) split(1) by simp
  have loop: "\<exists>seen. for_each (rank_step (sort mid)) (enumerate 0 mid) (replicate (length mid) 0, fenwick_zeros (length mid))
    = Some (map (larger mid) (sort mid), seen)"
    using fenwick.rank_loop [OF mid sort_strict [OF mid]] by (simp add: rank_step_def [abs_def])
  then obtain seen where seen: "for_each (rank_step (sort mid)) (enumerate 0 mid)
      (replicate (length mid) 0, fenwick_zeros (length mid)) = Some (map (larger mid) (sort mid), seen)" by blast
  have table: "at_least_table (map (larger mid) (sort mid)) (deepest mid)
    = Some (map (\<lambda>p. length (filter (\<lambda>l. p \<le> l) (map (larger mid) (sort mid)))) [0..<deepest mid + 2])"
    using larger_le_deepest [of _ mid] by (intro at_least_table_ok) auto
  have sorted: "bubble (swaps_within mid (deepest mid)) mid = sort mid"
    using larger_le_deepest [of _ mid] by (intro bubble_sorts [OF mid]) auto
  let ?it = "\<lparr>bi_perm = pre @ sort mid @ post, bi_source = source,
     bi_sortable = (length pre, length pre + length mid), bi_ranked = sort mid,
     bi_larger_before = map (larger mid) (sort mid),
     bi_at_least = map (\<lambda>p. length (filter (\<lambda>l. p \<le> l) (map (larger mid) (sort mid)))) [0..<deepest mid + 2],
     bi_swap_count = swaps_within mid (deepest mid), bi_cursor = swaps_within mid (deepest mid),
     bi_unused_value_count = u\<rparr>"
  have new: "bubble_iter_new perm source u = Some ?it"
    unfolding bubble_iter_new_def range split(1)
    using range [unfolded split(1)] seen table
    by (simp only: slice_mid splice_mid [OF refl] Option.bind.simps Let_def prod.case deepest_def [symmetric] sum_larger)
  have ok: "iter_ok perm source ?it"
    by (rule iter_okI [OF split(1) mid split(2)]) (simp_all add: tables_ok_def sorted)
  show ?thesis using new ok by (intro exI [of _ ?it]) simp
qed

text \<open>Placing the values and making the first swaps of the next pass rebuilds the state.\<close>

lemma passes_within_ok:
  assumes it: "tables_ok pre mid it" and mid: "distinct mid" and k: "k \<le> bi_swap_count it"
  shows "\<exists>p. passes_within it k = Some (p, k - swaps_within mid p) \<and> swaps_within mid p \<le> k
    \<and> k - swaps_within mid p \<le> pass_swaps ((full_pass ^^ p) mid)
    \<and> bubble k mid = fst (pass (k - swaps_within mid p) ((full_pass ^^ p) mid))"
proof -
  let ?W = "swaps_within mid" and ?d = "deepest mid"
  have step: "?W (Suc p) = ?W p + pass_swaps ((full_pass ^^ p) mid)" for p
    using mid by (simp add: swaps_within_def iterate_pass_swaps)
  have at: "vget (bi_at_least it) (p + 1) = Some (?W (Suc p) - ?W p)" if "p < ?d" for p
  proof -
    have "p + 1 < ?d + 2" using that by simp
    moreover have "?W (Suc p) - ?W p = length (filter (\<lambda>v. p + 1 \<le> larger mid v) mid)"
      by (simp add: swaps_within_def Suc_le_eq)
    ultimately show ?thesis using it unfolding tables_ok_def count_sort by (simp add: vget_def del: upt_Suc)
  qed
  have len: "sub_u64 (length (bi_at_least it)) 2 = Some ?d" using it by (simp add: tables_ok_def sub_u64_def)
  obtain p where p: "passes_loop (bi_at_least it) ?d k 0 0 = Some (p, k - ?W p)" "p \<le> ?d" "?W p \<le> k"
    "p = ?d \<or> k < ?W (Suc p)"
    using passes_loop_ok [of ?d "bi_at_least it" ?W 0 k, OF at] step by (auto simp: swaps_within_def)
  have part: "k - ?W p < pass_swaps ((full_pass ^^ p) mid) \<or> k - ?W p = 0"
    using p(3,4) k it step [of p] by (auto simp: tables_ok_def)
  have "bubble k mid = fst (pass (k - ?W p) ((full_pass ^^ p) mid))"
    using bubble_passes [OF mid p(3)] bubble_part [OF part] by simp
  moreover have "passes_within it k = Some (p, k - ?W p)" using len p(1) by (simp add: passes_within_def)
  ultimately show ?thesis using p(3) part by (intro exI [of _ p]) auto
qed

lemma seek_ok:
  assumes it: "iter_ok perm0 source it"
  shows "\<exists>it'. seek k it = Some it' \<and> iter_ok perm0 source it' \<and> bi_cursor it' = min k (bi_swap_count it)
    \<and> bi_swap_count it' = bi_swap_count it \<and> bi_unused_value_count it' = bi_unused_value_count it"
proof (cases "min k (bi_swap_count it) = bi_cursor it")
  case True
  with it show ?thesis by (simp add: seek_def)
next
  case False
  let ?k = "min k (bi_swap_count it)"
  obtain pre mid post where sp: "perm0 = pre @ mid @ post" "distinct mid" "in_place pre mid post" "tables_ok pre mid it"
    "bi_perm it = pre @ bubble (bi_cursor it) mid @ post"
    using it by (auto simp: iter_ok_def)
  obtain p where p: "passes_within it ?k = Some (p, ?k - swaps_within mid p)"
    "?k - swaps_within mid p \<le> pass_swaps ((full_pass ^^ p) mid)"
    "bubble ?k mid = fst (pass (?k - swaps_within mid p) ((full_pass ^^ p) mid))"
    using passes_within_ok [OF sp(4,2), of ?k] by auto
  let ?zs = "(full_pass ^^ p) mid" and ?lbs = "map (larger mid) (sort mid)"
  obtain free where free: "fenwick_ones (length mid) = Some free"
    using fenwick.ones_ok [of "length mid"] by blast
  have rest: "?lbs ! r - p = larger ?zs (sort mid ! r)" if "r < length (sort mid)" for r
  proof -
    have "sort mid ! r \<in> set mid" using that nth_mem [of r "sort mid"] by simp
    then show ?thesis using iterate_larger [OF sp(2), of "sort mid ! r" p] that by simp
  qed
  have "\<exists>free'. for_each (place_step p ?lbs) (enumerate 0 (sort mid)) (free, bubble (bi_cursor it) mid) = Some (free', ?zs)"
    using fenwick.place_loop [of ?zs "sort mid" ?lbs p free "bubble (bi_cursor it) mid"] sp(2) free rest
    by (simp add: place_step_def [abs_def] sort_strict del: nth_map)
  then obtain free' where place: "for_each (place_step p ?lbs) (enumerate 0 (sort mid)) (free, bubble (bi_cursor it) mid)
    = Some (free', ?zs)" by blast
  have part: "partial_loop ?zs (?k - swaps_within mid p) 0 = Some (bubble ?k mid)"
    using partial_loop_ok [OF p(2), of "[]"] p(3) by simp
  have fields: "bi_sortable it = (length pre, length pre + length mid)" "bi_ranked it = sort mid" "bi_larger_before it = ?lbs"
    using sp(4) by (auto simp: tables_ok_def)
  have slice: "slice (length pre, length pre + length mid) (pre @ bubble c mid @ post) = Some (bubble c mid)" for c
    using slice_mid [of pre "bubble c mid" post] by simp
  have seek: "seek k it = Some (it\<lparr>bi_perm := pre @ bubble ?k mid @ post, bi_cursor := ?k\<rparr>)"
    unfolding seek_def using False p(1) free place part
    by (simp only: fields sp(5) slice splice_mid [OF length_bubble [symmetric]] length_bubble Let_def if_False
        Option.bind.simps prod.case)
  have "iter_ok perm0 source (it\<lparr>bi_perm := pre @ bubble ?k mid @ post, bi_cursor := ?k\<rparr>)"
    using it sp(4) by (intro iter_okI [OF sp(1-3)]) (auto simp: iter_ok_def tables_ok_def)
  with seek show ?thesis by simp
qed

lemma iter_ok_perm: "iter_ok perm0 source it \<Longrightarrow> bi_perm it = bubble (bi_cursor it) perm0"
  by (auto simp: iter_ok_def in_place_def bubble_middle)

end
