(* ===== verification/Bubbles_Match.thy ===== *)
theory Bubbles_Match
  imports Bubbles_Correct
begin

text \<open>
  What the permutation between two schedules matches, and what the iterator over its bubble sort shows:
  the two ends of the sort, the fewest adjacent swaps between them, and every move in between.
\<close>

subsection \<open>The matching\<close>

text \<open>The indices of a value, from a first index on.\<close>

fun positions :: "nat \<Rightarrow> 'a list \<Rightarrow> 'a \<Rightarrow> nat list" where
  "positions i [] v = []"
| "positions i (x # xs) v = (if x = v then i # positions (Suc i) xs v else positions (Suc i) xs v)"

text \<open>Takes the indices left for each value from the front.\<close>

fun take_positions :: "('a \<Rightarrow> nat list) \<Rightarrow> 'a list \<Rightarrow> nat option list" where
  "take_positions f [] = []"
| "take_positions f (v # vs) =
     (case f v of [] \<Rightarrow> None # take_positions f vs | i # is \<Rightarrow> Some i # take_positions (f(v := is)) vs)"

definition indices :: "('a \<times> nat list) list \<Rightarrow> 'a \<Rightarrow> nat list" where
  "indices m v = (case map_of m v of Some l \<Rightarrow> l | None \<Rightarrow> [])"

lemma indices_update [simp]: "indices (AList.update v l m) = (indices m)(v := l)"
  by (auto simp: indices_def fun_eq_iff update_conv)

lemma index_source_indices: "indices (index_source i vs m) v = indices m v @ positions i vs v"
proof (induction vs arbitrary: i m)
  case (Cons x vs)
  have "index_source i (x # vs) m = index_source (Suc i) vs (AList.update x (indices m x @ [i]) m)"
    by (simp add: indices_def)
  then show ?case using Cons by auto
qed simp

lemma index_source_keys: "distinct (map fst m) \<Longrightarrow> distinct (map fst (index_source i vs m))"
  by (induction i vs m rule: index_source.induct) (auto simp: distinct_update)

lemma indices_map: "indices (map (\<lambda>e. (fst e, rev (snd e))) m) v = rev (indices m v)"
  by (induction m) (auto simp: indices_def)

lemma pop_index_indices:
  "pop_index v m = (s, m') \<Longrightarrow> rev (indices m v) = is
   \<Longrightarrow> s = (case is of [] \<Rightarrow> None | i # _ \<Rightarrow> Some i)
     \<and> (\<lambda>w. rev (indices m' w)) = (\<lambda>w. rev (indices m w))(v := tl is)"
  by (cases "indices m v" rule: rev_cases)
    (auto simp: pop_index_def indices_def fun_eq_iff update_conv split: option.splits if_splits)

lemma pop_index_keys: "pop_index v m = (s, m') \<Longrightarrow> distinct (map fst m) \<Longrightarrow> distinct (map fst m')"
  by (auto simp: pop_index_def distinct_update split: option.splits if_splits)

lemma fun_upd_triv_tl: "f v = [] \<Longrightarrow> f(v := tl []) = f"
  by auto

lemma match_target_take:
  "match_target i vs m = (perm, unmatched, m') \<Longrightarrow> perm = take_positions (\<lambda>v. rev (indices m v)) vs
   \<and> unmatched = map fst (filter (\<lambda>e. snd e = None) (enumerate i perm))"
proof (induction vs arbitrary: i m perm unmatched m')
  case (Cons v vs)
  obtain s m1 where pop: "pop_index v m = (s, m1)" by fastforce
  obtain perm1 unmatched1 m2 where rest: "match_target (Suc i) vs m1 = (perm1, unmatched1, m2)" by (metis prod_cases3)
  note IH = Cons.IH [OF rest]
  have s: "s = (case rev (indices m v) of [] \<Rightarrow> None | i # _ \<Rightarrow> Some i)"
    and m1: "(\<lambda>w. rev (indices m1 w)) = (\<lambda>w. rev (indices m w))(v := tl (rev (indices m v)))"
    using pop_index_indices [OF pop refl] by auto
  have perm: "perm = s # perm1" "unmatched = (if s = None then i # unmatched1 else unmatched1)"
    using Cons.prems pop rest by auto
  have "perm = take_positions (\<lambda>v. rev (indices m v)) (v # vs)"
  proof (cases "rev (indices m v)")
    case Nil
    then have "(\<lambda>w. rev (indices m1 w)) = (\<lambda>w. rev (indices m w))" using m1 fun_upd_triv_tl [of "\<lambda>w. rev (indices m w)" v] by simp
    with Nil show ?thesis using perm IH s by simp
  next
    case (Cons a as)
    then show ?thesis using perm IH s m1 by simp
  qed
  moreover have "unmatched = map fst (filter (\<lambda>e. snd e = None) (enumerate i perm))" using perm IH by auto
  ultimately show ?case by blast
qed simp

lemma generate_expanded_perm:
  "ex_perm (generate_expanded_permutation source target) = take_positions (positions 0 source) target"
  "ex_unmatched_target (generate_expanded_permutation source target)
   = map fst (filter (\<lambda>e. snd e = None) (enumerate 0 (take_positions (positions 0 source) target)))"
proof -
  let ?m = "map (\<lambda>e. (fst e, rev (snd e))) (index_source 0 source [])"
  obtain perm unmatched m' where mt: "match_target 0 target ?m = (perm, unmatched, m')" by (metis prod_cases3)
  have "(\<lambda>v. rev (indices ?m v)) = positions 0 source"
    by (auto simp: fun_eq_iff indices_map index_source_indices) (simp add: indices_def)
  with match_target_take [OF mt] mt
  show "ex_perm (generate_expanded_permutation source target) = take_positions (positions 0 source) target"
    "ex_unmatched_target (generate_expanded_permutation source target)
     = map fst (filter (\<lambda>e. snd e = None) (enumerate 0 (take_positions (positions 0 source) target)))"
    by (auto simp: generate_expanded_permutation_def Let_def split_beta)
qed

text \<open>The \<open>c\<close>-th occurrence of a value takes the \<open>c\<close>-th index left for it.\<close>

lemma take_positions_nth:
  "i < length vs \<Longrightarrow> take_positions f vs ! i =
     (let l = f (vs ! i); c = length (filter (\<lambda>w. w = vs ! i) (take i vs)) in if c < length l then Some (l ! c) else None)"
proof (induction vs arbitrary: f i)
  case (Cons v vs)
  show ?case
  proof (cases i)
    case 0
    then show ?thesis by (cases "f v") auto
  next
    case (Suc j)
    then have j: "j < length vs" using Cons.prems by simp
    show ?thesis
    proof (cases "f v")
      case Nil
      then show ?thesis using Suc Cons.IH [OF j, of f] by (auto simp: Let_def)
    next
      case c: (Cons a as)
      then show ?thesis using Suc Cons.IH [OF j, of "f(v := as)"] by (auto simp: Let_def fun_upd_def)
    qed
  qed
qed simp

lemma length_take_positions [simp]: "length (take_positions f vs) = length vs"
  by (induction vs arbitrary: f) (auto split: list.splits)

lemma take_positions_map:
  "take_positions f vs = map (\<lambda>i. let l = f (vs ! i); c = length (filter (\<lambda>w. w = vs ! i) (take i vs))
     in if c < length l then Some (l ! c) else None) [0..<length vs]"
  by (rule nth_equalityI) (simp_all add: take_positions_nth)

lemma positions_nth:
  "j < length (positions i xs v) \<Longrightarrow> i \<le> positions i xs v ! j \<and> positions i xs v ! j < i + length xs
    \<and> xs ! (positions i xs v ! j - i) = v"
proof (induction xs arbitrary: i j)
  case (Cons x xs)
  have less: "xs ! (k - Suc i) = (x # xs) ! (k - i)" if "Suc i \<le> k" for k
    using that by (cases "k - i") (auto simp: diff_Suc split: nat.splits)
  show ?case
  proof (cases "x = v \<and> j = 0")
    case False
    let ?j = "if x = v then j - 1 else j"
    have "?j < length (positions (Suc i) xs v)" "positions i (x # xs) v ! j = positions (Suc i) xs v ! ?j"
      using False Cons.prems by (auto simp: nth_Cons' split: if_splits)
    then show ?thesis using Cons.IH [of ?j "Suc i"] less by auto
  qed simp
qed simp

lemma take_positions_value:
  assumes "i < length target" "take_positions (positions 0 source) target ! i = Some s"
  shows "s < length source" "source ! s = target ! i"
  using assms take_positions_nth [of i target "positions 0 source"] positions_nth [of _ 0 source "target ! i"]
  by (auto simp: Let_def split: if_splits)

text \<open>Every index of the source is matched once or left over.\<close>

abbreviation all_indices :: "('a \<times> nat list) list \<Rightarrow> nat multiset" where
  "all_indices m \<equiv> mset (concat (map snd m))"

lemma all_indices_update: "all_indices (AList.update v l m) + mset (indices m v) = all_indices m + mset l"
  by (induction m) (auto simp: indices_def)

lemma index_source_all: "all_indices (index_source i vs m) = all_indices m + mset [i..<i + length vs]"
proof (induction vs arbitrary: i m)
  case (Cons x vs)
  have "index_source i (x # vs) m = index_source (Suc i) vs (AList.update x (indices m x @ [i]) m)"
    by (simp add: indices_def)
  moreover have "all_indices (AList.update x (indices m x @ [i]) m) = all_indices m + {#i#}"
    using all_indices_update [of x "indices m x @ [i]" m] by simp
  moreover have "[i..<i + length (x # vs)] = i # [Suc i..<Suc i + length vs]" by (simp add: upt_conv_Cons del: upt_Suc)
  ultimately show ?case by (simp only: Cons mset.simps) (simp del: mset_concat mset_upt)
qed simp

definition matched :: "nat option list \<Rightarrow> nat list" where
  "matched perm = map the (filter (\<lambda>v. v \<noteq> None) perm)"

lemma pop_index_all:
  assumes "pop_index v m = (s, m')"
  shows "all_indices m' + mset (matched [s]) = all_indices m"
proof (cases "indices m v" rule: rev_cases)
  case Nil
  then show ?thesis using assms by (auto simp: pop_index_def indices_def matched_def split: option.splits if_splits)
next
  case (snoc ys y)
  then have "map_of m v = Some (ys @ [y])" by (auto simp: indices_def split: option.splits)
  then have "s = Some y" "m' = AList.update v ys m" using assms by (auto simp: pop_index_def)
  then show ?thesis using all_indices_update [of v ys m] snoc by (simp add: matched_def del: mset_concat)
qed

lemma match_target_all:
  "match_target i vs m = (perm, unmatched, m') \<Longrightarrow> all_indices m' + mset (matched perm) = all_indices m"
proof (induction vs arbitrary: i m perm unmatched m')
  case (Cons v vs)
  obtain s m1 where pop: "pop_index v m = (s, m1)" by fastforce
  obtain perm1 unmatched1 m2 where rest: "match_target (Suc i) vs m1 = (perm1, unmatched1, m2)" by (metis prod_cases3)
  have "perm = s # perm1" "m' = m2" using Cons.prems pop rest by auto
  moreover have "mset (matched (s # perm1)) = mset (matched [s]) + mset (matched perm1)" by (simp add: matched_def)
  ultimately show ?case using Cons.IH [OF rest] pop_index_all [OF pop] by (metis add.assoc add.commute)
qed (simp add: matched_def)

lemma all_indices_rev: "all_indices (map (\<lambda>e. (fst e, rev (snd e))) m) = all_indices m"
  by (induction m) simp_all

lemma generate_all:
  "mset (matched (take_positions (positions 0 source) target))
     + mset (ex_unmatched_source (generate_expanded_permutation source target)) = mset [0..<length source]"
  "sorted (ex_unmatched_source (generate_expanded_permutation source target))"
proof -
  let ?m = "map (\<lambda>e. (fst e, rev (snd e))) (index_source 0 source [])"
  obtain perm unmatched m' where mt: "match_target 0 target ?m = (perm, unmatched, m')" by (metis prod_cases3)
  have "all_indices ?m = all_indices (index_source 0 source [])" by (rule all_indices_rev)
  then have "all_indices m' + mset (matched perm) = mset [0..<length source]"
    using match_target_all [OF mt] index_source_all [of 0 source "[]"] by simp
  moreover have "ex_perm (generate_expanded_permutation source target) = perm"
    "ex_unmatched_source (generate_expanded_permutation source target) = sort (concat (map snd m'))"
    using mt by (auto simp: generate_expanded_permutation_def Let_def)
  ultimately show "mset (matched (take_positions (positions 0 source) target))
     + mset (ex_unmatched_source (generate_expanded_permutation source target)) = mset [0..<length source]"
    "sorted (ex_unmatched_source (generate_expanded_permutation source target))"
    using generate_expanded_perm(1) [of source target] by (simp_all add: ac_simps del: mset_concat)
qed

lemma pr_perm_matched:
  "pr_perm (generate_permutation source target) = matched (take_positions (positions 0 source) target)"
  by (simp add: generate_permutation_def collapse_def matched_def generate_expanded_perm)

lemma pr_perm_ok:
  "distinct (pr_perm (generate_permutation source target))"
  "\<forall>v \<in> set (pr_perm (generate_permutation source target)). v < length source"
proof -
  let ?perm = "pr_perm (generate_permutation source target)"
    and ?rest = "ex_unmatched_source (generate_expanded_permutation source target)"
  have all: "mset (?perm @ ?rest) = mset [0..<length source]"
    using generate_all(1) [of source target] by (simp add: pr_perm_matched)
  then have "distinct (?perm @ ?rest)" by (metis distinct_upt mset_eq_imp_distinct_iff)
  then show "distinct ?perm" by simp
  have "set (?perm @ ?rest) = {0..<length source}" using all by (metis mset_eq_setD set_upt)
  then show "\<forall>v \<in> set ?perm. v < length source" by auto
qed

lemma matched_map:
  assumes "length perm = length target"
    "\<And>i s. i < length target \<Longrightarrow> perm ! i = Some s \<Longrightarrow> source ! s = target ! i"
  shows "map ((!) source) (matched perm) = map snd (filter (\<lambda>e. fst e \<noteq> None) (zip perm target))"
  using assms
proof (induction perm target rule: list_induct2)
  case (Cons p perm t target)
  have "map ((!) source) (matched perm) = map snd (filter (\<lambda>e. fst e \<noteq> None) (zip perm target))"
    using Cons.prems [of "Suc _"] by (intro Cons.IH) auto
  then show ?case using Cons.prems [of 0] by (auto simp: matched_def)
qed (simp add: matched_def)

lemma matched_shows:
  "map ((!) source) (matched (take_positions (positions 0 source) target))
   = map snd (filter (\<lambda>e. fst e \<noteq> None) (zip (take_positions (positions 0 source) target) target))"
  by (rule matched_map) (auto intro: take_positions_value(2))

subsection \<open>The fewest adjacent swaps\<close>

fun inversions :: "nat list \<Rightarrow> nat" where
  "inversions [] = 0"
| "inversions (x # xs) = length (filter (\<lambda>y. y < x) xs) + inversions xs"

inductive swaps_to :: "nat \<Rightarrow> nat list \<Rightarrow> nat list \<Rightarrow> bool" where
  swaps_none: "swaps_to 0 xs xs"
| swaps_one: "swaps_to n xs (us @ a # b # vs) \<Longrightarrow> swaps_to (Suc n) xs (us @ b # a # vs)"

lemma inversions_append:
  "inversions (us @ vs) = inversions us + inversions vs + sum_list (map (\<lambda>u. length (filter (\<lambda>y. y < u) vs)) us)"
  by (induction us) auto

lemma swaps_inversions: "swaps_to n xs ys \<Longrightarrow> inversions xs \<le> n + inversions ys"
proof (induction rule: swaps_to.induct)
  case (swaps_one n xs us a b vs)
  have "map (\<lambda>u. length (filter (\<lambda>y. y < u) (a # b # vs))) us = map (\<lambda>u. length (filter (\<lambda>y. y < u) (b # a # vs))) us"
    by (rule map_cong) auto
  moreover have "inversions (a # b # vs) \<le> Suc (inversions (b # a # vs))" by simp
  ultimately have "inversions (us @ a # b # vs) \<le> Suc (inversions (us @ b # a # vs))"
    unfolding inversions_append by (simp only: add_le_mono add_Suc_right [symmetric] add_Suc [symmetric])
  with swaps_one.IH show ?case by simp
qed simp

lemma swaps_trans: "swaps_to n ys zs \<Longrightarrow> swaps_to m xs ys \<Longrightarrow> swaps_to (m + n) xs zs"
  by (induction rule: swaps_to.induct) (auto intro: swaps_one)

lemma swaps_Cons: "swaps_to n xs ys \<Longrightarrow> swaps_to n (z # xs) (z # ys)"
proof (induction rule: swaps_to.induct)
  case (swaps_one n xs us a b vs)
  then show ?case using swaps_to.swaps_one [of n "z # xs" "z # us" a b vs] by simp
qed (rule swaps_none)

lemma swaps_pass: "swaps_to (k - snd (pass k xs)) xs (fst (pass k xs))"
proof (induction k xs rule: pass.induct)
  case (1 k x y zs)
  show ?case
  proof (cases "y < x \<and> k \<noteq> 0")
    case True
    have first: "swaps_to 1 (x # y # zs) (y # x # zs)"
      using swaps_one [OF swaps_none, of "[]" x y zs] by simp
    obtain r k' where p: "pass (k - 1) (x # zs) = (r, k')" by fastforce
    then have "swaps_to (k - 1 - k') (x # zs) r" "k' \<le> k - 1"
      using 1(1) True pass_rest_le [of "k - 1" "x # zs"] by auto
    then have "swaps_to (1 + (k - 1 - k')) (x # y # zs) (y # r)" using first swaps_Cons swaps_trans by blast
    moreover have "1 + (k - 1 - k') = k - k'" using conjunct2 [OF True] \<open>k' \<le> k - 1\<close> by linarith
    ultimately show ?thesis using True p by simp
  next
    case False
    obtain r k' where p: "pass k (y # zs) = (r, k')" by fastforce
    show ?thesis
    proof (cases "y < x")
      case True
      then show ?thesis using False by (simp add: swaps_none)
    next
      case ge: False
      then show ?thesis using 1(2) p swaps_Cons [of "k - k'" "y # zs" r x] by simp
    qed
  qed
qed (auto intro: swaps_none)

lemma swaps_bubble: "\<exists>m \<le> k. swaps_to m xs (bubble k xs)"
proof (induction k xs rule: bubble.induct)
  case (1 k xs)
  obtain ys k' where p: "pass k xs = (ys, k')" by fastforce
  have sw: "swaps_to (k - k') xs ys" "k' \<le> k" using swaps_pass [of k xs] pass_rest_le [of k xs] p by auto
  show ?case
  proof (cases "k = 0 \<or> k' = k")
    case True
    then show ?thesis using sw p by (subst bubble.simps) (auto intro: swaps_none)
  next
    case False
    then have "\<exists>m \<le> k'. swaps_to m ys (bubble k' ys)" using 1 p by simp
    then obtain m where m: "m \<le> k'" "swaps_to m ys (bubble k' ys)" by blast
    have "swaps_to (k - k' + m) xs (bubble k' ys)" using swaps_trans [OF m(2) sw(1)] .
    moreover have "bubble k xs = bubble k' ys" using False p by (subst bubble.simps) simp
    ultimately show ?thesis using m(1) sw(2) by (intro exI [of _ "k - k' + m"]) simp
  qed
qed

lemma inversions_sorted: "sorted xs \<Longrightarrow> inversions xs = 0"
proof (induction xs)
  case (Cons x xs)
  then show ?case by (auto simp: filter_empty_conv)
qed simp

lemma sum_larger_inversions: "distinct xs \<Longrightarrow> sum_list (map (larger xs) xs) = inversions xs"
proof (induction xs)
  case (Cons x xs)
  have "map (larger (x # xs)) xs = map (\<lambda>v. (if v < x then 1 else 0) + larger xs v) xs"
    using Cons.prems by auto
  moreover have "sum_list (map (larger (x # xs)) (x # xs)) = sum_list (map (larger (x # xs)) xs)" by simp
  moreover have "sum_list (map (\<lambda>v. if v < x then 1 else 0 :: nat) xs) = length (filter (\<lambda>v. v < x) xs)"
    by (induction xs) auto
  ultimately show ?case using Cons by (simp only: sum_list_addf inversions.simps distinct.simps)
qed simp

lemma inversions_in_place: "in_place pre mid post \<Longrightarrow> inversions (pre @ mid @ post) = inversions mid"
proof -
  assume ip: "in_place pre mid post"
  have none: "filter (\<lambda>y. y < u) (mid @ post) = []" if "u \<in> set pre" for u
    using ip that unfolding in_place_def filter_empty_conv set_append by (metis UnCI less_asym)
  have none': "filter (\<lambda>y. y < u) post = []" if "u \<in> set mid" for u
    using ip that unfolding in_place_def filter_empty_conv set_append by (metis UnCI less_asym)
  have "map (\<lambda>u. length (filter (\<lambda>y. y < u) (mid @ post))) pre = map (\<lambda>u. 0) pre"
    using none by (intro map_cong) (simp_all del: filter_append)
  moreover have "map (\<lambda>u. length (filter (\<lambda>y. y < u) post)) mid = map (\<lambda>u. 0) mid"
    using none' by (intro map_cong) simp_all
  ultimately show ?thesis using ip unfolding inversions_append
    by (simp only: inversions_sorted in_place_def) (simp add: sum_list_triv)
qed

lemma iter_ok_swap_count:
  assumes "iter_ok perm source it"
  shows "bi_swap_count it = inversions perm"
proof -
  obtain pre mid post where sp: "perm = pre @ mid @ post" "distinct mid" "in_place pre mid post" "tables_ok pre mid it"
    using assms by (auto simp: iter_ok_def)
  have "sum_list (map (larger mid) (sort mid)) = sum_list (map (larger mid) mid)"
    by (metis mset_map mset_sort sum_mset_sum_list)
  then show ?thesis using sp inversions_in_place [OF sp(3)] sum_larger [of mid] sum_larger_inversions [OF sp(2)]
    by (simp add: tables_ok_def)
qed

subsection \<open>Moving through the states\<close>

datatype move = Next | Skip nat | Next_Back | Skip_Back nat | Midpoint | Interpolate nat

fun move_step :: "move \<Rightarrow> 'a bubble_sort_iter \<Rightarrow> 'a bubble_sort_iter option" where
  "move_step Next it = map_option snd (next_state it)"
| "move_step (Skip d) it = skip d it"
| "move_step Next_Back it = map_option snd (next_back it)"
| "move_step (Skip_Back d) it = skip_back d it"
| "move_step Midpoint it = map_option snd (midpoint it)"
| "move_step (Interpolate p) it = map_option snd (interpolate p it)"

text \<open>The moves on the number of swaps made, out of \<open>n\<close>.\<close>

fun cursor_step :: "nat \<Rightarrow> move \<Rightarrow> nat \<Rightarrow> nat" where
  "cursor_step n Next c = min n (c + 1)"
| "cursor_step n (Skip d) c = min n (c + d)"
| "cursor_step n Next_Back c = c - 1"
| "cursor_step n (Skip_Back d) c = c - d"
| "cursor_step n Midpoint c = n div 2"
| "cursor_step n (Interpolate p) c = min n (n * p div 100)"

fun move_ok :: "move \<Rightarrow> bool" where
  "move_ok (Interpolate p) = (p \<le> 255)"
| "move_ok _ = True"

lemma perm_elements_ok: "\<forall>i \<in> set is. i < length source \<Longrightarrow> perm_elements source is = Some (map ((!) source) is)"
  by (induction "is") (auto simp: vget_def)

lemma current_ok:
  assumes "iter_ok perm source it" "\<forall>i \<in> set perm. i < length source"
  shows "current it = Some (map ((!) source) (bubble (bi_cursor it) perm))"
proof -
  have "set (bubble (bi_cursor it) perm) = set perm" using mset_eq_setD [OF mset_bubble] .
  then show ?thesis using assms perm_elements_ok [of "bubble (bi_cursor it) perm" source]
    by (simp add: current_def iter_ok_perm) (simp add: iter_ok_def)
qed

lemma move_step_ok:
  assumes it: "iter_ok perm source it" and perm: "\<forall>i \<in> set perm. i < length source"
    and n: "bi_swap_count it * 255 \<le> u64_max" and m: "move_ok m"
  shows "\<exists>it'. move_step m it = Some it' \<and> iter_ok perm source it'
    \<and> bi_cursor it' = cursor_step (bi_swap_count it) m (bi_cursor it)
    \<and> bi_swap_count it' = bi_swap_count it \<and> bi_unused_value_count it' = bi_unused_value_count it"
proof -
  let ?n = "bi_swap_count it"
  have c: "bi_cursor it \<le> ?n" using it by (simp add: iter_ok_def)
  have go: "\<exists>it'. seek k it = Some it' \<and> iter_ok perm source it' \<and> current it' \<noteq> None \<and> bi_cursor it' = min k ?n
      \<and> bi_swap_count it' = ?n \<and> bi_unused_value_count it' = bi_unused_value_count it" for k
    using seek_ok [OF it, of k] current_ok [OF _ perm] by fastforce
  show ?thesis
  proof (cases m)
    case Next
    then show ?thesis using go [of "bi_cursor it + 1"] it c by (auto simp: next_state_def min_def)
  next
    case (Skip d)
    have "min (saturating_add (bi_cursor it) d) ?n = min ?n (bi_cursor it + d)"
      using n by (simp add: saturating_add_def)
    with Skip show ?thesis using go [of "saturating_add (bi_cursor it) d"] by (auto simp: skip_def)
  next
    case Next_Back
    then show ?thesis using go [of "bi_cursor it - 1"] it c by (auto simp: next_back_def min_def)
  next
    case (Skip_Back d)
    then show ?thesis using go [of "bi_cursor it - d"] c by (auto simp: skip_back_def saturating_sub_def min_def)
  next
    case Midpoint
    then show ?thesis using go [of "?n div 2"] by (auto simp: midpoint_def min_def)
  next
    case (Interpolate p)
    have "?n * p \<le> ?n * 255" using m Interpolate by simp
    then have "?n * p \<le> u64_max" using n by (rule le_trans)
    then have "mul_u64 ?n p = Some (?n * p)" by (simp add: mul_u64_def)
    with Interpolate show ?thesis using go [of "?n * p div 100"] by (auto simp: interpolate_def min.commute)
  qed
qed

lemma moves_ok:
  assumes "iter_ok perm source it" "\<forall>i \<in> set perm. i < length source" "bi_swap_count it * 255 \<le> u64_max" "list_all move_ok ms"
  shows "\<exists>it'. for_each move_step ms it = Some it' \<and> iter_ok perm source it'
    \<and> bi_cursor it' = fold (cursor_step (bi_swap_count it)) ms (bi_cursor it)
    \<and> bi_swap_count it' = bi_swap_count it \<and> bi_unused_value_count it' = bi_unused_value_count it"
  using assms
proof (induction ms arbitrary: it)
  case (Cons m ms)
  obtain it1 where 1: "move_step m it = Some it1" "iter_ok perm source it1"
    "bi_cursor it1 = cursor_step (bi_swap_count it) m (bi_cursor it)"
    "bi_swap_count it1 = bi_swap_count it" "bi_unused_value_count it1 = bi_unused_value_count it"
    using move_step_ok [OF Cons.prems(1-3), of m] Cons.prems(4) by auto
  show ?case using Cons.IH [OF 1(2) Cons.prems(2)] Cons.prems(3,4) 1 by auto
qed simp

lemma iterable_ok:
  "\<exists>it. iterable_bubble_sort source target = Some it \<and> iter_ok (pr_perm (generate_permutation source target)) source it
    \<and> bi_cursor it = bi_swap_count it"
  unfolding iterable_bubble_sort_def iterable_bubble_sort_from_perm_def
  using iter_new_ok [OF pr_perm_ok(1) pr_perm_ok(2), of source target] by blast

lemma iter_ok_sorted:
  assumes "iter_ok perm source it"
  shows "bubble (bi_swap_count it) perm = sort perm"
proof -
  obtain pre mid post where sp: "perm = pre @ mid @ post" "distinct mid" "in_place pre mid post" "tables_ok pre mid it"
    using assms by (auto simp: iter_ok_def)
  have "bubble (bi_swap_count it) mid = sort mid"
    using sp(2,4) larger_le_deepest [of _ mid] bubble_sorts [of mid "deepest mid"] by (auto simp: tables_ok_def)
  then have b: "bubble (bi_swap_count it) perm = pre @ sort mid @ post"
    using sp(1,3) bubble_middle by (auto simp: in_place_def)
  have "mset (pre @ sort mid @ post) = mset perm" using mset_bubble [of "bi_swap_count it" perm] unfolding b .
  moreover have "sorted (pre @ sort mid @ post)" using sp(3) by (simp add: in_place_def sorted_append less_imp_le)
  ultimately show ?thesis unfolding b by (rule properties_for_sort [symmetric])
qed

subsection \<open>Properties\<close>

text \<open>
  C27: The matching of two schedules. The \<open>c\<close>-th occurrence of a value in the target is matched with the
  \<open>c\<close>-th index where the source has that value, and with nothing when the source has too few; every
  index of the source is matched exactly once or reported, in ascending order, as unmatched; and the
  unmatched indices of the target are exactly the places without a match.
\<close>

theorem permutation_matches:
  "let r = generate_expanded_permutation source target in
     ex_perm r = map (\<lambda>i. let l = positions 0 source (target ! i); c = length (filter (\<lambda>w. w = target ! i) (take i target))
         in if c < length l then Some (l ! c) else None) [0..<length target]
   \<and> mset (pr_perm (generate_permutation source target)) + mset (ex_unmatched_source r) = mset [0..<length source]
   \<and> sorted (ex_unmatched_source r)
   \<and> ex_unmatched_target r = map fst (filter (\<lambda>e. snd e = None) (enumerate 0 (ex_perm r)))"
  unfolding Let_def [of "generate_expanded_permutation source target"] pr_perm_matched generate_expanded_perm
  by (intro conjI generate_all take_positions_map refl)

text \<open>
  C25: The iterator refines a counter of swaps. After any sequence of \<open>next\<close>, \<open>skip\<close>,
  \<open>next_back\<close>, \<open>skip_back\<close>, \<open>midpoint\<close> and \<open>interpolate\<close>, none of which panics, the state
  shown is the one a bubble sort of the permutation reaches after as many swaps as the counter says.
\<close>

theorem iterator_refines_bubble_sort:
  assumes "bubble_sort_distance source target = Some n" "n * 255 \<le> u64_max" "list_all move_ok ms"
  shows "\<exists>it'. iterable_bubble_sort source target \<bind> for_each move_step ms = Some it'
    \<and> bi_cursor it' = fold (cursor_step n) ms n
    \<and> current it' = Some (map ((!) source) (bubble (fold (cursor_step n) ms n) (pr_perm (generate_permutation source target))))"
proof -
  let ?perm = "pr_perm (generate_permutation source target)"
  obtain it where it: "iterable_bubble_sort source target = Some it" "iter_ok ?perm source it" "bi_cursor it = bi_swap_count it"
    using iterable_ok by blast
  have n: "bi_swap_count it = n" using assms(1) it(1) by (simp add: bubble_sort_distance_def)
  obtain it' where it': "for_each move_step ms it = Some it'" "iter_ok ?perm source it'" "bi_cursor it' = fold (cursor_step n) ms n"
    using moves_ok [OF it(2) pr_perm_ok(2)] assms(2,3) n it(3) by auto
  then show ?thesis using it(1) current_ok [OF it'(2) pr_perm_ok(2)] by simp
qed

theorem iterator_refines_bubble_sort_witness:
  "\<exists>it'. iterable_bubble_sort [7, 5, 7, 6] [6, 7, 5 :: nat] \<bind> for_each move_step [Skip_Back 1, Next, Midpoint] = Some it'
    \<and> bi_cursor it' = 1 \<and> current it' = Some [7, 6, 5]"
proof -
  have perm: "pr_perm (generate_permutation [7, 5, 7, 6] [6, 7, 5 :: nat]) = [3, 0, 1]" by code_simp
  have dist: "bubble_sort_distance [7, 5, 7, 6] [6, 7, 5 :: nat] = Some 2" by code_simp
  have b: "map ((!) [7, 5, 7, 6]) (bubble 1 [3, 0, 1]) = [7, 6, 5 :: nat]" by code_simp
  have f: "fold (cursor_step 2) [Skip_Back 1, Next, Midpoint] 2 = 1" by simp
  show ?thesis
    using iterator_refines_bubble_sort [OF dist, of "[Skip_Back 1, Next, Midpoint]"] unfolding f perm b
    by (simp add: u64_max_def)
qed

text \<open>
  C26: The swap distance is the fewest adjacent swaps that bring the matched elements from the order of
  the target to the order of the source: so many suffice, and no fewer do. The construction never panics.
\<close>

theorem swap_distance_minimal:
  "let perm = pr_perm (generate_permutation source target) in
     \<exists>d. bubble_sort_distance source target = Some d \<and> swaps_to d perm (sort perm)
       \<and> (\<forall>n. swaps_to n perm (sort perm) \<longrightarrow> d \<le> n)"
proof -
  define perm where "perm = pr_perm (generate_permutation source target)"
  obtain it where it: "iterable_bubble_sort source target = Some it" "iter_ok perm source it"
    using iterable_ok unfolding perm_def by blast
  let ?d = "bi_swap_count it"
  have least: "?d \<le> n" if "swaps_to n perm (sort perm)" for n
    using swaps_inversions [OF that] iter_ok_swap_count [OF it(2)] by (simp add: inversions_sorted)
  obtain m where m: "m \<le> ?d" "swaps_to m perm (sort perm)"
    using swaps_bubble [of ?d perm] iter_ok_sorted [OF it(2)] by auto
  then have "m = ?d" using least by (simp add: le_antisym)
  then show ?thesis using m(2) least it(1) unfolding perm_def [symmetric] Let_def
    by (auto simp: bubble_sort_distance_def)
qed

theorem swap_distance_minimal_witness:
  "\<exists>d. bubble_sort_distance ''abca'' ''caab'' = Some d \<and> swaps_to d [2, 0, 3, 1] [0, 1, 2, 3]
    \<and> (\<forall>n. swaps_to n [2, 0, 3, 1] [0, 1, 2, 3] \<longrightarrow> d \<le> n) \<and> d = 3"
proof -
  have "pr_perm (generate_permutation ''abca'' ''caab'') = [2, 0, 3, 1]" "bubble_sort_distance ''abca'' ''caab'' = Some 3"
    by code_simp+
  then show ?thesis using swap_distance_minimal [of "''abca''" "''caab''"] by (simp add: Let_def)
qed

text \<open>
  The ends and the shape of the states. Whatever moves were made, the state is a rearrangement of the
  matched indices, all inside the source, with the cursor within the swap count and the distances
  unchanged. With no swap made it shows the matched elements in the order of the target, and with all
  made in the order of the source.
\<close>

theorem iterator_states_well_formed:
  assumes "iterable_bubble_sort source target = Some it" "bi_swap_count it * 255 \<le> u64_max" "list_all move_ok ms"
    "for_each move_step ms it = Some it'"
  shows "let r = generate_expanded_permutation source target in
      mset (bi_perm it') + mset (ex_unmatched_source r) = mset [0..<length source]
    \<and> bi_cursor it' \<le> bi_swap_count it' \<and> edit_distance it' = edit_distance it
    \<and> (bi_cursor it' = 0 \<longrightarrow> current it' = Some (map snd (filter (\<lambda>e. fst e \<noteq> None) (zip (ex_perm r) target))))
    \<and> (bi_cursor it' = swap_distance it' \<longrightarrow>
         current it' = Some (map ((!) source) (sort (pr_perm (generate_permutation source target)))))"
proof -
  let ?perm = "pr_perm (generate_permutation source target)"
  have it: "iter_ok ?perm source it" using iterable_ok [of source target] assms(1) by auto
  have it': "iter_ok ?perm source it'" "bi_swap_count it' = bi_swap_count it"
    "bi_unused_value_count it' = bi_unused_value_count it"
    using moves_ok [OF it pr_perm_ok(2) assms(2,3)] assms(4) by auto
  note cur = current_ok [OF it'(1) pr_perm_ok(2)]
  let ?r = "generate_expanded_permutation source target"
  have "mset (bi_perm it') + mset (ex_unmatched_source ?r) = mset [0..<length source]"
    unfolding iter_ok_perm [OF it'(1)] mset_bubble pr_perm_matched by (rule generate_all(1))
  moreover have "bi_cursor it' \<le> bi_swap_count it'" using it'(1) by (simp add: iter_ok_def)
  moreover have "edit_distance it' = edit_distance it" using it' by (simp add: edit_distance_def)
  moreover have "current it' = Some (map snd (filter (\<lambda>e. fst e \<noteq> None) (zip (ex_perm ?r) target)))" if "bi_cursor it' = 0"
    using cur that unfolding generate_expanded_perm by (simp only: pr_perm_matched bubble_0 matched_shows)
  moreover have "current it' = Some (map ((!) source) (sort ?perm))" if "bi_cursor it' = swap_distance it'"
    using cur that iter_ok_sorted [OF it'(1)] by (simp add: swap_distance_def)
  ultimately show ?thesis unfolding Let_def by blast
qed

theorem iterator_states_well_formed_witness:
  "\<exists>it it'. iterable_bubble_sort [7, 5, 7, 6] [6, 7, 5 :: nat] = Some it \<and> for_each move_step [Skip_Back 9] it = Some it'
    \<and> edit_distance it' = edit_distance it \<and> current it' = Some [6, 7, 5]"
proof -
  obtain it where it: "iterable_bubble_sort [7, 5, 7, 6] [6, 7, 5 :: nat] = Some it"
    using iterable_ok by blast
  have "bubble_sort_distance [7, 5, 7, 6] [6, 7, 5 :: nat] = Some 2" by code_simp
  then have n: "bi_swap_count it = 2" using it by (simp add: bubble_sort_distance_def)
  have "bi_cursor it = bi_swap_count it" using iterable_ok [of "[7, 5, 7, 6]" "[6, 7, 5 :: nat]"] it by auto
  moreover have ok: "iter_ok (pr_perm (generate_permutation [7, 5, 7, 6] [6, 7, 5 :: nat])) [7, 5, 7, 6] it"
    using iterable_ok [of "[7, 5, 7, 6]" "[6, 7, 5 :: nat]"] it by auto
  ultimately obtain it' where it': "for_each move_step [Skip_Back 9] it = Some it'" "bi_cursor it' = 0"
    using moves_ok [OF ok pr_perm_ok(2), of "[Skip_Back 9]"] n by (auto simp: u64_max_def)
  have m: "map snd (filter (\<lambda>e. fst e \<noteq> None)
      (zip (ex_perm (generate_expanded_permutation [7, 5, 7, 6] [6, 7, 5 :: nat])) [6, 7, 5])) = [6, 7, 5 :: nat]"
    by code_simp
  have u: "bi_swap_count it * 255 \<le> u64_max" "list_all move_ok [Skip_Back 9]" using n by (simp_all add: u64_max_def)
  show ?thesis
    using iterator_states_well_formed [OF it u it'(1)] it it' unfolding Let_def m by blast
qed

end
