(* ===== verification/Pedigree.thy ===== *)
theory Pedigree
  imports Vec "HOL-Library.Word"
begin

text \<open>
  Process pedigrees (detcore-model/src/pedigree.rs): the path of parent and child steps to a thread, its
  compression into a virtual process id, and the input of the hash that seeds a child's random
  numbers (\<open>thread_rng_from_parent_pedigree\<close> in detcore/src/tool_local.rs). A bit vector is a
  \<open>bool list\<close>; \<open>true\<close> is a child step.
\<close>

unbundle bit_operations_syntax

type_synonym byte = "8 word"

subsection \<open>The longest run\<close>

text \<open>The loop's state: index, previous bit, previous count, longest count and its start.\<close>

definition longest_run_step :: "bool \<Rightarrow> nat \<times> bool \<times> nat \<times> nat \<times> nat \<Rightarrow> nat \<times> bool \<times> nat \<times> nat \<times> nat" where
  "longest_run_step b st = (case st of (index, prev_bit, prev_count, max_count, max_start) \<Rightarrow>
     let cnt = (if 0 < index \<and> prev_bit = b then prev_count + 1 else 1) in
     if max_count < cnt then (index + 1, b, cnt, cnt, index + 1 - cnt)
     else (index + 1, b, cnt, max_count, max_start))"

definition longest_run :: "bool list \<Rightarrow> nat \<times> nat" where
  "longest_run sequence = (case fold longest_run_step sequence (0, False, 1, 0, 0) of
     (_, _, _, max_count, max_start) \<Rightarrow> (max_start, max_count))"

subsection \<open>Pedigrees\<close>

record pedigree =
  pedigree_bits :: "bool list"

definition pedigree_new :: pedigree where
  "pedigree_new = \<lparr>pedigree_bits = [False]\<rparr>"

text \<open>Returns the child; the pedigree itself becomes the parent's.\<close>

definition fork_mut :: "pedigree \<Rightarrow> pedigree \<times> pedigree" where
  "fork_mut p = (p\<lparr>pedigree_bits := pedigree_bits p @ [False]\<rparr>, \<lparr>pedigree_bits = pedigree_bits p @ [True]\<rparr>)"

definition fork :: "pedigree \<Rightarrow> pedigree \<times> pedigree" where
  "fork p = (let parent = p; (parent, child) = fork_mut parent in (parent, child))"

definition raw :: "pedigree \<Rightarrow> bool list" where
  "raw p = pedigree_bits p"

subsection \<open>The virtual process id\<close>

definition MSB_ZERO_BITS :: nat where "MSB_ZERO_BITS = 1"
definition TREE_BITS :: nat where "TREE_BITS = 16"
definition RUN_INDEX_BITS :: nat where "RUN_INDEX_BITS = 4"
definition RUN_TYPE_BITS :: nat where "RUN_TYPE_BITS = 1"
definition RUN_LENGTH_BITS :: nat where "RUN_LENGTH_BITS = 10"

datatype io_error = Pedigree_too_large

function trim_parents :: "bool list \<Rightarrow> bool list" where
  "trim_parents sequence =
     (if 1 < length sequence \<and> \<not> last sequence then trim_parents (butlast sequence) else sequence)"
  by pat_completeness auto
termination by (relation "measure length") auto

declare trim_parents.simps [simp del]

text \<open>The 32 bits of an element, most significant first, and the number that 32 such bits are.\<close>

definition u32_bits :: "nat \<Rightarrow> bool list" where
  "u32_bits n = map (bit n) (rev [0..<32])"

definition bits_value :: "bool list \<Rightarrow> nat" where
  "bits_value bs = foldl (\<lambda>v b. 2 * v + of_bool b) 0 bs"

definition as_pid :: "bool list \<Rightarrow> int" where
  "as_pid bs = sint (of_nat (bits_value bs) :: 32 word)"

definition pid_try_from :: "pedigree \<Rightarrow> (io_error + int) option" where
  "pid_try_from p = do {
     assert_that (MSB_ZERO_BITS + TREE_BITS + RUN_INDEX_BITS + RUN_TYPE_BITS + RUN_LENGTH_BITS = 4 * 8);
     let sequence = trim_parents (raw p);
     let (index, len) = longest_run sequence;
     if 2 ^ RUN_INDEX_BITS \<le> index \<or> 2 ^ RUN_LENGTH_BITS \<le> len \<or> TREE_BITS < length sequence - len
     then Some (Inl Pedigree_too_large)
     else do {
       let lower_tree = drop (index + len) sequence;
       let run = take len (drop index sequence);
       let tree = take index sequence @ lower_tree;
       pad \<leftarrow> sub_u64 TREE_BITS (length tree);
       let tree_bits = replicate pad False @ tree;
       assert_that (length tree_bits = TREE_BITS);
       let run_index_bits = drop (32 - RUN_INDEX_BITS) (u32_bits index);
       assert_that (length run_index_bits = RUN_INDEX_BITS);
       run_type \<leftarrow> vget run 0;
       let run_length_bits = drop (32 - RUN_LENGTH_BITS) (u32_bits len);
       assert_that (length run_length_bits = RUN_LENGTH_BITS);
       let vpid_bits = [False] @ tree_bits @ run_index_bits @ [run_type] @ run_length_bits;
       assert_that (length vpid_bits = 4 * 8);
       Some (Inr (as_pid vpid_bits))
     }
   }"

definition display_pedigree :: "pedigree \<Rightarrow> string option" where
  "display_pedigree p = do {
     assert_that (0 < length (pedigree_bits p));
     assert_that (\<not> pedigree_bits p ! 0);
     Some (map (\<lambda>b. if b then CHR ''C'' else CHR ''P'') (tl (pedigree_bits p)))
   }"

subsection \<open>Seeding a child's random numbers\<close>

datatype child_rng_stream = User | Chaos

definition ascii :: "string \<Rightarrow> byte list" where
  "ascii s = map of_char s"

fun stream_domain :: "child_rng_stream \<Rightarrow> byte list" where
  "stream_domain User = ascii ''user''"
| "stream_domain Chaos = ascii ''chaos''"

definition pack_step :: "nat \<times> bool \<Rightarrow> byte list \<times> byte \<Rightarrow> byte list \<times> byte" where
  "pack_step e st = (case (e, st) of ((index, b), (packed, byte)) \<Rightarrow>
     let byte = (if b then byte OR push_bit (index mod 8) 1 else byte) in
     if index mod 8 = 7 then (packed @ [byte], 0) else (packed, byte))"

definition pack_bits :: "bool list \<Rightarrow> byte list" where
  "pack_bits bits = (case fold pack_step (enumerate 0 bits) ([], 0) of (packed, byte) \<Rightarrow>
     if length bits mod 8 \<noteq> 0 then packed @ [byte] else packed)"

fun to_le_bytes :: "nat \<Rightarrow> nat \<Rightarrow> byte list" where
  "to_le_bytes 0 v = []"
| "to_le_bytes (Suc n) v = of_nat (v mod 256) # to_le_bytes n (v div 256)"

definition child_rng_input :: "child_rng_stream \<Rightarrow> bool list \<Rightarrow> byte list" where
  "child_rng_input stream bits =
     ascii ''hermit-child-rng-pedigree-v1'' @ [0] @ stream_domain stream @ [0]
     @ to_le_bytes 8 (length bits mod 2 ^ 64) @ pack_bits bits"

text \<open>
  The hash and the generator are parameters: \<open>fill_bytes\<close> are the bytes a copy of the parent yields,
  \<open>next_rng\<close> is the state after one draw.
\<close>

definition thread_rng_from_parent_pedigree ::
  "(byte list \<Rightarrow> byte list) \<Rightarrow> ('g \<Rightarrow> nat \<Rightarrow> byte list) \<Rightarrow> (byte list \<Rightarrow> 'g) \<Rightarrow> ('g \<Rightarrow> 'g)
   \<Rightarrow> 'g \<Rightarrow> pedigree \<Rightarrow> child_rng_stream \<Rightarrow> 'g" where
  "thread_rng_from_parent_pedigree sha256 fill_bytes from_seed next_rng parent child stream =
     (let digest = sha256 (child_rng_input stream (raw child));
          seed = fill_bytes parent 16;
          mixed = map (\<lambda>(s, d). s XOR d) (zip seed digest) @ drop (length digest) seed
      in (next_rng ^^ 4) (from_seed mixed))"

subsection \<open>The longest run is the first of the longest\<close>

definition run_at :: "bool list \<Rightarrow> nat \<Rightarrow> nat \<Rightarrow> bool" where
  "run_at xs s l \<longleftrightarrow> s + l \<le> length xs \<and> (\<forall>i < l. xs ! (s + i) = xs ! s)"

definition first_longest :: "bool list \<Rightarrow> nat \<Rightarrow> nat \<Rightarrow> bool" where
  "first_longest xs s l \<longleftrightarrow> run_at xs s l \<and> (\<forall>s' l'. run_at xs s' l' \<longrightarrow> l' \<le> l \<and> (l' = l \<longrightarrow> s \<le> s'))"

lemma run_at_append: "s + l \<le> length xs \<Longrightarrow> run_at (xs @ ys) s l \<longleftrightarrow> run_at xs s l"
proof -
  assume "s + l \<le> length xs"
  then have "(xs @ ys) ! (s + i) = xs ! (s + i)" if "i < l" for i using that by (simp add: nth_append)
  moreover have "(xs @ ys) ! s = xs ! s" if "0 < l" using \<open>s + l \<le> length xs\<close> that by (simp add: nth_append)
  ultimately show ?thesis using \<open>s + l \<le> length xs\<close> by (cases "l = 0") (auto simp: run_at_def)
qed

lemma run_at_end: "run_at (xs @ [b]) s (Suc l) \<Longrightarrow> s + l = length xs \<Longrightarrow> run_at xs s l \<and> (0 < l \<longrightarrow> xs ! s = b)"
proof -
  assume run: "run_at (xs @ [b]) s (Suc l)" and len: "s + l = length xs"
  then have "run_at (xs @ [b]) s l" by (auto simp: run_at_def)
  then have "run_at xs s l" using run_at_append [of s l xs "[b]"] len by simp
  moreover have "xs ! s = b" if "0 < l"
  proof -
    have "(xs @ [b]) ! (s + l) = (xs @ [b]) ! s" using run by (simp add: run_at_def)
    then show ?thesis using len that by (simp add: nth_append)
  qed
  ultimately show ?thesis by blast
qed

lemma run_at_extend: "run_at xs s l \<Longrightarrow> s + l = length xs \<Longrightarrow> (0 < l \<longrightarrow> xs ! s = b) \<Longrightarrow> run_at (xs @ [b]) s (Suc l)"
  by (auto simp: run_at_def nth_append less_Suc_eq)

text \<open>The state after a sequence: its last bit, its trailing run and its first longest run.\<close>

definition run_state :: "bool list \<Rightarrow> nat \<times> bool \<times> nat \<times> nat \<times> nat \<Rightarrow> bool" where
  "run_state xs st \<longleftrightarrow> (case st of (index, prev_bit, prev_count, max_count, max_start) \<Rightarrow>
     index = length xs \<and> first_longest xs max_start max_count
     \<and> (xs \<noteq> [] \<longrightarrow> 0 < prev_count \<and> prev_count \<le> length xs \<and> xs ! (length xs - prev_count) = prev_bit
          \<and> run_at xs (length xs - prev_count) prev_count
          \<and> (\<forall>s l. run_at xs s l \<longrightarrow> s + l = length xs \<longrightarrow> l \<le> prev_count)))"

lemma run_step_bound:
  assumes st: "run_state xs (index, prev_bit, prev_count, max_count, max_start)"
    and run: "run_at (xs @ [b]) s l" "s + l = Suc (length xs)"
  shows "l \<le> (if 0 < index \<and> prev_bit = b then prev_count + 1 else 1)"
proof (cases l)
  case (Suc l')
  then have sub: "run_at xs s l'" "0 < l' \<longrightarrow> xs ! s = b" using run run_at_end [of xs b s l'] by auto
  show ?thesis
  proof (cases "l' = 0")
    case False
    then have ne: "xs \<noteq> []" using run Suc sub(1) by (auto simp: run_at_def)
    then have le: "l' \<le> prev_count" and at: "xs ! (length xs - prev_count) = prev_bit"
      and pr: "run_at xs (length xs - prev_count) prev_count" "prev_count \<le> length xs"
      using st sub(1) run(2) Suc by (auto simp: run_state_def)
    have "xs ! s = prev_bit"
    proof -
      have "s = length xs - prev_count + (prev_count - l')" "prev_count - l' < prev_count" using run(2) Suc le pr(2) False by auto
      then show ?thesis using pr(1) at unfolding run_at_def by metis
    qed
    then show ?thesis using False sub(2) le ne st Suc by (auto simp: run_state_def)
  qed (simp add: Suc)
qed simp

lemma run_step_count:
  assumes st: "run_state xs (index, prev_bit, prev_count, max_count, max_start)"
    and cnt: "cnt = (if 0 < index \<and> prev_bit = b then prev_count + 1 else 1)"
  shows "0 < cnt" "cnt \<le> Suc (length xs)" "run_at (xs @ [b]) (Suc (length xs) - cnt) cnt"
    "(xs @ [b]) ! (Suc (length xs) - cnt) = b"
proof -
  have i: "index = length xs" using st by (simp add: run_state_def)
  show "0 < cnt" using cnt by simp
  show le: "cnt \<le> Suc (length xs)" using cnt st i by (auto simp: run_state_def)
  show run: "run_at (xs @ [b]) (Suc (length xs) - cnt) cnt"
  proof (cases "0 < index \<and> prev_bit = b")
    case True
    then show ?thesis using st i cnt by (auto simp: run_state_def intro: run_at_extend)
  next
    case False
    then have "cnt = 1" using cnt by metis
    then show ?thesis by (simp add: run_at_def)
  qed
  show "(xs @ [b]) ! (Suc (length xs) - cnt) = b"
  proof -
    have "(xs @ [b]) ! (Suc (length xs) - cnt + (cnt - 1)) = (xs @ [b]) ! (Suc (length xs) - cnt)"
      using run \<open>0 < cnt\<close> unfolding run_at_def by (metis diff_less less_numeral_extra(1))
    moreover have "Suc (length xs) - cnt + (cnt - 1) = length xs" using le \<open>0 < cnt\<close> by simp
    ultimately show ?thesis by simp
  qed
qed

lemma run_step:
  assumes st: "run_state xs st"
  shows "run_state (xs @ [b]) (longest_run_step b st)"
proof -
  obtain index prev_bit prev_count max_count max_start where
    s: "st = (index, prev_bit, prev_count, max_count, max_start)" by (metis prod_cases5)
  define cnt where "cnt = (if 0 < index \<and> prev_bit = b then prev_count + 1 else 1)"
  note c = run_step_count [OF st [unfolded s] cnt_def]
  have bound: "l \<le> cnt" if "run_at (xs @ [b]) s' l" "s' + l = Suc (length xs)" for s' l
    using run_step_bound [OF st [unfolded s] that] by (simp add: cnt_def)
  have i: "index = length xs" and fl: "first_longest xs max_start max_count" using st s by (auto simp: run_state_def)
  have old: "l \<le> max_count \<and> (l = max_count \<longrightarrow> max_start \<le> s')" if "run_at (xs @ [b]) s' l" "s' + l \<le> length xs" for s' l
    using fl that run_at_append by (auto simp: first_longest_def)
  have any: "s' + l \<le> length xs \<or> s' + l = Suc (length xs)" if "run_at (xs @ [b]) s' l" for s' l
    using that by (auto simp: run_at_def)
  have fl': "first_longest (xs @ [b]) (if max_count < cnt then Suc (length xs) - cnt else max_start) (max cnt max_count)"
  proof (cases "max_count < cnt")
    case True
    have "l \<le> cnt \<and> (l = cnt \<longrightarrow> Suc (length xs) - cnt \<le> s')" if "run_at (xs @ [b]) s' l" for s' l
      using any [OF that] old [OF that] bound [OF that] True by auto
    then show ?thesis using True c(3) by (simp add: first_longest_def max_def)
  next
    case False
    have "run_at xs max_start max_count" using fl by (simp add: first_longest_def)
    then have "run_at (xs @ [b]) max_start max_count" "max_start + max_count \<le> length xs"
      using run_at_append [of max_start max_count xs "[b]"] by (auto simp: run_at_def)
    moreover have "l \<le> max_count \<and> (l = max_count \<longrightarrow> max_start \<le> s')" if "run_at (xs @ [b]) s' l" for s' l
      using any [OF that] old [OF that] bound [OF that] False calculation(2) by auto
    ultimately show ?thesis using False by (simp add: first_longest_def max_def)
  qed
  have "longest_run_step b st = (Suc (length xs), b, cnt, max cnt max_count, if max_count < cnt then Suc (length xs) - cnt else max_start)"
    by (auto simp: longest_run_step_def s i cnt_def Let_def max_def)
  then show ?thesis using fl' c bound by (simp add: run_state_def)
qed

lemma longest_run_first_longest:
  assumes "longest_run xs = (s, l)"
  shows "first_longest xs s l" "xs \<noteq> [] \<Longrightarrow> 0 < l"
proof -
  have "run_state xs (fold longest_run_step xs (0, False, 1, 0, 0))"
  proof (induction xs rule: rev_induct)
    case Nil
    show ?case by (simp add: run_state_def first_longest_def run_at_def)
  next
    case (snoc x xs)
    then show ?case using run_step by simp
  qed
  then show fl: "first_longest xs s l" using assms by (auto simp: longest_run_def run_state_def split: prod.splits)
  assume "xs \<noteq> []"
  then have "run_at xs 0 1" by (cases xs) (auto simp: run_at_def)
  then show "0 < l" using fl unfolding first_longest_def by (metis less_le_trans zero_less_one)
qed

subsection \<open>The layout of the virtual process id\<close>

lemma foldl_bits: "foldl (\<lambda>v b. 2 * v + of_bool b) a bs = a * 2 ^ length bs + bits_value bs" for a :: nat
proof (induction bs arbitrary: a)
  case (Cons b bs)
  show ?case using Cons [of "2 * a + of_bool b"] Cons [of "of_bool b"] by (simp add: bits_value_def algebra_simps)
qed (simp add: bits_value_def)

lemma bits_value_append: "bits_value (xs @ ys) = bits_value xs * 2 ^ length ys + bits_value ys"
  using foldl_bits [of "bits_value xs" ys] by (simp add: bits_value_def)

lemma bits_value_Cons: "bits_value (b # bs) = of_bool b * 2 ^ length bs + bits_value bs"
  using bits_value_append [of "[b]" bs] by (simp add: bits_value_def)

lemma bits_value_less: "bits_value bs < 2 ^ length bs"
  by (induction bs) (auto simp: bits_value_Cons, simp add: bits_value_def)

lemma bits_value_pad: "bits_value (replicate n False @ bs) = bits_value bs"
  by (induction n) (auto simp: bits_value_Cons)

lemma bits_value_low: "bits_value (map (bit n) (rev [0..<k])) = n mod 2 ^ k"
proof (induction k)
  case (Suc k)
  have "n mod 2 ^ Suc k = 2 ^ k * of_bool (bit n k) + n mod 2 ^ k"
    using take_bit_Suc_from_most [of k n] by (simp add: take_bit_eq_mod)
  with Suc show ?case by (simp add: bits_value_Cons)
qed (simp add: bits_value_def)

lemma u32_low: "k \<le> 32 \<Longrightarrow> drop (32 - k) (u32_bits n) = map (bit n) (rev [0..<k])"
  by (simp add: u32_bits_def drop_map drop_rev)

text \<open>The pedigree reached from the root by a path of parent (\<open>False\<close>) and child (\<open>True\<close>) steps.\<close>

definition descendant :: "bool list \<Rightarrow> pedigree" where
  "descendant path = foldl (\<lambda>p c. if c then snd (fork p) else fst (fork p)) pedigree_new path"

lemma raw_descendant: "raw (descendant path) = False # path"
  by (induction path rule: rev_induct) (auto simp: descendant_def fork_def fork_mut_def raw_def pedigree_new_def)

lemma trim_parent_step: "xs \<noteq> [] \<Longrightarrow> trim_parents (xs @ [False]) = trim_parents xs"
  by (subst trim_parents.simps) simp

lemma trim_nonempty: "xs \<noteq> [] \<Longrightarrow> trim_parents xs \<noteq> []"
proof (induction xs rule: trim_parents.induct)
  case (1 xs)
  show ?case
  proof (cases "1 < length xs \<and> \<not> last xs")
    case True
    then have "butlast xs \<noteq> []" by (metis length_0_conv length_butlast less_irrefl zero_less_diff)
    then show ?thesis using 1(1) [OF True] True by (subst trim_parents.simps) simp
  next
    case False
    then show ?thesis using 1(2) by (subst trim_parents.simps) auto
  qed
qed

definition pid_fits :: "bool list \<Rightarrow> nat \<Rightarrow> nat \<Rightarrow> bool" where
  "pid_fits sequence index len \<longleftrightarrow> index < 16 \<and> len < 1024 \<and> length sequence - len \<le> 16"

definition pid_layout :: "bool list \<Rightarrow> nat \<Rightarrow> nat \<Rightarrow> nat" where
  "pid_layout sequence index len =
     bits_value (take index sequence @ drop (index + len) sequence) * 2 ^ 15 + index * 2 ^ 11
     + of_bool (sequence ! index) * 2 ^ 10 + len"

lemma pid_bits_value:
  assumes tree: "length tree \<le> 16" and i: "index < 16" and l: "len < 1024"
  shows "bits_value ([False] @ (replicate (16 - length tree) False @ tree) @ map (bit index) (rev [0..<4]) @ [t]
      @ map (bit len) (rev [0..<10])) = bits_value tree * 2 ^ 15 + index * 2 ^ 11 + of_bool t * 2 ^ 10 + len"
proof -
  have "bits_value (replicate (16 - length tree) False @ tree) = bits_value tree" by (rule bits_value_pad)
  moreover have "bits_value (map (bit index) (rev [0..<4])) = index" "bits_value (map (bit len) (rev [0..<10])) = len"
    using i l bits_value_low [of index 4] bits_value_low [of len 10] by auto
  moreover have "bits_value [t] = of_bool t" by (simp add: bits_value_def)
  ultimately show ?thesis
    by (simp only: bits_value_append append_Cons append_Nil bits_value_Cons) (simp add: algebra_simps)
qed

lemma as_pid_small: "length bs = 31 \<Longrightarrow> as_pid (False # bs) = int (bits_value (False # bs))"
proof -
  assume "length bs = 31"
  then have v: "bits_value (False # bs) < 2 ^ 31" using bits_value_less [of bs] by (simp add: bits_value_Cons)
  have "uint (of_nat (bits_value (False # bs)) :: 32 word) = int (bits_value (False # bs))"
    using v by (simp add: uint_nat unat_of_nat)
  then have "sint (of_nat (bits_value (False # bs)) :: 32 word) = signed_take_bit 31 (int (bits_value (False # bs)))"
    by (simp add: sint_uint)
  also have "\<dots> = int (bits_value (False # bs))" using v by (intro signed_take_bit_int_eq_self) auto
  finally show ?thesis by (simp add: as_pid_def)
qed

lemma pid_bound:
  assumes "pid_fits sequence index len" "first_longest sequence index len" "0 < len"
  shows "0 < pid_layout sequence index len" "pid_layout sequence index len < 2 ^ 31"
    "length (take index sequence @ drop (index + len) sequence) = length sequence - len"
    "length sequence - len \<le> 16"
proof -
  let ?tree = "take index sequence @ drop (index + len) sequence"
  have le: "index + len \<le> length sequence" using assms(2) by (simp add: first_longest_def run_at_def)
  then show len: "length ?tree = length sequence - len" by simp
  show le16: "length sequence - len \<le> 16" using assms(1) by (simp add: pid_fits_def)
  have "bits_value ?tree < 2 ^ 16"
    using bits_value_less [of ?tree] len le16 power_increasing [of "length ?tree" 16 "2 :: nat"] by simp
  moreover have "index * 2 ^ 11 \<le> 15 * 2 ^ 11" "of_bool (sequence ! index) * 2 ^ 10 \<le> (2 ^ 10 :: nat)" "len < 2 ^ 10"
    using assms(1) by (auto simp: pid_fits_def)
  ultimately show "pid_layout sequence index len < 2 ^ 31" unfolding pid_layout_def by (cases "sequence ! index") auto
  show "0 < pid_layout sequence index len" using assms(3) by (simp add: pid_layout_def)
qed

lemma pid_try_from_layout:
  assumes p: "raw p \<noteq> []" and seq: "sequence = trim_parents (raw p)" and run: "longest_run sequence = (index, len)"
  shows "pid_try_from p = Some (if pid_fits sequence index len then Inr (int (pid_layout sequence index len))
    else Inl Pedigree_too_large)"
proof -
  have ne: "sequence \<noteq> []" using trim_nonempty [OF p] seq by simp
  note fl = longest_run_first_longest [OF run]
  have l0: "0 < len" using fl(2) ne by simp
  have le: "index + len \<le> length sequence" using fl(1) by (simp add: first_longest_def run_at_def)
  show ?thesis
  proof (cases "pid_fits sequence index len")
    case True
    note b = pid_bound [OF True fl(1) l0]
    define tree where "tree = take index sequence @ drop (index + len) sequence"
    have tree: "length tree \<le> 16" using b(3,4) by (simp add: tree_def)
    have len: "min (length sequence) index + (length sequence - (index + len)) = length tree" by (simp add: tree_def)
    have small: "index < 16" "len < 1024" using True by (auto simp: pid_fits_def)
    have nth: "vget (take len (drop index sequence)) 0 = Some (sequence ! index)"
      using le l0 by (simp add: vget_def)
    have pid: "as_pid ([False] @ (replicate (16 - length tree) False @ tree) @ map (bit index) (rev [0..<4])
        @ [sequence ! index] @ map (bit len) (rev [0..<10])) = int (pid_layout sequence index len)"
      using tree pid_bits_value [OF tree small, of "sequence ! index"]
      by (simp add: as_pid_small pid_layout_def tree_def [symmetric])
    have "\<not> (2 ^ RUN_INDEX_BITS \<le> index \<or> 2 ^ RUN_LENGTH_BITS \<le> len \<or> TREE_BITS < length sequence - len)"
      using True by (simp add: pid_fits_def RUN_INDEX_BITS_def RUN_LENGTH_BITS_def TREE_BITS_def)
    then show ?thesis
      using True tree len nth pid u32_low [of 4 index] u32_low [of 10 len]
      by (simp add: pid_try_from_def seq [symmetric] run Let_def sub_u64_def MSB_ZERO_BITS_def TREE_BITS_def
          RUN_INDEX_BITS_def RUN_TYPE_BITS_def RUN_LENGTH_BITS_def tree_def [symmetric])
  next
    case False
    then show ?thesis
      by (auto simp: pid_try_from_def pid_fits_def seq [symmetric] run Let_def MSB_ZERO_BITS_def TREE_BITS_def
          RUN_INDEX_BITS_def RUN_TYPE_BITS_def RUN_LENGTH_BITS_def)
  qed
qed

subsection \<open>The input of the hash determines the stream and the path\<close>

text \<open>The bytes packed so far and the byte in progress hold the bits read.\<close>

definition packed_ok :: "bool list \<Rightarrow> byte list \<times> byte \<Rightarrow> bool" where
  "packed_ok xs st \<longleftrightarrow> (case st of (packed, byte) \<Rightarrow> length packed = length xs div 8
     \<and> (\<forall>i < length xs. bit (if i div 8 < length xs div 8 then packed ! (i div 8) else byte) (i mod 8) = xs ! i)
     \<and> (\<forall>j \<ge> length xs mod 8. \<not> bit byte j))"

lemma same_byte: "i div 8 = k div 8 \<Longrightarrow> i mod 8 = k mod 8 \<Longrightarrow> i = (k :: nat)"
  by (metis div_mult_mod_eq)

lemma bit_set_byte: "bit (byte OR push_bit m 1 :: byte) j \<longleftrightarrow> bit byte j \<or> (m < 8 \<and> j = m)"
  by (auto simp: bit_or_iff bit_exp_iff possible_bit_def)

lemma packed_step:
  assumes ok: "packed_ok xs (packed, byte)"
  shows "packed_ok (xs @ [b]) (pack_step (length xs, b) (packed, byte))"
proof -
  let ?k = "length xs"
  define byte' where "byte' = (if b then byte OR push_bit (?k mod 8) 1 else byte)"
  have bit: "bit byte' j \<longleftrightarrow> bit byte j \<or> (b \<and> j = ?k mod 8)" for j
    using bit_set_byte [of byte "?k mod 8" j] by (cases b) (simp_all add: byte'_def)
  have packed: "length packed = ?k div 8" and rest: "\<not> bit byte j" if "?k mod 8 \<le> j" for j
    using ok that by (auto simp: packed_ok_def)
  have old: "bit (if i div 8 < ?k div 8 then packed ! (i div 8) else byte) (i mod 8) = xs ! i" if "i < ?k" for i
    using ok that by (auto simp: packed_ok_def)
  have new: "bit (if i div 8 < ?k div 8 then packed ! (i div 8) else byte') (i mod 8) = (xs @ [b]) ! i" if "i < Suc ?k" for i
  proof (cases "i < ?k")
    case True
    show ?thesis
    proof (cases "i div 8 < ?k div 8")
      case False
      then have "i div 8 = ?k div 8" using True div_le_mono [of i ?k 8] by simp
      then have "i mod 8 \<noteq> ?k mod 8" using True same_byte by blast
      then show ?thesis using old [OF True] False True bit by (simp add: nth_append)
    qed (use old [OF True] True in \<open>simp add: nth_append\<close>)
  next
    case False
    then have "i = ?k" using that by simp
    then show ?thesis using bit rest by (simp add: nth_append)
  qed
  show ?thesis
  proof (cases "?k mod 8 = 7")
    case True
    then have div: "Suc ?k div 8 = Suc (?k div 8)" "Suc ?k mod 8 = 0" by (simp_all add: div_Suc mod_Suc)
    have pk: "length packed = ?k div 8" using ok by (simp add: packed_ok_def)
    have "(packed @ [byte']) ! (i div 8) = (if i div 8 < ?k div 8 then packed ! (i div 8) else byte')" if "i < Suc ?k" for i
    proof -
      have "i div 8 \<le> ?k div 8" using that by (simp add: div_le_mono)
      then show ?thesis using pk by (auto simp: nth_append)
    qed
    moreover have "i div 8 < Suc (?k div 8)" if "i < Suc ?k" for i using that div_le_mono [of i ?k 8] by simp
    ultimately show ?thesis using new pk div True
      by (simp add: packed_ok_def pack_step_def byte'_def [symmetric] Let_def)
  next
    case False
    then have div: "Suc ?k div 8 = ?k div 8" "Suc ?k mod 8 = Suc (?k mod 8)" by (simp_all add: div_Suc mod_Suc)
    have pk: "length packed = ?k div 8" using ok by (simp add: packed_ok_def)
    have "\<not> bit byte' j" if "Suc (?k mod 8) \<le> j" for j using that rest [of j] bit by simp
    then show ?thesis using new pk div False
      by (simp add: packed_ok_def pack_step_def byte'_def [symmetric] Let_def)
  qed
qed

lemma packed_fold: "packed_ok bits (fold pack_step (enumerate 0 bits) ([], 0))"
proof (induction bits rule: rev_induct)
  case Nil
  show ?case by (simp add: packed_ok_def)
next
  case (snoc b bits)
  obtain packed byte where st: "fold pack_step (enumerate 0 bits) ([], 0) = (packed, byte)" by fastforce
  then show ?case using packed_step [OF snoc.IH [unfolded st], of b] by (simp add: enumerate_append_eq)
qed

lemma pack_bits_bit: "i < length bits \<Longrightarrow> bit (pack_bits bits ! (i div 8)) (i mod 8) = bits ! i"
proof -
  assume i: "i < length bits"
  obtain packed byte where st: "fold pack_step (enumerate 0 bits) ([], 0) = (packed, byte)" by fastforce
  note ok = packed_fold [of bits, unfolded st packed_ok_def prod.case]
  have bit: "bit (if i div 8 < length bits div 8 then packed ! (i div 8) else byte) (i mod 8) = bits ! i" using ok i by blast
  have len: "length packed = length bits div 8" using ok by blast
  have "pack_bits bits ! (i div 8) = (if i div 8 < length bits div 8 then packed ! (i div 8) else byte)"
  proof (cases "i div 8 < length bits div 8")
    case True
    then show ?thesis using len st by (simp add: pack_bits_def nth_append)
  next
    case False
    then have d: "i div 8 = length bits div 8" using i div_le_mono [of i "length bits" 8] by simp
    then have "length bits mod 8 \<noteq> 0" using i same_byte [of i "length bits"]
      by (metis div_mult_mod_eq add_0_right div_times_less_eq_dividend leD)
    then show ?thesis using d len st by (simp add: pack_bits_def nth_append)
  qed
  then show ?thesis using bit by simp
qed

lemma pack_bits_inj: "length xs = length ys \<Longrightarrow> pack_bits xs = pack_bits ys \<Longrightarrow> xs = ys"
  by (rule nth_equalityI) (auto simp: pack_bits_bit [symmetric])

lemma length_to_le_bytes [simp]: "length (to_le_bytes n v) = n"
  by (induction n arbitrary: v) auto

lemma to_le_bytes_inj: "v < 256 ^ n \<Longrightarrow> w < 256 ^ n \<Longrightarrow> to_le_bytes n v = to_le_bytes n w \<Longrightarrow> v = w"
proof (induction n arbitrary: v w)
  case (Suc n)
  have mod: "unat (of_nat (x mod 256) :: byte) = x mod 256" for x :: nat
    by (simp add: unat_of_nat)
  have "unat (of_nat (v mod 256) :: byte) = unat (of_nat (w mod 256) :: byte)" using Suc.prems(3) by simp
  then have "v mod 256 = w mod 256" unfolding mod .
  moreover have "v div 256 = w div 256"
    using Suc.prems by (intro Suc.IH) (auto simp: less_mult_imp_div_less mult.commute)
  ultimately show ?case by (metis div_mult_mod_eq)
qed simp

lemma stream_split: "stream_domain s @ [0] @ xs = stream_domain t @ [0] @ ys \<Longrightarrow> s = t \<and> xs = ys"
  by (cases s; cases t) (auto simp: ascii_def)

subsection \<open>Properties\<close>

text \<open>
  C30: The virtual process id of a thread. For every path from the root the conversion never panics; it
  fails exactly when the first longest run starts at or past 16, has 1024 bits or leaves more than 16
  others, and otherwise packs the other bits, the run's start, its bit and its length into a positive
  31-bit number. A fork leaves the id of the forking thread as it was.
\<close>

theorem pedigree_pid_layout:
  "let sequence = trim_parents (raw (descendant path)); (index, len) = longest_run sequence in
     first_longest sequence index len
     \<and> pid_try_from (descendant path) = Some (if pid_fits sequence index len
          then Inr (int (pid_layout sequence index len)) else Inl Pedigree_too_large)
     \<and> (pid_fits sequence index len \<longrightarrow> 0 < pid_layout sequence index len \<and> pid_layout sequence index len < 2 ^ 31)
     \<and> pid_try_from (fst (fork (descendant path))) = pid_try_from (descendant path)"
proof -
  let ?seq = "trim_parents (raw (descendant path))"
  obtain index len where run: "longest_run ?seq = (index, len)" by fastforce
  have ne: "raw (descendant path) \<noteq> []" "?seq \<noteq> []" using trim_nonempty by (auto simp: raw_descendant)
  note fl = longest_run_first_longest [OF run]
  have parent: "raw (fst (fork (descendant path))) = raw (descendant path) @ [False]"
    by (simp add: fork_def fork_mut_def raw_def Let_def)
  have "?seq = trim_parents (raw (fst (fork (descendant path))))" unfolding parent using trim_parent_step [OF ne(1)] by simp
  then have "pid_try_from (fst (fork (descendant path))) = pid_try_from (descendant path)"
    using pid_try_from_layout [OF ne(1) refl run] pid_try_from_layout [OF _ _ run, of "fst (fork (descendant path))"] parent
    by simp
  then show ?thesis
    using pid_try_from_layout [OF ne(1) refl run] fl pid_bound(1,2) [OF _ fl(1)] ne(2) by (simp add: run Let_def)
qed

theorem pedigree_pid_layout_witness:
  "pid_try_from (descendant [False, True]) = Some (Inr 32770)
   \<and> pid_try_from (fst (fork (descendant [False, True]))) = Some (Inr 32770)"
proof -
  have "trim_parents (raw (descendant [False, True])) = [False, False, True]" "longest_run [False, False, True] = (0, 2)"
    "pid_fits [False, False, True] 0 2" "pid_layout [False, False, True] 0 2 = 32770"
    by code_simp+
  then show ?thesis using pedigree_pid_layout [of "[False, True]"] by (simp add: Let_def)
qed

text \<open>
  C31: Two children are seeded alike only when they are the same. The bytes hashed for the random numbers of
  a child determine the stream and the whole pedigree, of any depth below \<open>2^64\<close>: no two pedigrees
  share an input, and the two streams of one pedigree never do.
\<close>

theorem child_rng_input_injective:
  assumes "child_rng_input s (raw (descendant p)) = child_rng_input t (raw (descendant q))"
    and "length p + 1 < 2 ^ 64" "length q + 1 < 2 ^ 64"
  shows "s = t \<and> p = q"
proof -
  let ?le = "\<lambda>p. to_le_bytes 8 (length (raw (descendant p)) mod 2 ^ 64)"
  have "stream_domain s @ [0] @ ?le p @ pack_bits (raw (descendant p)) = stream_domain t @ [0] @ ?le q @ pack_bits (raw (descendant q))"
    using assms(1) by (simp add: child_rng_input_def)
  then have st: "s = t" and rest: "?le p @ pack_bits (raw (descendant p)) = ?le q @ pack_bits (raw (descendant q))"
    using stream_split by blast+
  then have le: "?le p = ?le q" and pack: "pack_bits (raw (descendant p)) = pack_bits (raw (descendant q))" by auto
  have "length p + 1 = length q + 1"
    using le assms(2,3) to_le_bytes_inj [of "length p + 1" 8 "length q + 1"] by (simp add: raw_descendant)
  then show ?thesis using st pack_bits_inj [OF _ pack] by (simp add: raw_descendant)
qed

theorem child_rng_input_injective_witness:
  "child_rng_input User (raw (descendant [True])) \<noteq> child_rng_input User (raw (descendant [True, False]))
   \<and> child_rng_input User (raw (descendant [True])) \<noteq> child_rng_input Chaos (raw (descendant [True]))"
  by (intro conjI notI; drule child_rng_input_injective; simp)

end
