(* ===== verification/Fair_Continuation.thy ===== *)
theory Fair_Continuation
  imports Run_Queue_Props Global_Time
begin

text \<open>
  The fair order past the end of a replayed schedule (detcore/src/scheduler/fair_continuation.rs) and
  the steps of the scheduler that feed it and apply it (detcore/src/scheduler.rs): the clocks are read
  from the global clock, the accounts turn them into run times, and the run queue is ordered by these.
\<close>

subsection \<open>Accounts\<close>

record clock =
  clk_current :: nat
  clk_inherited :: nat

record account =
  acc_clock :: "nat option"
  run_time :: nat
  acc_runnable :: bool
  last_selected :: nat

record fair_continuation =
  accounts :: "(det_tid, account) btree_map"
  fc_floor :: nat
  selections :: nat

type_synonym clock_slots = "(det_tid, clock option) btree_map"

definition fair_default :: fair_continuation where
  "fair_default = \<lparr>accounts = [], fc_floor = 0, selections = 0\<rparr>"

definition new_account :: "nat \<Rightarrow> clock option \<Rightarrow> account" where
  "new_account floor0 clk =
     \<lparr>acc_clock = map_option clk_current clk, run_time = floor0, acc_runnable = False, last_selected = 0\<rparr>"

text \<open>Charges the clock's advance; a first report is charged from the inherited clock.\<close>

definition charge_clock :: "clock option \<Rightarrow> account \<Rightarrow> account" where
  "charge_clock clk a = (case clk of
       None \<Rightarrow> a
     | Some reported \<Rightarrow>
         (let previous = (case acc_clock a of Some c \<Rightarrow> c | None \<Rightarrow> clk_inherited reported);
              ran = saturating_sub (clk_current reported) previous
          in a\<lparr>run_time := saturating_add (run_time a) ran, acc_clock := Some (clk_current reported)\<rparr>))"

text \<open>A thread that becomes runnable starts at no less than the floor and ahead of its ties.\<close>

definition admit_runnable :: "nat \<Rightarrow> bool \<Rightarrow> account \<Rightarrow> account" where
  "admit_runnable floor0 is_runnable a =
     (if is_runnable \<and> \<not> acc_runnable a then a\<lparr>run_time := max (run_time a) floor0, last_selected := 0\<rparr> else a)
       \<lparr>acc_runnable := is_runnable\<rparr>"

definition update_account :: "nat \<Rightarrow> bool \<Rightarrow> clock option \<Rightarrow> account option \<Rightarrow> account" where
  "update_account floor0 is_runnable clk old =
     admit_runnable floor0 is_runnable (charge_clock clk (case old of Some a \<Rightarrow> a | None \<Rightarrow> new_account floor0 clk))"

text \<open>
  Whether a thread is runnable is looked up by binary search in the list of runnable threads, which
  \<open>round_robin_tids\<close> gives in order; in a sorted list that search finds exactly the members.
\<close>

fun update_accounts ::
  "nat \<Rightarrow> det_tid list \<Rightarrow> (det_tid \<times> clock option) list \<Rightarrow> (det_tid, account) btree_map \<Rightarrow> (det_tid, account) btree_map"
where
  "update_accounts floor0 runnable [] m = m"
| "update_accounts floor0 runnable ((tid, clk) # rest) m =
     update_accounts floor0 runnable rest
       (bm_insert tid (update_account floor0 (tid \<in> set runnable) clk (bm_get m tid)) m)"

definition account_key :: "nat \<Rightarrow> account option \<Rightarrow> run_time_key" where
  "account_key floor0 a = (case a of None \<Rightarrow> (floor0, 0) | Some a \<Rightarrow> (run_time a, last_selected a))"

text \<open>\<open>iter().min()\<close> of a list, \<open>None\<close> when it is empty.\<close>

fun least :: "nat list \<Rightarrow> nat option" where
  "least [] = None"
| "least (x # xs) = Some (fold min xs x)"

definition run_times ::
  "clock_slots \<Rightarrow> det_tid list \<Rightarrow> fair_continuation \<Rightarrow> (det_tid \<times> run_time_key) list \<times> fair_continuation" where
  "run_times clocks runnable fc =
     (let floor0 = fc_floor fc;
          kept = filter (\<lambda>e. bm_get clocks (fst e) \<noteq> None) (accounts fc);
          m = update_accounts floor0 runnable clocks kept;
          keys = map (\<lambda>tid. (tid, account_key floor0 (bm_get m tid))) runnable;
          floor1 = (case least (map (fst \<circ> snd) keys) of None \<Rightarrow> floor0 | Some l \<Rightarrow> max floor0 l)
      in (keys, fc\<lparr>accounts := m, fc_floor := floor1\<rparr>))"

definition note_selected :: "det_tid \<Rightarrow> fair_continuation \<Rightarrow> fair_continuation option" where
  "note_selected tid fc = do {
     n \<leftarrow> add_u64 (selections fc) 1;
     let fc = fc\<lparr>selections := n\<rparr>;
     Some (case bm_get (accounts fc) tid of
         None \<Rightarrow> fc
       | Some a \<Rightarrow> fc\<lparr>accounts := bm_insert tid (a\<lparr>last_selected := n\<rparr>) (accounts fc)\<rparr>)
   }"

definition fc_reassign :: "det_tid \<Rightarrow> det_tid \<Rightarrow> fair_continuation \<Rightarrow> fair_continuation" where
  "fc_reassign from_tid to_tid fc =
     (if from_tid = to_tid then fc
      else case bm_get (accounts fc) from_tid of
          Some a \<Rightarrow> fc\<lparr>accounts := bm_insert to_tid a (bm_remove from_tid (accounts fc))\<rparr>
        | None \<Rightarrow> fc\<lparr>accounts := bm_remove to_tid (bm_remove from_tid (accounts fc))\<rparr>)"

subsection \<open>The scheduler's part\<close>

text \<open>The fields of the scheduler that the steps below read and write.\<close>

record 'g fair_scheduler =
  fs_run_queue :: "'g run_queue"
  fs_priorities :: "(det_tid, priority) btree_map"
  replay_priorities_released :: bool
  fs_fair :: "fair_continuation option"
  continuation_clocks :: clock_slots

text \<open>The end of step 1: every registered thread's clock as the global clock has it.\<close>

fun thread_clock_slots :: "global_time \<Rightarrow> (det_tid \<times> priority) list \<Rightarrow> clock_slots option" where
  "thread_clock_slots g [] = Some []"
| "thread_clock_slots g ((tid, prio) # rest) = do {
     slot \<leftarrow> (if contains_thread g tid
              then do {
                now \<leftarrow> threads_time g tid;
                Some (Some \<lparr>clk_current = now, clk_inherited = threads_inherited_time g tid\<rparr>)
              }
              else Some None);
     slots \<leftarrow> thread_clock_slots g rest;
     Some ((tid, slot) # slots)
   }"

definition capture_continuation_clocks :: "global_time \<Rightarrow> 'g fair_scheduler \<Rightarrow> 'g fair_scheduler option" where
  "capture_continuation_clocks g s =
     (if fs_fair s \<noteq> None \<and> replay_priorities_released s
      then do { slots \<leftarrow> thread_clock_slots g (fs_priorities s); Some (s\<lparr>continuation_clocks := slots\<rparr>) }
      else Some s)"

definition note_turn :: "det_tid \<Rightarrow> 'g fair_scheduler \<Rightarrow> 'g fair_scheduler option" where
  "note_turn tid s =
     (if replay_priorities_released s
      then (case fs_fair s of
          None \<Rightarrow> Some s
        | Some fair \<Rightarrow> do { fair \<leftarrow> note_selected tid fair; Some (s\<lparr>fs_fair := Some fair\<rparr>) })
      else Some s)"

fun fill_slots :: "det_tid list \<Rightarrow> clock_slots \<Rightarrow> clock_slots" where
  "fill_slots [] m = m"
| "fill_slots (tid # rest) m = fill_slots rest (if bm_get m tid = None then bm_insert tid None m else m)"

definition order_continuation_fairly :: "'g fair_scheduler \<Rightarrow> 'g fair_scheduler option" where
  "order_continuation_fairly s =
     (if \<not> replay_priorities_released s then Some s
      else case fs_fair s of
          None \<Rightarrow> Some s
        | Some fair \<Rightarrow> do {
            let kept = filter (\<lambda>e. bm_get (fs_priorities s) (fst e) \<noteq> None) (continuation_clocks s);
            let clocks = fill_slots (map fst (fs_priorities s)) kept;
            let runnable = round_robin_tids (fs_run_queue s);
            let (keys, fair) = run_times clocks runnable fair;
            q \<leftarrow> order_by_run_time (fs_run_queue s) keys;
            Some (s\<lparr>continuation_clocks := clocks, fs_fair := Some fair, fs_run_queue := q\<rparr>)
          })"

subsection \<open>The accounts after a pass\<close>

lemma update_accounts_ok: "bm_ok m \<Longrightarrow> bm_ok (update_accounts f r cs m)"
  by (induction f r cs m rule: update_accounts.induct) (simp_all add: bm_insert_ok)

lemma update_accounts_get:
  "bm_ok m \<Longrightarrow> distinct (map fst cs) \<Longrightarrow> bm_get (update_accounts f r cs m) tid =
     (case map_of cs tid of None \<Rightarrow> bm_get m tid
      | Some clk \<Rightarrow> Some (update_account f (tid \<in> set r) clk (bm_get m tid)))"
proof (induction f r cs m rule: update_accounts.induct)
  case (2 f r t clk rest m)
  have "map_of rest t = None" using 2(3) by (simp add: map_of_eq_None_iff)
  with 2 show ?case by (cases "tid = t"; cases "map_of rest tid") (simp_all add: bm_insert_ok bm_get_insert)
qed simp

lemma bm_get_filter: "bm_ok m \<Longrightarrow> bm_get (filter (\<lambda>e. P (fst e)) m) k = (if P k then bm_get m k else None)"
  by (induction m) (auto simp: bm_get_def bm_ok_Cons)

lemma run_times_accounts:
  assumes "bm_ok (accounts fc)" "bm_ok clocks"
  shows "bm_ok (accounts (snd (run_times clocks runnable fc)))"
    and "bm_get (accounts (snd (run_times clocks runnable fc))) tid =
      map_option (\<lambda>clk. update_account (fc_floor fc) (tid \<in> set runnable) clk (bm_get (accounts fc) tid)) (bm_get clocks tid)"
proof -
  let ?kept = "filter (\<lambda>e. bm_get clocks (fst e) \<noteq> None) (accounts fc)"
  have ok: "bm_ok ?kept" using assms(1) by (rule bm_filter_ok)
  have acc: "accounts (snd (run_times clocks runnable fc)) = update_accounts (fc_floor fc) runnable clocks ?kept"
    by (simp add: run_times_def Let_def)
  show "bm_ok (accounts (snd (run_times clocks runnable fc)))" unfolding acc using ok by (rule update_accounts_ok)
  show "bm_get (accounts (snd (run_times clocks runnable fc))) tid =
      map_option (\<lambda>clk. update_account (fc_floor fc) (tid \<in> set runnable) clk (bm_get (accounts fc) tid)) (bm_get clocks tid)"
    unfolding acc update_accounts_get [OF ok bm_okD_distinct [OF assms(2)]]
    using bm_get_filter [OF assms(1), of "\<lambda>k. bm_get clocks k \<noteq> None"]
    by (auto simp: bm_get_def split: option.splits)
qed

lemma run_times_keys:
  "fst (run_times clocks runnable fc) =
     map (\<lambda>tid. (tid, account_key (fc_floor fc) (bm_get (accounts (snd (run_times clocks runnable fc))) tid))) runnable"
  by (simp add: run_times_def Let_def)

lemma least_Some: "least xs = Some l \<Longrightarrow> l \<in> set xs \<and> (\<forall>x \<in> set xs. l \<le> x)"
proof (cases xs)
  case (Cons y ys)
  assume "least xs = Some l"
  moreover have "fold min ys a \<in> insert a (set ys) \<and> (\<forall>x \<in> insert a (set ys). fold min ys a \<le> x)" for a :: nat
  proof (induction ys arbitrary: a)
    case (Cons b ys)
    show ?case using Cons [of "min b a"] by (auto simp: min_def split: if_splits)
  qed simp
  ultimately show ?thesis using Cons by auto
qed simp

lemma least_None: "least xs = None \<longleftrightarrow> xs = []"
  by (cases xs) simp_all

definition fair_ok :: "fair_continuation \<Rightarrow> bool" where
  "fair_ok fc \<longleftrightarrow> bm_ok (accounts fc) \<and> fc_floor fc \<le> u64_max
     \<and> (\<forall>tid a. bm_get (accounts fc) tid = Some a \<longrightarrow>
          run_time a \<le> u64_max \<and> last_selected a \<le> selections fc \<and> (acc_runnable a \<longrightarrow> fc_floor fc \<le> run_time a))"

lemma update_account_ok:
  assumes "f \<le> u64_max" "\<And>a. old = Some a \<Longrightarrow> run_time a \<le> u64_max \<and> last_selected a \<le> n \<and> (acc_runnable a \<longrightarrow> f \<le> run_time a)"
  shows "run_time (update_account f r clk old) \<le> u64_max" "last_selected (update_account f r clk old) \<le> n"
    "acc_runnable (update_account f r clk old) = r" "r \<Longrightarrow> f \<le> run_time (update_account f r clk old)"
  using assms
  by (auto simp: update_account_def admit_runnable_def charge_clock_def new_account_def saturating_add_def Let_def
      split: option.splits)

lemma run_times_ok:
  fixes runnable :: "det_tid list"
  assumes fc: "fair_ok fc" and clocks: "bm_ok clocks"
  defines "fc' \<equiv> snd (run_times clocks runnable fc)"
  shows "fair_ok fc'" "fc_floor fc \<le> fc_floor fc'"
    "\<And>tid. tid \<in> set runnable \<Longrightarrow> fc_floor fc \<le> fst (account_key (fc_floor fc) (bm_get (accounts fc') tid))
        \<and> (bm_get clocks tid \<noteq> None \<longrightarrow> fc_floor fc' \<le> fst (account_key (fc_floor fc) (bm_get (accounts fc') tid)))"
proof -
  have ok: "bm_ok (accounts fc)" "fc_floor fc \<le> u64_max" using fc by (auto simp: fair_ok_def)
  note get = run_times_accounts(2) [OF ok(1) clocks, of runnable, folded fc'_def]
  have old: "run_time a \<le> u64_max \<and> last_selected a \<le> selections fc \<and> (acc_runnable a \<longrightarrow> fc_floor fc \<le> run_time a)"
    if "bm_get (accounts fc) tid = Some a" for tid a using fc that by (simp add: fair_ok_def)
  have upd: "run_time (update_account (fc_floor fc) r clk (bm_get (accounts fc) tid)) \<le> u64_max"
    "last_selected (update_account (fc_floor fc) r clk (bm_get (accounts fc) tid)) \<le> selections fc"
    "acc_runnable (update_account (fc_floor fc) r clk (bm_get (accounts fc) tid)) = r"
    "r \<Longrightarrow> fc_floor fc \<le> run_time (update_account (fc_floor fc) r clk (bm_get (accounts fc) tid))" for r clk tid
    using update_account_ok [of "fc_floor fc" "bm_get (accounts fc) tid" "selections fc" r clk] ok(2) old by auto
  let ?key = "\<lambda>tid. fst (account_key (fc_floor fc) (bm_get (accounts fc') tid))"
  have sel: "selections fc' = selections fc" by (simp add: fc'_def run_times_def Let_def)
  have floor': "fc_floor fc' = (case least (map ?key runnable) of None \<Rightarrow> fc_floor fc | Some l \<Rightarrow> max (fc_floor fc) l)"
    by (simp add: fc'_def run_times_def Let_def comp_def)
  have key_ge: "fc_floor fc \<le> ?key tid" if "tid \<in> set runnable" for tid
    using upd(4) that by (auto simp: account_key_def get split: option.splits)
  have key_le: "?key tid \<le> u64_max" for tid
    using upd(1) ok(2) by (auto simp: account_key_def get split: option.splits)
  have floor_le: "fc_floor fc' \<le> ?key tid" if t: "tid \<in> set runnable" for tid
  proof (cases "least (map ?key runnable)")
    case None
    then show ?thesis using t by (auto simp: least_None)
  next
    case (Some l)
    then have "l \<le> ?key tid" using least_Some t by fastforce
    then show ?thesis using floor' Some key_ge [OF t] by simp
  qed
  show "fc_floor fc \<le> fc_floor fc'" using floor' by (simp split: option.splits)
  have top: "fc_floor fc' \<le> u64_max"
  proof (cases "least (map ?key runnable)")
    case (Some l)
    then obtain t where "l = ?key t" using least_Some by fastforce
    then show ?thesis using floor' Some ok(2) key_le [of t] by simp
  qed (use floor' ok(2) in simp)
  show "fair_ok fc'"
    unfolding fair_ok_def
  proof (intro conjI allI impI)
    show "bm_ok (accounts fc')" unfolding fc'_def by (rule run_times_accounts(1) [OF ok(1) clocks])
    show "fc_floor fc' \<le> u64_max" by (rule top)
    fix tid a
    assume a: "bm_get (accounts fc') tid = Some a"
    then obtain clk where clk: "a = update_account (fc_floor fc) (tid \<in> set runnable) clk (bm_get (accounts fc) tid)"
      using get by auto
    show "run_time a \<le> u64_max" unfolding clk by (rule upd(1))
    show "last_selected a \<le> selections fc'" unfolding clk sel by (rule upd(2))
    show "fc_floor fc' \<le> run_time a" if "acc_runnable a"
    proof -
      have "tid \<in> set runnable" using that unfolding clk upd(3) .
      from floor_le [OF this] show ?thesis using a by (simp add: account_key_def)
    qed
  qed
  show "fc_floor fc \<le> ?key tid \<and> (bm_get clocks tid \<noteq> None \<longrightarrow> fc_floor fc' \<le> ?key tid)" if "tid \<in> set runnable" for tid
    using key_ge [OF that] floor_le [OF that] by simp
qed

lemma note_selected_ok:
  assumes fc: "fair_ok fc" and n: "selections fc < u64_max"
  shows "\<exists>fc'. note_selected tid fc = Some fc' \<and> fair_ok fc' \<and> fc_floor fc' = fc_floor fc
    \<and> selections fc' = selections fc + 1
    \<and> bm_get (accounts fc') = (case bm_get (accounts fc) tid of None \<Rightarrow> bm_get (accounts fc)
        | Some a \<Rightarrow> (bm_get (accounts fc))(tid \<mapsto> a\<lparr>last_selected := selections fc + 1\<rparr>))"
proof -
  have ok: "bm_ok (accounts fc)" using fc by (simp add: fair_ok_def)
  show ?thesis
  proof (cases "bm_get (accounts fc) tid")
    case None
    then show ?thesis using fc n by (auto simp: note_selected_def add_u64_def fair_ok_def le_SucI)
  next
    case (Some a)
    then show ?thesis using fc n ok
      by (auto simp: note_selected_def add_u64_def fair_ok_def bm_insert_ok bm_get_insert le_SucI split: if_splits)
  qed
qed

lemma fc_reassign_ok:
  assumes fc: "fair_ok fc"
  shows "fair_ok (fc_reassign a b fc)" "fc_floor (fc_reassign a b fc) = fc_floor fc"
    "selections (fc_reassign a b fc) = selections fc"
    "bm_get (accounts (fc_reassign a b fc)) = (if a = b then bm_get (accounts fc)
       else (bm_get (accounts fc))(a := None, b := bm_get (accounts fc) a))"
proof -
  have ok: "bm_ok (accounts fc)" using fc by (simp add: fair_ok_def)
  show get: "bm_get (accounts (fc_reassign a b fc)) = (if a = b then bm_get (accounts fc)
       else (bm_get (accounts fc))(a := None, b := bm_get (accounts fc) a))"
    using ok by (auto simp: fc_reassign_def bm_get_insert bm_get_remove bm_remove_ok fun_eq_iff split: option.splits)
  show f: "fc_floor (fc_reassign a b fc) = fc_floor fc" "selections (fc_reassign a b fc) = selections fc"
    by (auto simp: fc_reassign_def split: option.splits)
  have "bm_ok (accounts (fc_reassign a b fc))"
    using ok by (auto simp: fc_reassign_def bm_insert_ok bm_remove_ok split: option.splits)
  then show "fair_ok (fc_reassign a b fc)" using fc unfolding fair_ok_def f get by (auto split: if_splits)
qed

subsection \<open>Histories\<close>

datatype fair_call = Pass clock_slots "det_tid list" | Selected det_tid | Exec det_tid det_tid

fun fair_step :: "fair_call \<Rightarrow> fair_continuation \<Rightarrow> fair_continuation option" where
  "fair_step (Pass clocks runnable) fc = Some (snd (run_times clocks runnable fc))"
| "fair_step (Selected tid) fc = note_selected tid fc"
| "fair_step (Exec a b) fc = Some (fc_reassign a b fc)"

fun fair_pre :: "fair_call \<Rightarrow> fair_continuation \<Rightarrow> bool" where
  "fair_pre (Pass clocks runnable) fc \<longleftrightarrow> bm_ok clocks"
| "fair_pre (Selected tid) fc \<longleftrightarrow> selections fc < u64_max"
| "fair_pre (Exec a b) fc \<longleftrightarrow> True"

text \<open>The accounts as a map, and what each call does to it.\<close>

definition fair_view :: "fair_continuation \<Rightarrow> nat \<times> nat \<times> (det_tid \<rightharpoonup> account)" where
  "fair_view fc = (fc_floor fc, selections fc, bm_get (accounts fc))"

fun fair_spec :: "fair_call \<Rightarrow> nat \<times> nat \<times> (det_tid \<rightharpoonup> account) \<Rightarrow> nat \<times> nat \<times> (det_tid \<rightharpoonup> account) \<Rightarrow> bool" where
  "fair_spec (Pass clocks runnable) (f, n, m) (f', n', m') \<longleftrightarrow>
     f \<le> f' \<and> n' = n
     \<and> m' = (\<lambda>tid. map_option (\<lambda>clk. update_account f (tid \<in> set runnable) clk (m tid)) (bm_get clocks tid))
     \<and> (\<forall>tid a. tid \<in> set runnable \<longrightarrow> m' tid = Some a \<longrightarrow> f' \<le> run_time a)"
| "fair_spec (Selected tid) (f, n, m) (f', n', m') \<longleftrightarrow>
     f' = f \<and> n' = n + 1
     \<and> m' = (case m tid of None \<Rightarrow> m | Some a \<Rightarrow> m(tid \<mapsto> a\<lparr>last_selected := n + 1\<rparr>))"
| "fair_spec (Exec a b) (f, n, m) (f', n', m') \<longleftrightarrow>
     f' = f \<and> n' = n \<and> m' = (if a = b then m else m(a := None, b := m a))"

interpretation fair: protocol_object fair_ok fair_pre fair_step fair_view fair_spec
proof
  fix fc c
  assume fc: "fair_ok fc" and pre: "fair_pre c fc"
  have ok: "bm_ok (accounts fc)" using fc by (simp add: fair_ok_def)
  show "\<exists>fc'. fair_step c fc = Some fc' \<and> fair_ok fc' \<and> fair_spec c (fair_view fc) (fair_view fc')"
  proof (cases c)
    case (Pass clocks runnable)
    then have clocks: "bm_ok clocks" using pre by simp
    note rt = run_times_ok [OF fc clocks, where runnable = runnable]
    let ?fc' = "snd (run_times clocks runnable fc)"
    have "bm_get (accounts ?fc') = (\<lambda>tid. map_option (\<lambda>clk. update_account (fc_floor fc) (tid \<in> set runnable) clk
        (bm_get (accounts fc) tid)) (bm_get clocks tid))"
      using run_times_accounts(2) [OF ok clocks] by blast
    moreover have "fc_floor ?fc' \<le> run_time a" if "tid \<in> set runnable" "bm_get (accounts ?fc') tid = Some a" for tid a
      using rt(3) [OF that(1)] that(2) calculation by (auto simp: account_key_def)
    moreover have "selections ?fc' = selections fc" by (simp add: run_times_def Let_def)
    ultimately show ?thesis using Pass rt(1,2) unfolding fair_view_def by simp
  next
    case (Selected tid)
    then show ?thesis using note_selected_ok [OF fc, of tid] pre by (auto simp: fair_view_def)
  next
    case (Exec a b)
    then show ?thesis using fc_reassign_ok [OF fc] by (simp add: fair_view_def)
  qed
qed

lemma fair_step_floor: "fair_ok fc \<Longrightarrow> fair_pre c fc \<Longrightarrow> fair_step c fc = Some fc' \<Longrightarrow> fc_floor fc \<le> fc_floor fc'"
  using fair.call_ok [of fc c] by (cases c) (auto simp: fair_view_def)

lemma fair_default_ok: "fair_ok fair_default"
  by (simp add: fair_ok_def fair_default_def bm_get_def)

subsection \<open>The scheduler's order\<close>

lemma fill_slots_ok: "bm_ok m \<Longrightarrow> bm_ok (fill_slots ts m)"
  by (induction ts m rule: fill_slots.induct) (auto simp: bm_insert_ok)

lemma fill_slots_get:
  "bm_ok m \<Longrightarrow> bm_get (fill_slots ts m) t = (if bm_get m t = None \<and> t \<in> set ts then Some None else bm_get m t)"
  by (induction ts m rule: fill_slots.induct) (auto simp: bm_insert_ok bm_get_insert)

lemma map_of_rev_keys: "map_of (rev (map (\<lambda>t. (t, f t)) ts)) t = (if t \<in> set ts then Some (f t) else None)"
  by (auto simp: map_of_eq_None_iff rev_map map_of_map_restrict restrict_map_def)

definition fair_key :: "fair_continuation \<Rightarrow> det_tid \<rightharpoonup> run_time_key" where
  "fair_key fc tid = map_option (\<lambda>a. (run_time a, last_selected a)) (bm_get (accounts fc) tid)"

lemma round_robin_tids_set:
  "set (round_robin_tids q) = (\<lambda>e. qv_tid (snd e)) ` {e \<in> set (queue q). in_round_robin_order (fst e) (snd e)}"
  by (auto simp: round_robin_tids_def tids_def)

lemma order_continuation_step:
  assumes "fs_fair s = Some fc" "replay_priorities_released s" "fair_ok fc" "rq_closed S (fs_run_queue s)"
    and "bm_ok (fs_priorities s)" "bm_ok (continuation_clocks s)"
    and reg: "\<forall>tid \<in> set (round_robin_tids (fs_run_queue s)). bm_get (fs_priorities s) tid \<noteq> None"
  obtains clocks fc' q' where "bm_ok clocks" "\<And>tid. bm_get clocks tid = None \<longleftrightarrow> bm_get (fs_priorities s) tid = None"
    "fc' = snd (run_times clocks (round_robin_tids (fs_run_queue s)) fc)"
    "order_by_run_time (fs_run_queue s) (fst (run_times clocks (round_robin_tids (fs_run_queue s)) fc)) = Some q'"
    "order_continuation_fairly s = Some (s\<lparr>continuation_clocks := clocks, fs_fair := Some fc', fs_run_queue := q'\<rparr>)"
proof -
  let ?kept = "filter (\<lambda>e. bm_get (fs_priorities s) (fst e) \<noteq> None) (continuation_clocks s)"
  let ?clocks = "fill_slots (map fst (fs_priorities s)) ?kept" and ?r = "round_robin_tids (fs_run_queue s)"
  have kept: "bm_ok ?kept" using assms(6) by (rule bm_filter_ok)
  have key: "tid \<in> set (map fst (fs_priorities s)) \<longleftrightarrow> bm_get (fs_priorities s) tid \<noteq> None" for tid
    using bm_get_None_iff [of "fs_priorities s" tid] by simp
  have get: "bm_get ?clocks tid = None \<longleftrightarrow> bm_get (fs_priorities s) tid = None" for tid
    unfolding fill_slots_get [OF kept] key bm_get_filter [OF assms(6), of "\<lambda>k. bm_get (fs_priorities s) k \<noteq> None" tid]
    by auto
  obtain keys fc' where rt: "run_times ?clocks ?r fc = (keys, fc')" by fastforce
  obtain q' where q': "order_by_run_time (fs_run_queue s) keys = Some q'"
    using order_by_run_time_ok [OF assms(4) refl, of keys] by blast
  have "order_continuation_fairly s = Some (s\<lparr>continuation_clocks := ?clocks, fs_fair := Some fc', fs_run_queue := q'\<rparr>)"
    using assms(1,2) rt q' by (simp add: order_continuation_fairly_def Let_def)
  with that [OF fill_slots_ok [OF kept] get] rt q' show thesis by simp
qed

lemma picked_round_robin:
  assumes rest: "filter (\<lambda>e. \<not> run_time_picked wanted e) (queue q') = filter (\<lambda>e. \<not> run_time_picked wanted e) (queue q)"
    and wanted: "\<And>tid. tid \<in> set (round_robin_tids q) \<Longrightarrow> wanted tid \<noteq> None" and e: "e \<in> set (queue q) \<union> set (queue q')"
  shows "run_time_picked wanted e \<longleftrightarrow> in_round_robin_order (fst e) (snd e)"
proof
  assume rr: "in_round_robin_order (fst e) (snd e)"
  show "run_time_picked wanted e"
  proof (rule ccontr)
    assume not: "\<not> run_time_picked wanted e"
    then have "e \<in> set (filter (\<lambda>e. \<not> run_time_picked wanted e) (queue q)) \<union> set (filter (\<lambda>e. \<not> run_time_picked wanted e) (queue q'))"
      using e by auto
    then have "e \<in> set (filter (\<lambda>e. \<not> run_time_picked wanted e) (queue q))" unfolding rest by simp
    then have "qv_tid (snd e) \<in> set (round_robin_tids q)" using rr by (auto simp: round_robin_tids_set)
    then show False using wanted not rr by (simp add: run_time_picked_def)
  qed
qed (simp add: run_time_picked_def)

lemma run_times_cong:
  assumes "bm_ok (accounts fc1)" "bm_ok (accounts fc2)" "bm_ok clocks" "fc_floor fc1 = fc_floor fc2" "selections fc1 = selections fc2"
    and same: "\<And>tid clk. bm_get clocks tid = Some clk \<Longrightarrow>
      update_account (fc_floor fc2) (tid \<in> set r) clk (bm_get (accounts fc1) tid)
      = update_account (fc_floor fc2) (tid \<in> set r) clk (bm_get (accounts fc2) tid)"
  shows "run_times clocks r fc1 = run_times clocks r fc2"
proof -
  let ?a1 = "accounts (snd (run_times clocks r fc1))" and ?a2 = "accounts (snd (run_times clocks r fc2))"
  have "bm_get ?a1 tid = bm_get ?a2 tid" for tid
    using same run_times_accounts(2) [OF assms(1,3), of r tid] run_times_accounts(2) [OF assms(2,3), of r tid] assms(4)
    by (cases "bm_get clocks tid") simp_all
  then have acc: "?a1 = ?a2" using run_times_accounts(1) assms(1-3) by (intro bm_ok_ext) auto
  then have keys: "fst (run_times clocks r fc1) = fst (run_times clocks r fc2)" unfolding run_times_keys using assms(4) by simp
  have "fc_floor (snd (run_times clocks r fc)) = (case least (map (fst \<circ> snd) (fst (run_times clocks r fc))) of
      None \<Rightarrow> fc_floor fc | Some l \<Rightarrow> max (fc_floor fc) l)" "selections (snd (run_times clocks r fc)) = selections fc" for fc
    by (simp_all add: run_times_def Let_def)
  then have "snd (run_times clocks r fc1) = snd (run_times clocks r fc2)" using acc keys assms(4,5)
    by (intro fair_continuation.equality) (simp_all split: option.splits)
  with keys show ?thesis by (simp add: prod_eq_iff)
qed

subsection \<open>Properties\<close>

text \<open>
  C32: The accounts of the continuation. No history of passes, selections and execs panics while fewer than
  \<open>2^64\<close> turns are taken; each call changes the accounts exactly as its specification says, a pass
  keeping one account for each registered thread; no runnable thread is ever below the floor, and the
  floor never falls.
\<close>

theorem fair_continuation_history:
  assumes "legal_calls fair_pre fair_step cs fair_default"
  shows "\<exists>fc. run_calls fair_step cs fair_default = Some fc \<and> fair_ok fc
    \<and> spec_run fair_spec cs (fair_view fair_default) (fair_view fc)
    \<and> (\<forall>ds fc'. legal_calls fair_pre fair_step ds fc \<and> run_calls fair_step ds fc = Some fc' \<longrightarrow> fc_floor fc \<le> fc_floor fc')"
proof -
  obtain fc where fc: "run_calls fair_step cs fair_default = Some fc" "fair_ok fc"
    "spec_run fair_spec cs (fair_view fair_default) (fair_view fc)"
    using fair.history_ok [OF fair_default_ok assms] by blast
  have "fc_floor fc \<le> fc_floor fc'" if "legal_calls fair_pre fair_step ds fc" "run_calls fair_step ds fc = Some fc'" for ds fc'
    using fair.history_mono [of fc_floor fc ds fc'] fair_step_floor fc(2) that by blast
  with fc show ?thesis by blast
qed

theorem fair_continuation_history_witness:
  "\<exists>fc. run_calls fair_step
      [Pass [(3, Some \<lparr>clk_current = 10, clk_inherited = 0\<rparr>), (5, None)] [3, 5], Selected 5,
       Pass [(3, Some \<lparr>clk_current = 40, clk_inherited = 0\<rparr>), (5, Some \<lparr>clk_current = 25, clk_inherited = 5\<rparr>)] [3, 5], Exec 5 3]
      fair_default = Some fc \<and> fair_ok fc"
proof -
  have "legal_calls fair_pre fair_step
      [Pass [(3, Some \<lparr>clk_current = 10, clk_inherited = 0\<rparr>), (5, None)] [3, 5], Selected 5,
       Pass [(3, Some \<lparr>clk_current = 40, clk_inherited = 0\<rparr>), (5, Some \<lparr>clk_current = 25, clk_inherited = 5\<rparr>)] [3, 5], Exec 5 3]
      fair_default"
    by code_simp
  from fair_continuation_history [OF this] show ?thesis by blast
qed

text \<open>
  C33: The scheduler runs the thread that ran least. Past the end of the replayed schedule the step before a
  selection succeeds, leaves every entry that is not in round-robin order where it was, and orders the
  others, within each priority level, by the run time and then the last selection of the accounts it
  just brought up to date, one for each registered thread; none of them is below the floor.
\<close>

theorem continuation_orders_by_run_time:
  assumes "fs_fair s = Some fc" "replay_priorities_released s" "fair_ok fc" "rq_closed S (fs_run_queue s)"
    and "bm_ok (fs_priorities s)" "bm_ok (continuation_clocks s)"
    and "\<forall>tid \<in> set (round_robin_tids (fs_run_queue s)). bm_get (fs_priorities s) tid \<noteq> None"
  shows "\<exists>s' fc'. order_continuation_fairly s = Some s' \<and> fs_fair s' = Some fc' \<and> fair_ok fc'
    \<and> rq_closed S (fs_run_queue s') \<and> dom (bm_get (accounts fc')) = dom (bm_get (fs_priorities s))
    \<and> (\<forall>tid \<in> set (round_robin_tids (fs_run_queue s)). \<exists>k. fair_key fc' tid = Some k \<and> fc_floor fc' \<le> fst k)
    \<and> sorted (map (run_time_sort_key (fair_key fc'))
        (filter (\<lambda>e. in_round_robin_order (fst e) (snd e)) (queue (fs_run_queue s'))))
    \<and> filter (\<lambda>e. \<not> in_round_robin_order (fst e) (snd e)) (queue (fs_run_queue s'))
      = filter (\<lambda>e. \<not> in_round_robin_order (fst e) (snd e)) (queue (fs_run_queue s))"
proof -
  let ?q = "fs_run_queue s" and ?r = "round_robin_tids (fs_run_queue s)"
  obtain clocks fc' q' where c: "bm_ok clocks" "\<And>tid. bm_get clocks tid = None \<longleftrightarrow> bm_get (fs_priorities s) tid = None"
    and fc': "fc' = snd (run_times clocks ?r fc)" and q': "order_by_run_time ?q (fst (run_times clocks ?r fc)) = Some q'"
    and s': "order_continuation_fairly s = Some (s\<lparr>continuation_clocks := clocks, fs_fair := Some fc', fs_run_queue := q'\<rparr>)"
    using order_continuation_step [OF assms] by blast
  note rt = run_times_ok [OF assms(3) c(1), where runnable = ?r, folded fc']
  have get: "bm_get (accounts fc') tid = map_option (\<lambda>clk. update_account (fc_floor fc) (tid \<in> set ?r) clk
      (bm_get (accounts fc) tid)) (bm_get clocks tid)" for tid
    unfolding fc' using assms(3) c(1) by (intro run_times_accounts(2)) (simp_all add: fair_ok_def)
  have some: "bm_get (accounts fc') tid \<noteq> None" if "tid \<in> set ?r" for tid using get c(2) assms(7) that by auto
  let ?wanted = "map_of (rev (fst (run_times clocks ?r fc)))"
  have wanted: "?wanted tid = (if tid \<in> set ?r then fair_key fc' tid else None)" for tid
    using some [of tid] unfolding run_times_keys fc' [symmetric] map_of_rev_keys
    by (cases "bm_get (accounts fc') tid") (auto simp: fair_key_def account_key_def)
  have rr: "?wanted tid \<noteq> None" if "tid \<in> set ?r" for tid using that some unfolding wanted by (simp add: fair_key_def)
  obtain q2 where ord: "order_by_run_time ?q (fst (run_times clocks ?r fc)) = Some q2" "rq_closed S q2"
    "filter (\<lambda>e. \<not> run_time_picked ?wanted e) (queue q2) = filter (\<lambda>e. \<not> run_time_picked ?wanted e) (queue ?q)"
    "sorted (map (run_time_sort_key ?wanted) (filter (run_time_picked ?wanted) (queue q2)))"
    using order_by_run_time_ok [OF assms(4) refl, of "fst (run_times clocks ?r fc)"] by blast
  have q2: "q2 = q'" using ord(1) q' by simp
  have pick: "run_time_picked ?wanted e \<longleftrightarrow> in_round_robin_order (fst e) (snd e)" if "e \<in> set (queue ?q) \<union> set (queue q')" for e
    using picked_round_robin [OF ord(3) rr, of e] that q2 by blast
  have F: "filter (run_time_picked ?wanted) (queue q') = filter (\<lambda>e. in_round_robin_order (fst e) (snd e)) (queue q')"
    using pick by (intro filter_cong) auto
  have keys: "run_time_sort_key ?wanted e = run_time_sort_key (fair_key fc') e" if "run_time_picked ?wanted e" for e
  proof -
    have "?wanted (qv_tid (snd e)) = fair_key fc' (qv_tid (snd e))"
      using that unfolding run_time_picked_def wanted by (auto split: if_splits)
    then show ?thesis by (simp add: run_time_sort_key_def)
  qed
  have M: "map (run_time_sort_key ?wanted) (filter (run_time_picked ?wanted) (queue q'))
      = map (run_time_sort_key (fair_key fc')) (filter (run_time_picked ?wanted) (queue q'))"
    using keys by (intro map_cong) auto
  have sorted: "sorted (map (run_time_sort_key (fair_key fc')) (filter (\<lambda>e. in_round_robin_order (fst e) (snd e)) (queue q')))"
    using ord(4) [unfolded q2, unfolded M, unfolded F] .
  have others: "filter (\<lambda>e. \<not> in_round_robin_order (fst e) (snd e)) (queue q') = filter (\<lambda>e. \<not> in_round_robin_order (fst e) (snd e)) (queue ?q)"
  proof -
    have "filter (\<lambda>e. \<not> run_time_picked ?wanted e) m = filter (\<lambda>e. \<not> in_round_robin_order (fst e) (snd e)) m"
      if "set m \<subseteq> set (queue ?q) \<union> set (queue q')" for m
      using pick that by (intro filter_cong) auto
    from this [of "queue ?q"] this [of "queue q'"] show ?thesis using ord(3) unfolding q2 by simp
  qed
  have floor: "\<exists>k. fair_key fc' tid = Some k \<and> fc_floor fc' \<le> fst k" if "tid \<in> set ?r" for tid
    using rt(3) [OF that] some [OF that] get by (auto simp: fair_key_def account_key_def)
  have "dom (bm_get (accounts fc')) = dom (bm_get (fs_priorities s))"
    using c(2) by (auto simp: dom_def get split: option.splits)
  then show ?thesis using s' rt(1) ord(2) sorted others floor unfolding q2 by (intro exI [of _ "s\<lparr>continuation_clocks := clocks, fs_fair := Some fc', fs_run_queue := q'\<rparr>"] exI [of _ fc']) simp
qed

definition sample_scheduler :: "unit fair_scheduler" where
  "sample_scheduler = \<lparr>fs_run_queue = fst (state_after SchedNone [PushBack 1 1000, PushBack 2 1000]),
     fs_priorities = [(1, 1000), (2, 1000)], replay_priorities_released = True, fs_fair = Some fair_default,
     continuation_clocks = [(1, Some \<lparr>clk_current = 9, clk_inherited = 0\<rparr>)]\<rparr>"

theorem continuation_orders_by_run_time_witness:
  "\<exists>s' fc'. order_continuation_fairly sample_scheduler = Some s' \<and> fs_fair s' = Some fc'
    \<and> sorted (map (run_time_sort_key (fair_key fc'))
        (filter (\<lambda>e. in_round_robin_order (fst e) (snd e)) (queue (fs_run_queue s'))))"
proof -
  have q: "rq_closed (set (snd (state_after SchedNone [PushBack 1 1000, PushBack 2 1000]))) (fs_run_queue sample_scheduler)"
    unfolding sample_scheduler_def by (simp, rule state_after_closed) code_simp+
  have pre: "fs_fair sample_scheduler = Some fair_default" "replay_priorities_released sample_scheduler"
    "bm_ok (fs_priorities sample_scheduler)" "bm_ok (continuation_clocks sample_scheduler)"
    "\<forall>tid \<in> set (round_robin_tids (fs_run_queue sample_scheduler)). bm_get (fs_priorities sample_scheduler) tid \<noteq> None"
  proof -
    have "round_robin_tids (fs_run_queue sample_scheduler) = [1, 2]" by code_simp
    then show "\<forall>tid \<in> set (round_robin_tids (fs_run_queue sample_scheduler)). bm_get (fs_priorities sample_scheduler) tid \<noteq> None"
      by (simp add: sample_scheduler_def bm_get_def)
  qed (simp_all add: sample_scheduler_def bm_ok_def)
  show ?thesis using continuation_orders_by_run_time [OF pre(1,2) fair_default_ok q pre(3-5)] by blast
qed

text \<open>
  C34: When a child's first clock report arrives does not matter. A new thread whose report misses a pass is
  charged, when it comes, from the clock it inherited: the keys of both passes and every account after
  them are those of a run in which the inherited clock was already there.
\<close>

theorem first_report_order_independent:
  assumes fc: "fair_ok fc" and new: "bm_get (accounts fc) tid = None" and clocks: "bm_ok clocks" "bm_ok clocks'"
    and later: "bm_get clocks' tid = Some (Some \<lparr>clk_current = x, clk_inherited = i\<rparr>)"
  shows "let early = run_times (bm_insert tid (Some \<lparr>clk_current = i, clk_inherited = i\<rparr>) clocks) r fc;
           late = run_times (bm_insert tid None clocks) r fc
    in fst early = fst late \<and> run_times clocks' r' (snd early) = run_times clocks' r' (snd late)"
proof -
  define early where "early = bm_insert tid (Some \<lparr>clk_current = i, clk_inherited = i\<rparr>) clocks"
  define late :: clock_slots where "late = bm_insert tid None clocks"
  have ok: "bm_ok (accounts fc)" "fc_floor fc \<le> u64_max" "bm_ok early" "bm_ok late"
    using fc clocks by (simp_all add: fair_ok_def early_def late_def bm_insert_ok)
  let ?e = "snd (run_times early r fc)" and ?l = "snd (run_times late r fc)"
  note e = run_times_accounts [OF ok(1,3), of r] and l = run_times_accounts [OF ok(1,4), of r]
  have other: "bm_get (accounts ?e) t = bm_get (accounts ?l) t" if "t \<noteq> tid" for t
    using that clocks(1) unfolding e(2) l(2) by (simp add: early_def late_def bm_get_insert)
  obtain a where a: "bm_get (accounts ?l) tid = Some a" "acc_clock a = None" "bm_get (accounts ?e) tid = Some (a\<lparr>acc_clock := Some i\<rparr>)"
    using clocks(1) ok(2) new unfolding e(2) l(2)
    by (simp add: early_def late_def bm_get_insert update_account_def charge_clock_def admit_runnable_def
        new_account_def saturating_sub_def saturating_add_def min_def)
  have key: "account_key f (bm_get (accounts ?e) t) = account_key f (bm_get (accounts ?l) t)" for f t
    using other a by (cases "t = tid") (simp_all add: account_key_def)
  have keys: "fst (run_times early r fc) = fst (run_times late r fc)" unfolding run_times_keys using key by simp
  have floor: "fc_floor ?e = fc_floor ?l"
  proof -
    have "fc_floor (snd (run_times c r fc)) = (case least (map (fst \<circ> snd) (fst (run_times c r fc))) of
        None \<Rightarrow> fc_floor fc | Some l \<Rightarrow> max (fc_floor fc) l)" for c
      by (simp add: run_times_def Let_def)
    then show ?thesis using keys by simp
  qed
  have "run_times clocks' r' ?e = run_times clocks' r' ?l"
  proof (rule run_times_cong [OF e(1) l(1) clocks(2) floor])
    show "selections ?e = selections ?l" by (simp add: run_times_def Let_def)
    show "update_account (fc_floor ?l) (t \<in> set r') clk (bm_get (accounts ?e) t)
        = update_account (fc_floor ?l) (t \<in> set r') clk (bm_get (accounts ?l) t)" if "bm_get clocks' t = Some clk" for t clk
      using that later a other [of t]
      by (cases "t = tid") (auto simp: update_account_def charge_clock_def Let_def)
  qed
  with keys show ?thesis unfolding Let_def early_def [symmetric] late_def [symmetric] by blast
qed

theorem first_report_order_independent_witness:
  "run_times [(4, Some \<lparr>clk_current = 90, clk_inherited = 50\<rparr>)] [4]
     (snd (run_times (bm_insert 4 (Some \<lparr>clk_current = 50, clk_inherited = 50\<rparr>) []) [4] fair_default))
   = run_times [(4, Some \<lparr>clk_current = 90, clk_inherited = 50\<rparr>)] [4] (snd (run_times (bm_insert 4 None []) [4] fair_default))"
  using first_report_order_independent [OF fair_default_ok, of 4 "[]" "[(4, Some \<lparr>clk_current = 90, clk_inherited = 50\<rparr>)]" 90 50 "[4]" "[4]"]
  by (simp add: fair_default_def bm_get_def bm_ok_def Let_def)

end
