(* ===== verification/Namespaces.thy ===== *)
theory Namespaces
  imports BTree Protocol
begin

text \<open>
  The records of PID namespaces (detcore/src/scheduler/pid_namespaces.rs) and of user namespaces
  (detcore/src/scheduler/user_namespaces.rs): the pid each task has in each nested namespace with the
  two translations, and where one process's user namespace is from another's.
\<close>

subsection \<open>PID namespaces\<close>

type_synonym pid_namespace = "det_pid option"

text \<open>The message of a mismatch is kept as the values it prints.\<close>

datatype pid_namespace_record_error =
  Wrapped det_pid int int
| Mismatch det_tid "int list" "det_pid list"

record pid_namespaces =
  pn_levels :: "(det_tid, (det_pid \<times> int) list) btree_map"
  pn_tasks :: "(det_pid \<times> int, det_tid) btree_map"
  pn_highest :: "(det_pid, int) btree_map"
  pn_untranslatable :: "(det_tid, string) btree_map"

datatype guest_pid_answer = Task det_tid "nat option" | NoSuchPid | Untranslatable string

definition pid_namespaces_default :: pid_namespaces where
  "pid_namespaces_default = \<lparr>pn_levels = [], pn_tasks = [], pn_highest = [], pn_untranslatable = []\<rparr>"

definition namespace_of :: "pid_namespaces \<Rightarrow> det_tid \<Rightarrow> pid_namespace" where
  "namespace_of ns task = (case bm_get (pn_levels ns) task of
       None \<Rightarrow> None
     | Some levels \<Rightarrow> if levels = [] then None else Some (fst (last levels)))"

definition chain_of :: "pid_namespaces \<Rightarrow> det_tid \<Rightarrow> det_pid list" where
  "chain_of ns task = (case bm_get (pn_levels ns) task of None \<Rightarrow> [] | Some levels \<Rightarrow> map fst levels)"

fun forget_keys :: "det_tid \<Rightarrow> (det_pid \<times> int) list \<Rightarrow> (det_pid \<times> int, det_tid) btree_map \<Rightarrow> (det_pid \<times> int, det_tid) btree_map" where
  "forget_keys task [] m = m"
| "forget_keys task (key # keys) m =
     forget_keys task keys (if bm_get m key = Some task then bm_remove key m else m)"

definition pn_forget :: "det_tid \<Rightarrow> pid_namespaces \<Rightarrow> pid_namespaces" where
  "pn_forget task ns =
     (let ns = ns\<lparr>pn_untranslatable := bm_remove task (pn_untranslatable ns)\<rparr>
      in case bm_get (pn_levels ns) task of
           None \<Rightarrow> ns
         | Some levels \<Rightarrow>
             ns\<lparr>pn_levels := bm_remove task (pn_levels ns), pn_tasks := forget_keys task levels (pn_tasks ns)\<rparr>)"

fun check_levels ::
  "det_tid \<Rightarrow> (det_pid, int) btree_map \<Rightarrow> (det_pid \<times> int) list \<Rightarrow> pid_namespace_record_error option" where
  "check_levels task highest [] = None"
| "check_levels task highest ((init, pid) # rest) =
     (case bm_get highest init of
        Some h \<Rightarrow> if \<not> (init = task \<and> pid = 1) \<and> pid \<le> h then Some (Wrapped init pid h)
                  else check_levels task highest rest
      | None \<Rightarrow> check_levels task highest rest)"

fun enter_levels :: "det_tid \<Rightarrow> (det_pid \<times> int) list \<Rightarrow> pid_namespaces \<Rightarrow> pid_namespaces" where
  "enter_levels task [] ns = ns"
| "enter_levels task ((init, pid) # rest) ns =
     enter_levels task rest
       (ns\<lparr>pn_highest := bm_insert init pid (pn_highest ns), pn_tasks := bm_insert (init, pid) task (pn_tasks ns)\<rparr>)"

definition pn_record ::
  "det_tid \<Rightarrow> det_pid list \<Rightarrow> int list \<Rightarrow> pid_namespaces \<Rightarrow> (pid_namespace_record_error + unit) \<times> pid_namespaces" where
  "pn_record task chain nspid ns =
     (if length nspid \<noteq> length chain + 1 \<or> hd nspid \<noteq> task then (Inl (Mismatch task nspid chain), ns)
      else let ns = pn_forget task ns in
        if chain = [] then (Inr (), ns)
        else let levels = zip chain (tl nspid) in
          case check_levels task (pn_highest ns) levels of
            Some e \<Rightarrow> (Inl e, ns)
          | None \<Rightarrow>
              let ns = enter_levels task levels ns
              in (Inr (), ns\<lparr>pn_levels := bm_insert task levels (pn_levels ns)\<rparr>))"

definition mark_untranslatable :: "det_tid \<Rightarrow> string \<Rightarrow> pid_namespaces \<Rightarrow> pid_namespaces" where
  "mark_untranslatable task reason ns =
     (let ns = pn_forget task ns in ns\<lparr>pn_untranslatable := bm_insert task reason (pn_untranslatable ns)\<rparr>)"

definition untranslatable :: "pid_namespaces \<Rightarrow> det_tid \<Rightarrow> string option" where
  "untranslatable ns task = bm_get (pn_untranslatable ns) task"

definition pn_resolve :: "pid_namespaces \<Rightarrow> pid_namespace \<Rightarrow> int \<Rightarrow> det_tid option" where
  "pn_resolve ns n pid = (case n of None \<Rightarrow> Some pid | Some init \<Rightarrow> bm_get (pn_tasks ns) (init, pid))"

definition localize :: "pid_namespaces \<Rightarrow> pid_namespace \<Rightarrow> det_tid \<Rightarrow> int option" where
  "localize ns n task = (case n of
       None \<Rightarrow> Some task
     | Some init \<Rightarrow> bm_get (pn_levels ns) task \<bind> (\<lambda>levels. map_option snd (find (\<lambda>l. fst l = init) levels)))"

definition resolve_for :: "pid_namespaces \<Rightarrow> det_tid \<Rightarrow> int \<Rightarrow> guest_pid_answer" where
  "resolve_for ns caller pid = (case untranslatable ns caller of
       Some reason \<Rightarrow> Untranslatable reason
     | None \<Rightarrow> (case pn_resolve ns (namespace_of ns caller) pid of
           Some task \<Rightarrow> Task task None
         | None \<Rightarrow> NoSuchPid))"

definition localize_for :: "pid_namespaces \<Rightarrow> det_tid \<Rightarrow> det_tid \<Rightarrow> string + int option" where
  "localize_for ns caller task = (case untranslatable ns caller of
       Some reason \<Rightarrow> Inl reason
     | None \<Rightarrow> (case (if namespace_of ns caller \<noteq> None then untranslatable ns task else None) of
           Some reason \<Rightarrow> Inl reason
         | None \<Rightarrow> Inr (localize ns (namespace_of ns caller) task)))"

definition pn_members :: "pid_namespaces \<Rightarrow> det_pid \<Rightarrow> det_tid list" where
  "pn_members ns init = map fst (filter (\<lambda>(task, levels). list_ex (\<lambda>l. fst l = init) levels) (pn_levels ns))"

subsection \<open>User namespaces\<close>

datatype user_namespace_relation = Same | Below | Elsewhere

record user_namespaces =
  un_chains :: "(det_pid, nat list) btree_map"
  un_named :: nat
  owners_may_differ :: "nat btree_set"

definition user_namespaces_default :: user_namespaces where
  "user_namespaces_default = \<lparr>un_chains = [], un_named = 0, owners_may_differ = []\<rparr>"

definition un_chain :: "user_namespaces \<Rightarrow> det_pid \<Rightarrow> nat list" where
  "un_chain u process = (case bm_get (un_chains u) process of None \<Rightarrow> [] | Some c \<Rightarrow> c)"

definition un_inherit :: "det_pid \<Rightarrow> det_pid option \<Rightarrow> user_namespaces \<Rightarrow> user_namespaces" where
  "un_inherit child creator u =
     (let chain = (case creator \<bind> bm_get (un_chains u) of None \<Rightarrow> [] | Some c \<Rightarrow> c)
      in if chain = [] then u\<lparr>un_chains := bm_remove child (un_chains u)\<rparr>
         else u\<lparr>un_chains := bm_insert child chain (un_chains u)\<rparr>)"

definition enter_new :: "det_pid \<Rightarrow> user_namespaces \<Rightarrow> user_namespaces option" where
  "enter_new process u = do {
     n \<leftarrow> add_u64 (un_named u) 1;
     Some (u\<lparr>un_named := n, un_chains := bm_insert process (un_chain u process @ [n]) (un_chains u)\<rparr>)
   }"

fun starts_with :: "nat list \<Rightarrow> nat list \<Rightarrow> bool" where
  "starts_with xs [] \<longleftrightarrow> True"
| "starts_with [] (y # ys) \<longleftrightarrow> False"
| "starts_with (x # xs) (y # ys) \<longleftrightarrow> x = y \<and> starts_with xs ys"

definition un_relation :: "user_namespaces \<Rightarrow> det_pid \<Rightarrow> det_pid \<Rightarrow> user_namespace_relation" where
  "un_relation u reader task =
     (if un_chain u reader = un_chain u task then Same
      else if starts_with (un_chain u task) (un_chain u reader) then Below
      else Elsewhere)"

definition note_owner_may_differ :: "det_pid \<Rightarrow> user_namespaces \<Rightarrow> user_namespaces" where
  "note_owner_may_differ process u =
     (if un_chain u process = [] then u
      else u\<lparr>owners_may_differ := bs_insert (last (un_chain u process)) (owners_may_differ u)\<rparr>)"

definition owner_may_differ_below :: "user_namespaces \<Rightarrow> det_pid \<Rightarrow> det_pid \<Rightarrow> bool" where
  "owner_may_differ_below u reader task \<longleftrightarrow>
     length (un_chain u reader) < length (un_chain u task) \<and> starts_with (un_chain u task) (un_chain u reader)
     \<and> un_chain u task ! length (un_chain u reader) \<in> set (owners_may_differ u)"

subsection \<open>What the PID operations do to the maps\<close>

lemma forget_keys_spec:
  "bm_ok m \<Longrightarrow> bm_ok (forget_keys task keys m) \<and> bm_get (forget_keys task keys m) =
     (\<lambda>k. if k \<in> set keys \<and> bm_get m k = Some task then None else bm_get m k)"
  by (induction task keys m rule: forget_keys.induct) (auto simp: bm_remove_ok bm_get_remove fun_eq_iff)

lemma enter_levels_spec:
  assumes "distinct (map fst lv)" "bm_ok (pn_tasks ns)" "bm_ok (pn_highest ns)"
  shows "bm_ok (pn_tasks (enter_levels task lv ns)) \<and> bm_ok (pn_highest (enter_levels task lv ns))
    \<and> pn_levels (enter_levels task lv ns) = pn_levels ns
    \<and> pn_untranslatable (enter_levels task lv ns) = pn_untranslatable ns
    \<and> bm_get (pn_tasks (enter_levels task lv ns)) = (\<lambda>k. if k \<in> set lv then Some task else bm_get (pn_tasks ns) k)
    \<and> bm_get (pn_highest (enter_levels task lv ns)) = bm_get (pn_highest ns) ++ map_of lv"
  using assms
proof (induction task lv ns rule: enter_levels.induct)
  case (2 task init pid rest ns)
  have "map_of rest init = None" using 2(2) by (simp add: map_of_eq_None_iff)
  with 2 show ?case by (auto simp: bm_insert_ok bm_get_insert fun_eq_iff map_add_def split: option.splits)
qed (simp add: fun_eq_iff)

lemma check_levels_None:
  "check_levels task h lv = None \<longleftrightarrow>
     (\<forall>(init, pid) \<in> set lv. init = task \<and> pid = 1 \<or> (\<forall>top. bm_get h init = Some top \<longrightarrow> top < pid))"
  by (induction task h lv rule: check_levels.induct) (auto split: option.splits if_splits)

subsection \<open>The invariant of the record\<close>

definition pn_sound :: "pid_namespaces \<Rightarrow> bool" where
  "pn_sound ns \<longleftrightarrow> bm_ok (pn_levels ns) \<and> bm_ok (pn_tasks ns) \<and> bm_ok (pn_highest ns)
     \<and> (\<forall>t lv. bm_get (pn_levels ns) t = Some lv \<longrightarrow> distinct (map fst lv))
     \<and> (\<forall>k t. bm_get (pn_tasks ns) k = Some t \<longrightarrow> (\<exists>lv. bm_get (pn_levels ns) t = Some lv \<and> k \<in> set lv))"

lemma pn_soundD: "pn_sound ns \<Longrightarrow> bm_get (pn_tasks ns) k = Some t \<Longrightarrow> \<exists>lv. bm_get (pn_levels ns) t = Some lv \<and> k \<in> set lv"
  unfolding pn_sound_def by blast

text \<open>Without a restarted namespace every recorded pid is the task's, and none is above the highest.\<close>

definition pn_exact :: "pid_namespaces \<Rightarrow> bool" where
  "pn_exact ns \<longleftrightarrow>
     (\<forall>t lv k. bm_get (pn_levels ns) t = Some lv \<longrightarrow> k \<in> set lv \<longrightarrow> bm_get (pn_tasks ns) k = Some t)
     \<and> (\<forall>init pid t. bm_get (pn_tasks ns) (init, pid) = Some t \<longrightarrow> (\<exists>h. bm_get (pn_highest ns) init = Some h \<and> pid \<le> h))"

lemma pn_exactD:
  "pn_exact ns \<Longrightarrow> bm_get (pn_levels ns) t = Some lv \<Longrightarrow> k \<in> set lv \<Longrightarrow> bm_get (pn_tasks ns) k = Some t"
  "pn_exact ns \<Longrightarrow> bm_get (pn_tasks ns) (init, pid) = Some t \<Longrightarrow> \<exists>h. bm_get (pn_highest ns) init = Some h \<and> pid \<le> h"
  unfolding pn_exact_def by blast+

lemma pn_forget_maps:
  assumes "pn_sound ns"
  shows "bm_get (pn_levels (pn_forget task ns)) = (bm_get (pn_levels ns))(task := None)"
    "bm_get (pn_tasks (pn_forget task ns)) = (\<lambda>k. if bm_get (pn_tasks ns) k = Some task then None else bm_get (pn_tasks ns) k)"
    "pn_highest (pn_forget task ns) = pn_highest ns"
    "bm_ok (pn_levels (pn_forget task ns))" "bm_ok (pn_tasks (pn_forget task ns))"
proof -
  have ok: "bm_ok (pn_levels ns)" "bm_ok (pn_tasks ns)" using assms by (auto simp: pn_sound_def)
  have own: "bm_get (pn_tasks ns) k = Some task \<Longrightarrow> \<exists>lv. bm_get (pn_levels ns) task = Some lv \<and> k \<in> set lv" for k
    using pn_soundD [OF assms] .
  show "bm_get (pn_levels (pn_forget task ns)) = (bm_get (pn_levels ns))(task := None)"
    by (auto simp: pn_forget_def Let_def bm_get_remove fun_eq_iff split: option.splits)
  show "pn_highest (pn_forget task ns) = pn_highest ns" by (simp add: pn_forget_def Let_def split: option.splits)
  show "bm_ok (pn_levels (pn_forget task ns))" "bm_ok (pn_tasks (pn_forget task ns))"
    using ok forget_keys_spec [OF ok(2)] by (auto simp: pn_forget_def Let_def bm_remove_ok split: option.splits)
  show "bm_get (pn_tasks (pn_forget task ns)) = (\<lambda>k. if bm_get (pn_tasks ns) k = Some task then None else bm_get (pn_tasks ns) k)"
    using own forget_keys_spec [OF ok(2), of task]
    by (fastforce simp: pn_forget_def Let_def fun_eq_iff split: option.splits)
qed

lemma pn_forget_sound: "pn_sound ns \<Longrightarrow> pn_sound (pn_forget task ns)"
  by (frule pn_forget_maps [of _ task]) (auto simp: pn_sound_def pn_forget_maps split: if_splits)

lemma pn_forget_exact: "pn_sound ns \<Longrightarrow> pn_exact ns \<Longrightarrow> pn_exact (pn_forget task ns)"
  by (auto simp: pn_exact_def pn_forget_maps split: if_splits)

lemma pn_forget_gone: "pn_sound ns \<Longrightarrow> bm_get (pn_tasks (pn_forget task ns)) k \<noteq> Some task"
  by (simp add: pn_forget_maps)

lemma entered_maps:
  fixes task :: det_tid
  assumes ns: "pn_sound ns" and lv: "distinct (map fst lv)"
  defines "ns' \<equiv> (enter_levels task lv ns)\<lparr>pn_levels := bm_insert task lv (pn_levels (enter_levels task lv ns))\<rparr>"
  shows "bm_get (pn_levels ns') = (bm_get (pn_levels ns))(task \<mapsto> lv)"
    "bm_get (pn_tasks ns') = (\<lambda>k. if k \<in> set lv then Some task else bm_get (pn_tasks ns) k)"
    "bm_get (pn_highest ns') = bm_get (pn_highest ns) ++ map_of lv"
    "bm_ok (pn_levels ns')" "bm_ok (pn_tasks ns')" "bm_ok (pn_highest ns')"
  using ns enter_levels_spec [OF lv, of ns task] by (simp_all add: ns'_def pn_sound_def bm_get_insert bm_insert_ok)

lemma entered_sound:
  assumes ns: "pn_sound ns" and gone: "\<And>k. bm_get (pn_tasks ns) k \<noteq> Some task" and lv: "distinct (map fst lv)"
  shows "pn_sound ((enter_levels task lv ns)\<lparr>pn_levels := bm_insert task lv (pn_levels (enter_levels task lv ns))\<rparr>)"
proof -
  note maps = entered_maps [OF ns lv, of task]
  have "\<forall>t l. ((bm_get (pn_levels ns))(task \<mapsto> lv)) t = Some l \<longrightarrow> distinct (map fst l)" using ns lv by (simp add: pn_sound_def)
  moreover have "\<exists>l. ((bm_get (pn_levels ns))(task \<mapsto> lv)) t = Some l \<and> k \<in> set l"
    if "(if k \<in> set lv then Some task else bm_get (pn_tasks ns) k) = Some t" for k t
    using that pn_soundD [OF ns, of k t] gone [of k] by (auto split: if_splits)
  ultimately show ?thesis unfolding pn_sound_def maps(1-3) using maps(4-6) by blast
qed

lemma entered_exact:
  assumes ns: "pn_sound ns" "pn_exact ns" and gone: "\<And>k. bm_get (pn_tasks ns) k \<noteq> Some task" "bm_get (pn_levels ns) task = None"
    and lv: "distinct (map fst lv)" and check: "check_levels task (pn_highest ns) lv = None"
    and restart: "task \<in> fst ` set lv \<Longrightarrow> \<forall>t l. bm_get (pn_levels ns) t = Some l \<longrightarrow> task \<notin> fst ` set l"
  shows "pn_exact ((enter_levels task lv ns)\<lparr>pn_levels := bm_insert task lv (pn_levels (enter_levels task lv ns))\<rparr>)"
proof -
  have above: "p < pid" if new: "(init, pid) \<in> set lv" and old: "bm_get (pn_tasks ns) (init, p) = Some t" for init pid p t
  proof (cases "init = task")
    case True
    then have "task \<in> fst ` set lv" using new by force
    moreover obtain l where "bm_get (pn_levels ns) t = Some l" "(init, p) \<in> set l" using pn_soundD [OF ns(1) old] by blast
    ultimately show ?thesis using restart True by force
  next
    case False
    obtain h where "bm_get (pn_highest ns) init = Some h" "p \<le> h" using pn_exactD(2) [OF ns(2) old] by blast
    then show ?thesis using check new False unfolding check_levels_None by fastforce
  qed
  have fresh: "k \<notin> set lv" if "bm_get (pn_tasks ns) k = Some t" for k t
    using above [of "fst k" "snd k" "snd k" t] that by auto
  show ?thesis
    unfolding pn_exact_def entered_maps [OF ns(1) lv]
  proof (intro conjI allI impI)
    fix t l k
    assume "((bm_get (pn_levels ns))(task \<mapsto> lv)) t = Some l" "k \<in> set l"
    then show "(if k \<in> set lv then Some task else bm_get (pn_tasks ns) k) = Some t"
      using pn_exactD(1) [OF ns(2), of t l k] fresh [of k t] by (cases "t = task") simp_all
  next
    fix init pid t
    assume t: "(if (init, pid) \<in> set lv then Some task else bm_get (pn_tasks ns) (init, pid)) = Some t"
    show "\<exists>h. (bm_get (pn_highest ns) ++ map_of lv) init = Some h \<and> pid \<le> h"
    proof (cases "map_of lv init")
      case None
      then have "(init, pid) \<notin> set lv" by (auto simp: map_of_eq_None_iff image_iff)
      then show ?thesis using t pn_exactD(2) [OF ns(2), of init pid t] None by (simp add: map_add_def)
    next
      case (Some top)
      then have top: "(init, top) \<in> set lv" by (rule map_of_SomeD)
      have "pid \<le> top"
      proof (cases "(init, pid) \<in> set lv")
        case True
        then show ?thesis using top lv by (metis eq_key_imp_eq_value order_refl)
      next
        case False
        then show ?thesis using above [OF top, of pid t] t by simp
      qed
      then show ?thesis using Some by simp
    qed
  qed
qed

lemma pn_record_sound:
  assumes ns: "pn_sound ns" and chain: "distinct chain"
  shows "pn_sound (snd (pn_record task chain nspid ns))"
proof -
  have "distinct (map fst (zip chain (tl nspid)))" using chain by (simp add: map_fst_zip_take)
  then show ?thesis using ns pn_forget_sound [OF ns, of task] entered_sound [OF pn_forget_sound [OF ns] pn_forget_gone [OF ns]]
    by (auto simp: pn_record_def Let_def split: option.splits)
qed

lemma pn_record_exact:
  assumes ns: "pn_sound ns" "pn_exact ns" and chain: "distinct chain"
    and restart: "task \<in> set chain \<Longrightarrow> \<forall>t l. bm_get (pn_levels ns) t = Some l \<longrightarrow> t \<noteq> task \<longrightarrow> task \<notin> fst ` set l"
  shows "pn_exact (snd (pn_record task chain nspid ns))"
proof -
  let ?lv = "zip chain (tl nspid)" and ?ns = "pn_forget task ns"
  have lv: "distinct (map fst ?lv)" using chain by (simp add: map_fst_zip_take)
  have "fst ` set ?lv \<subseteq> set chain" by (auto dest: set_zip_leftD)
  then have r: "\<forall>t l. bm_get (pn_levels ?ns) t = Some l \<longrightarrow> task \<notin> fst ` set l" if "task \<in> fst ` set ?lv"
    using restart that by (auto simp: pn_forget_maps [OF ns(1)] split: if_splits)
  have gone: "bm_get (pn_levels ?ns) task = None" by (simp add: pn_forget_maps [OF ns(1)])
  show ?thesis
    using ns pn_forget_exact [OF ns, of task]
      entered_exact [OF pn_forget_sound [OF ns(1)] pn_forget_exact [OF ns] pn_forget_gone [OF ns(1)] gone lv _ r]
    by (auto simp: pn_record_def Let_def split: option.splits)
qed

datatype pn_call = PnRecord det_tid "det_pid list" "int list" | PnMark det_tid string | PnForget det_tid

fun pn_step :: "pn_call \<Rightarrow> pid_namespaces \<Rightarrow> pid_namespaces option" where
  "pn_step (PnRecord task chain nspid) ns = Some (snd (pn_record task chain nspid ns))"
| "pn_step (PnMark task reason) ns = Some (mark_untranslatable task reason ns)"
| "pn_step (PnForget task) ns = Some (pn_forget task ns)"

text \<open>
  A task's chain names each namespace once. A strict history, in addition, makes a task the init of a
  namespace only when no other recorded task is in an earlier namespace of the same name.
\<close>

fun pn_pre :: "bool \<Rightarrow> pn_call \<Rightarrow> pid_namespaces \<Rightarrow> bool" where
  "pn_pre strict (PnRecord task chain nspid) ns \<longleftrightarrow> distinct chain
     \<and> (strict \<and> task \<in> set chain \<longrightarrow> list_all (\<lambda>(t, l). t = task \<or> task \<notin> fst ` set l) (pn_levels ns))"
| "pn_pre strict (PnMark task reason) ns \<longleftrightarrow> True"
| "pn_pre strict (PnForget task) ns \<longleftrightarrow> True"

lemma mark_untranslatable_same:
  "pn_sound (mark_untranslatable t r ns) = pn_sound (pn_forget t ns)" "pn_exact (mark_untranslatable t r ns) = pn_exact (pn_forget t ns)"
  by (simp_all add: mark_untranslatable_def pn_sound_def pn_exact_def Let_def)

interpretation pn: protocol_object "\<lambda>ns. pn_sound ns \<and> (strict \<longrightarrow> pn_exact ns)" "pn_pre strict" pn_step "\<lambda>_. ()" "\<lambda>_ _ _. True"
  for strict
proof
  fix ns c
  assume ns: "pn_sound ns \<and> (strict \<longrightarrow> pn_exact ns)" and pre: "pn_pre strict c ns"
  show "\<exists>ns'. pn_step c ns = Some ns' \<and> (pn_sound ns' \<and> (strict \<longrightarrow> pn_exact ns')) \<and> True"
  proof (cases c)
    case (PnRecord task chain nspid)
    have "bm_ok (pn_levels ns)" using ns by (simp add: pn_sound_def)
    then have "\<forall>t l. bm_get (pn_levels ns) t = Some l \<longrightarrow> t \<noteq> task \<longrightarrow> task \<notin> fst ` set l" if strict "task \<in> set chain"
      using pre PnRecord that by (auto simp: bm_get_iff list_all_iff)
    then show ?thesis using pn_record_sound pn_record_exact ns pre PnRecord by simp
  next
    case (PnMark task reason)
    then show ?thesis using ns pn_forget_sound pn_forget_exact by (simp add: mark_untranslatable_same)
  next
    case (PnForget task)
    then show ?thesis using ns pn_forget_sound pn_forget_exact by simp
  qed
qed

lemma pn_default_ok: "pn_sound pid_namespaces_default \<and> (strict \<longrightarrow> pn_exact pid_namespaces_default)"
  by (simp add: pn_sound_def pn_exact_def pid_namespaces_default_def bm_get_def)

lemma find_level: "distinct (map fst lv) \<Longrightarrow> find (\<lambda>l. fst l = init) lv = Some (i, pid) \<longleftrightarrow> i = init \<and> (init, pid) \<in> set lv"
  by (induction lv) (auto simp: image_iff)

lemma localize_iff:
  assumes "pn_sound ns"
  shows "localize ns (Some init) t = Some pid \<longleftrightarrow> (\<exists>lv. bm_get (pn_levels ns) t = Some lv \<and> (init, pid) \<in> set lv)"
proof (cases "bm_get (pn_levels ns) t")
  case (Some lv)
  then have "distinct (map fst lv)" using assms by (auto simp: pn_sound_def)
  then show ?thesis using Some find_level [of lv init] by (auto simp: localize_def)
qed (simp add: localize_def)

subsection \<open>User namespaces form a forest\<close>

text \<open>Every namespace has one chain of namespaces above it.\<close>

definition un_ok :: "user_namespaces \<Rightarrow> bool" where
  "un_ok u \<longleftrightarrow> bm_ok (un_chains u) \<and> (\<forall>p. \<forall>n \<in> set (un_chain u p). n \<le> un_named u)
     \<and> (\<exists>path. \<forall>p i. i < length (un_chain u p) \<longrightarrow> take i (un_chain u p) = path (un_chain u p ! i))"

lemma un_chain_inherit:
  "bm_ok (un_chains u) \<Longrightarrow>
   un_chain (un_inherit child creator u) p = (if p = child then (case creator of None \<Rightarrow> [] | Some c \<Rightarrow> un_chain u c) else un_chain u p)"
  by (auto simp: un_chain_def un_inherit_def Let_def bm_get_insert bm_get_remove split: option.splits)

lemma un_chain_enter:
  "bm_ok (un_chains u) \<Longrightarrow> enter_new process u = Some u' \<Longrightarrow>
   un_chain u' p = (if p = process then un_chain u process @ [un_named u + 1] else un_chain u p) \<and> un_named u' = un_named u + 1"
  by (auto simp: enter_new_def un_chain_def bm_get_insert add_u64_def split: if_splits)

lemma un_inherit_ok: "un_ok u \<Longrightarrow> un_ok (un_inherit child creator u)"
proof -
  assume u: "un_ok u"
  then obtain path where path: "\<forall>p i. i < length (un_chain u p) \<longrightarrow> take i (un_chain u p) = path (un_chain u p ! i)"
    by (auto simp: un_ok_def)
  have ok: "bm_ok (un_chains u)" "\<forall>p. \<forall>n \<in> set (un_chain u p). n \<le> un_named u" using u by (auto simp: un_ok_def)
  have "bm_ok (un_chains (un_inherit child creator u))" "un_named (un_inherit child creator u) = un_named u"
    using ok(1) by (auto simp: un_inherit_def Let_def bm_insert_ok bm_remove_ok)
  moreover have "\<forall>p. \<forall>n \<in> set (un_chain (un_inherit child creator u) p). n \<le> un_named u"
    using ok by (auto simp: un_chain_inherit split: option.splits)
  moreover have "\<forall>p i. i < length (un_chain (un_inherit child creator u) p) \<longrightarrow>
      take i (un_chain (un_inherit child creator u) p) = path (un_chain (un_inherit child creator u) p ! i)"
    using path ok(1) by (auto simp: un_chain_inherit split: option.splits)
  ultimately show ?thesis unfolding un_ok_def by auto
qed

lemma enter_new_ok:
  assumes u: "un_ok u" and n: "un_named u < u64_max"
  shows "\<exists>u'. enter_new process u = Some u' \<and> un_ok u'"
proof -
  obtain path where path: "\<And>p i. i < length (un_chain u p) \<Longrightarrow> take i (un_chain u p) = path (un_chain u p ! i)"
    using u by (auto simp: un_ok_def)
  have ok: "bm_ok (un_chains u)" "\<And>p n. n \<in> set (un_chain u p) \<Longrightarrow> n \<le> un_named u" using u by (auto simp: un_ok_def)
  obtain u' where u': "enter_new process u = Some u'" using n by (auto simp: enter_new_def add_u64_def)
  note ch = un_chain_enter [OF ok(1) u']
  let ?path = "path(un_named u + 1 := un_chain u process)"
  have "take i (un_chain u' p) = ?path (un_chain u' p ! i)" if "i < length (un_chain u' p)" for p i
  proof -
    have old: "un_chain u q ! j \<noteq> un_named u + 1" if "j < length (un_chain u q)" for q j using ok(2) nth_mem [OF that] by fastforce
    show ?thesis using that path old by (auto simp: ch nth_append less_Suc_eq)
  qed
  moreover have "n \<le> un_named u'" if "n \<in> set (un_chain u' p)" for n p
  proof -
    have "n = un_named u + 1 \<or> (\<exists>q. n \<in> set (un_chain u q))" using that by (auto simp: ch split: if_splits)
    then show ?thesis using ok(2) ch by (auto intro: le_SucI)
  qed
  moreover have "bm_ok (un_chains u')" using u' ok(1) by (auto simp: enter_new_def add_u64_def bm_insert_ok split: if_splits)
  ultimately show ?thesis using u' unfolding un_ok_def by blast
qed

lemma note_owner_ok: "un_ok (note_owner_may_differ p u) = un_ok u" "un_chain (note_owner_may_differ p u) = un_chain u"
  by (simp_all add: un_ok_def note_owner_may_differ_def un_chain_def fun_eq_iff)

datatype un_call = Inherit det_pid "det_pid option" | EnterNew det_pid | NoteOwner det_pid

fun un_step :: "un_call \<Rightarrow> user_namespaces \<Rightarrow> user_namespaces option" where
  "un_step (Inherit child creator) u = Some (un_inherit child creator u)"
| "un_step (EnterNew p) u = enter_new p u"
| "un_step (NoteOwner p) u = Some (note_owner_may_differ p u)"

fun un_pre :: "un_call \<Rightarrow> user_namespaces \<Rightarrow> bool" where
  "un_pre (EnterNew p) u \<longleftrightarrow> un_named u < u64_max"
| "un_pre _ u \<longleftrightarrow> True"

fun un_spec :: "un_call \<Rightarrow> (det_pid \<Rightarrow> nat list) \<times> nat \<Rightarrow> (det_pid \<Rightarrow> nat list) \<times> nat \<Rightarrow> bool" where
  "un_spec (Inherit child creator) (c, n) (c', n') \<longleftrightarrow>
     c' = c(child := (case creator of None \<Rightarrow> [] | Some p \<Rightarrow> c p)) \<and> n' = n"
| "un_spec (EnterNew p) (c, n) (c', n') \<longleftrightarrow> c' = c(p := c p @ [n + 1]) \<and> n' = n + 1"
| "un_spec (NoteOwner p) (c, n) (c', n') \<longleftrightarrow> c' = c \<and> n' = n"

interpretation un: protocol_object un_ok un_pre un_step "\<lambda>u. (un_chain u, un_named u)" un_spec
proof
  fix u c
  assume u: "un_ok u" and pre: "un_pre c u"
  have ok: "bm_ok (un_chains u)" using u by (simp add: un_ok_def)
  show "\<exists>u'. un_step c u = Some u' \<and> un_ok u' \<and> un_spec c (un_chain u, un_named u) (un_chain u', un_named u')"
  proof (cases c)
    case (Inherit child creator)
    then show ?thesis using un_inherit_ok [OF u] un_chain_inherit [OF ok]
      by (auto simp: fun_eq_iff un_inherit_def Let_def)
  next
    case (EnterNew p)
    then obtain u' where "enter_new p u = Some u'" "un_ok u'" using enter_new_ok [OF u] pre by auto
    then show ?thesis using EnterNew un_chain_enter [OF ok] by (auto simp: fun_eq_iff)
  next
    case (NoteOwner p)
    then show ?thesis using u by (simp add: note_owner_ok) (simp add: note_owner_may_differ_def)
  qed
qed

lemma starts_with_iff: "starts_with xs ys \<longleftrightarrow> ys = take (length ys) xs"
  by (induction xs ys rule: starts_with.induct) auto

text \<open>A process's own namespace, and whether one namespace is on a process's chain.\<close>

definition own_namespace :: "user_namespaces \<Rightarrow> det_pid \<Rightarrow> nat option" where
  "own_namespace u p = (if un_chain u p = [] then None else Some (last (un_chain u p)))"

definition lives_under :: "user_namespaces \<Rightarrow> det_pid \<Rightarrow> nat option \<Rightarrow> bool" where
  "lives_under u p n = (case n of None \<Rightarrow> True | Some n \<Rightarrow> n \<in> set (un_chain u p))"

lemma starts_with_own:
  assumes "un_ok u"
  shows "starts_with (un_chain u t) (un_chain u r) \<longleftrightarrow> lives_under u t (own_namespace u r)"
proof (cases "un_chain u r" rule: rev_cases)
  case Nil
  then show ?thesis by (simp add: lives_under_def own_namespace_def)
next
  case (snoc c n)
  obtain path where path: "\<And>p i. i < length (un_chain u p) \<Longrightarrow> take i (un_chain u p) = path (un_chain u p ! i)"
    using assms by (auto simp: un_ok_def)
  have c: "c = path n" using path [of "length c" r] snoc by simp
  have "starts_with (un_chain u t) (c @ [n]) \<longleftrightarrow> n \<in> set (un_chain u t)"
  proof
    assume "starts_with (un_chain u t) (c @ [n])"
    then have "n \<in> set (take (length (c @ [n])) (un_chain u t))" unfolding starts_with_iff by (metis in_set_conv_decomp)
    then show "n \<in> set (un_chain u t)" by (rule in_set_takeD)
  next
    assume "n \<in> set (un_chain u t)"
    then obtain i where i: "i < length (un_chain u t)" "un_chain u t ! i = n" by (auto simp: in_set_conv_nth)
    then have "take i (un_chain u t) = c" using path [OF i(1)] c by simp
    then have "take (Suc i) (un_chain u t) = c @ [n]" "i = length c" using i by (auto simp: take_Suc_conv_app_nth)
    then show "starts_with (un_chain u t) (c @ [n])" unfolding starts_with_iff by simp
  qed
  then show ?thesis using snoc by (simp add: lives_under_def own_namespace_def)
qed

subsection \<open>Properties\<close>

text \<open>
  C35: The two pid translations are inverse. After any history of records, refusals and forgotten tasks, a
  pid resolved in a namespace is the pid the task is shown under there; and when no namespace's name
  was taken over while tasks of the old one are recorded, every visible task is found by its pid.
\<close>

theorem pid_translations_inverse:
  assumes "legal_calls (pn_pre strict) pn_step cs pid_namespaces_default"
  shows "\<exists>ns. run_calls pn_step cs pid_namespaces_default = Some ns
    \<and> (\<forall>n t pid. pn_resolve ns n pid = Some t \<longrightarrow> localize ns n t = Some pid)
    \<and> (strict \<longrightarrow> (\<forall>n t pid. localize ns n t = Some pid \<longrightarrow> pn_resolve ns n pid = Some t))"
proof -
  obtain ns where run: "run_calls pn_step cs pid_namespaces_default = Some ns" and ns: "pn_sound ns" "strict \<longrightarrow> pn_exact ns"
    using pn.history_ok [OF pn_default_ok assms] by blast
  have "localize ns n t = Some pid" if "pn_resolve ns n pid = Some t" for n t pid
  proof (cases n)
    case (Some init)
    then show ?thesis using that pn_soundD [OF ns(1), of "(init, pid)" t] localize_iff [OF ns(1)] by (simp add: pn_resolve_def)
  qed (use that in \<open>simp add: pn_resolve_def localize_def\<close>)
  moreover have "pn_resolve ns n pid = Some t" if st: strict and loc: "localize ns n t = Some pid" for n t pid
  proof (cases n)
    case (Some init)
    then obtain lv where "bm_get (pn_levels ns) t = Some lv" "(init, pid) \<in> set lv" using loc localize_iff [OF ns(1)] by auto
    then show ?thesis using pn_exactD(1) ns(2) st Some by (simp add: pn_resolve_def)
  qed (use loc in \<open>simp add: pn_resolve_def localize_def\<close>)
  ultimately show ?thesis using run by blast
qed

theorem pid_translations_inverse_witness:
  "\<exists>ns. run_calls pn_step [PnRecord 7 [7] [7, 1], PnRecord 9 [7] [9, 2], PnRecord 9 [7] [9, 2]] pid_namespaces_default = Some ns
    \<and> (\<forall>n t pid. localize ns n t = Some pid \<longrightarrow> pn_resolve ns n pid = Some t)"
proof -
  have "legal_calls (pn_pre True) pn_step [PnRecord 7 [7] [7, 1], PnRecord 9 [7] [9, 2], PnRecord 9 [7] [9, 2]] pid_namespaces_default"
    by code_simp
  from pid_translations_inverse [OF this] show ?thesis by blast
qed

text \<open>
  C36: The relation between two user namespaces. After any history of process creations, new namespaces and
  owner notes, none of which panics while fewer than \<open>2^64\<close> namespaces are made, a task is in the
  reader's namespace exactly when their own namespaces are the same, and below it exactly when the
  reader's own namespace is another one on the task's chain.
\<close>

theorem user_namespace_relation_correct:
  assumes "legal_calls un_pre un_step cs user_namespaces_default"
  shows "\<exists>u. run_calls un_step cs user_namespaces_default = Some u
    \<and> spec_run un_spec cs (\<lambda>_. [], 0) (un_chain u, un_named u)
    \<and> (\<forall>r t. (un_relation u r t = Same \<longleftrightarrow> own_namespace u r = own_namespace u t)
        \<and> (un_relation u r t = Below \<longleftrightarrow> own_namespace u r \<noteq> own_namespace u t \<and> lives_under u t (own_namespace u r)))"
proof -
  have start: "un_ok user_namespaces_default" "un_chain user_namespaces_default = (\<lambda>_. [])" "un_named user_namespaces_default = 0"
    by (auto simp: un_ok_def user_namespaces_default_def un_chain_def bm_get_def fun_eq_iff)
  obtain u where u: "run_calls un_step cs user_namespaces_default = Some u" "un_ok u"
    "spec_run un_spec cs (\<lambda>_. [], 0) (un_chain u, un_named u)"
    using un.history_ok [OF start(1) assms] unfolding start(2,3) by blast
  have same: "un_chain u r = un_chain u t \<longleftrightarrow> own_namespace u r = own_namespace u t" for r t
  proof
    assume eq: "own_namespace u r = own_namespace u t"
    show "un_chain u r = un_chain u t"
    proof (cases "un_chain u r = []")
      case False
      then have "lives_under u t (own_namespace u r)" "lives_under u r (own_namespace u t)"
        using eq by (auto simp: lives_under_def own_namespace_def split: if_splits) (metis last_in_set)
      then have "starts_with (un_chain u t) (un_chain u r)" "starts_with (un_chain u r) (un_chain u t)"
        using starts_with_own [OF u(2)] by blast+
      then show ?thesis unfolding starts_with_iff by (metis nat_le_linear take_all take_all_iff)
    qed (use eq in \<open>auto simp: own_namespace_def split: if_splits\<close>)
  qed (simp add: own_namespace_def)
  have "(un_relation u r t = Same \<longleftrightarrow> own_namespace u r = own_namespace u t)
      \<and> (un_relation u r t = Below \<longleftrightarrow> own_namespace u r \<noteq> own_namespace u t \<and> lives_under u t (own_namespace u r))" for r t
    using same [of r t] starts_with_own [OF u(2), of t r] by (simp add: un_relation_def)
  with u show ?thesis by blast
qed

theorem user_namespace_relation_correct_witness:
  "\<exists>u. run_calls un_step [Inherit 1 None, Inherit 2 (Some 1), EnterNew 2, Inherit 3 (Some 2), NoteOwner 2] user_namespaces_default = Some u
    \<and> (un_relation u 2 3 = Same \<longleftrightarrow> own_namespace u 2 = own_namespace u 3)"
proof -
  have "legal_calls un_pre un_step [Inherit 1 None, Inherit 2 (Some 1), EnterNew 2, Inherit 3 (Some 2), NoteOwner 2] user_namespaces_default"
    by code_simp
  from user_namespace_relation_correct [OF this] show ?thesis by blast
qed

end
