(* ===== verification/Cpu_Set.thy ===== *)
theory Cpu_Set
  imports Namespaces Pedigree Logical_Time
begin

unbundle bit_operations_syntax

text \<open>
  Virtual CPUs: the 128-bit CPU masks (detcore/src/cpu_set.rs), the masks and homes the scheduler keeps
  for the tasks (detcore/src/scheduler.rs), and the system calls on them
  (detcore/src/syscalls/affinity.rs, and the handlers of syscalls/threads.rs and syscalls/misc.rs).

  A \<open>u32\<close> is a natural number; the multiplication and the addition that wrap are written out. The
  guest's memory belongs to Reverie: \<open>read_exact\<close> and \<open>write_exact\<close> are parameters, \<open>None\<close> where
  they fail with EFAULT. Whether Linux would find a task (\<open>task_is_found\<close>) is asked of tables that are
  not modelled, so the answer is an input.
\<close>

subsection \<open>CPU sets\<close>

datatype cpu_set = CpuSet (cpu_lo: "64 word") (cpu_hi: "64 word")

definition from_bits :: "128 word \<Rightarrow> cpu_set" where
  "from_bits b = CpuSet (ucast b) (ucast (drop_bit 64 b))"

definition cs_bits :: "cpu_set \<Rightarrow> 128 word" where
  "cs_bits c = push_bit 64 (ucast (cpu_hi c)) OR ucast (cpu_lo c)"

definition VIRTUAL_CPUSET_BYTES :: nat where
  "VIRTUAL_CPUSET_BYTES = 16"

definition cs_first :: "nat \<Rightarrow> cpu_set" where
  "cs_first n = from_bits (if n = 0 then 0 else if 128 \<le> n then - 1 else push_bit n 1 - 1)"

definition cs_only :: "nat \<Rightarrow> cpu_set" where
  "cs_only cpu = from_bits (if cpu < 128 then push_bit cpu 1 else 0)"

fun from_le_bytes :: "byte list \<Rightarrow> 128 word" where
  "from_le_bytes [] = 0"
| "from_le_bytes (b # bs) = ucast b OR push_bit 8 (from_le_bytes bs)"

definition from_mask_bytes :: "byte list \<Rightarrow> cpu_set" where
  "from_mask_bytes bytes =
     (let copied = min (length bytes) VIRTUAL_CPUSET_BYTES
      in from_bits (from_le_bytes (take copied bytes @ replicate (VIRTUAL_CPUSET_BYTES - copied) 0)))"

definition to_mask_bytes :: "cpu_set \<Rightarrow> byte list" where
  "to_mask_bytes c = map (\<lambda>i. ucast (drop_bit (8 * i) (cs_bits c))) [0..<VIRTUAL_CPUSET_BYTES]"

definition cs_intersection :: "cpu_set \<Rightarrow> cpu_set \<Rightarrow> cpu_set" where
  "cs_intersection a b = from_bits (cs_bits a AND cs_bits b)"

definition cs_is_empty :: "cpu_set \<Rightarrow> bool" where
  "cs_is_empty c \<longleftrightarrow> cs_bits c = 0"

definition cs_contains :: "cpu_set \<Rightarrow> nat \<Rightarrow> bool" where
  "cs_contains c cpu \<longleftrightarrow> \<not> cs_is_empty (cs_intersection c (cs_only cpu))"

definition cs_len :: "cpu_set \<Rightarrow> nat" where
  "cs_len c = length (filter (bit (cs_bits c)) [0..<128])"

definition cs_cpus :: "cpu_set \<Rightarrow> nat list" where
  "cs_cpus c = filter (cs_contains c) [0..<128]"

definition cs_nth :: "cpu_set \<Rightarrow> nat \<Rightarrow> nat option" where
  "cs_nth c index = (if index < length (cs_cpus c) then Some (cs_cpus c ! index) else None)"

subsection \<open>Printing\<close>

definition extend_ranges :: "nat \<Rightarrow> (nat \<times> nat) list \<Rightarrow> (nat \<times> nat) list" where
  "extend_ranges cpu ranges =
     (if ranges \<noteq> [] \<and> snd (last ranges) + 1 = cpu then butlast ranges @ [(fst (last ranges), cpu)]
      else ranges @ [(cpu, cpu)])"

definition cpu_ranges :: "cpu_set \<Rightarrow> (nat \<times> nat) list" where
  "cpu_ranges c = fold extend_ranges (cs_cpus c) []"

definition range_text :: "nat \<times> nat \<Rightarrow> string" where
  "range_text r = (if fst r = snd r then decimal (fst r) else decimal (fst r) @ ''-'' @ decimal (snd r))"

fun join_with :: "string \<Rightarrow> string list \<Rightarrow> string" where
  "join_with sep [] = []"
| "join_with sep [x] = x"
| "join_with sep (x # y # xs) = x @ sep @ join_with sep (y # xs)"

definition cs_list :: "cpu_set \<Rightarrow> string" where
  "cs_list c = join_with '','' (map range_text (cpu_ranges c))"

definition hex_digit :: "nat \<Rightarrow> char" where
  "hex_digit d = (if d < 10 then char_of (48 + d) else char_of (87 + d))"

fun hex :: "nat \<Rightarrow> string" where
  "hex n = (if n < 16 then [hex_digit n] else hex (n div 16) @ [hex_digit (n mod 16)])"

declare hex.simps [simp del]

text \<open>\<open>{value:0digits$x}\<close>: at least \<open>digits\<close> hexadecimal digits.\<close>

definition padded_hex :: "nat \<Rightarrow> nat \<Rightarrow> string" where
  "padded_hex digits v = replicate (digits - length (hex v)) CHR ''0'' @ hex v"

definition div_ceil :: "nat \<Rightarrow> nat \<Rightarrow> nat" where
  "div_ceil a b = (a + b - 1) div b"

definition mask_group :: "cpu_set \<Rightarrow> nat \<Rightarrow> nat \<Rightarrow> 32 word" where
  "mask_group c low width = ucast (drop_bit low (cs_bits c)) AND drop_bit (32 - width) (- 1)"

text \<open>The loop of \<open>mask\<close> with \<open>low = 32 * groups\<close>.\<close>

fun mask_groups :: "cpu_set \<Rightarrow> nat \<Rightarrow> nat \<Rightarrow> string list" where
  "mask_groups c 0 width = []"
| "mask_groups c (Suc groups) width =
     padded_hex (div_ceil width 4) (unat (mask_group c (32 * groups) width)) # mask_groups c groups 32"

definition cs_mask :: "cpu_set \<Rightarrow> nat \<Rightarrow> string" where
  "cs_mask c bits =
     (let bits = min (max bits 1) 128
      in join_with '','' (mask_groups c (div_ceil bits 32) (if bits mod 32 = 0 then 32 else bits mod 32)))"

subsection \<open>The CPUs of a task\<close>

record task_cpus =
  tc_mask :: "cpu_set option"
  tc_home :: nat

definition allowed :: "task_cpus \<Rightarrow> nat \<Rightarrow> cpu_set" where
  "allowed tc cpus = (case tc_mask tc of Some m \<Rightarrow> m | None \<Rightarrow> cs_first cpus)"

definition current_cpu :: "task_cpus \<Rightarrow> nat \<Rightarrow> nat" where
  "current_cpu tc cpus =
     (let a = allowed tc cpus; own = tc_home tc mod max cpus 1
      in if cs_contains a own then own
         else (case cs_nth a (tc_home tc mod max (cs_len a) 1) of Some cpu \<Rightarrow> cpu | None \<Rightarrow> own))"

datatype errno = EINVAL | ESRCH | EFAULT

text \<open>A refused call ends as \<open>refuse_nested_pid\<close> decides; the reason it is given is kept.\<close>

datatype call_error = Errno errno | NestedPidRefused string

datatype task_affinity = NoSuchTask | TaskOf task_cpus

definition affinity_cpus :: "task_affinity \<Rightarrow> nat \<Rightarrow> call_error + cpu_set" where
  "affinity_cpus a cpus = (case a of NoSuchTask \<Rightarrow> Inl (Errno ESRCH) | TaskOf tc \<Rightarrow> Inr (allowed tc cpus))"

definition affinity_current :: "task_affinity \<Rightarrow> nat \<Rightarrow> call_error + nat" where
  "affinity_current a cpus = (case a of NoSuchTask \<Rightarrow> Inl (Errno ESRCH) | TaskOf tc \<Rightarrow> Inr (current_cpu tc cpus))"

subsection \<open>The scheduler's tables\<close>

record cpu_tree =
  cpu_affinities :: "det_tid \<rightharpoonup> cpu_set"
  cpu_homes :: "det_tid \<rightharpoonup> nat"
  cpu_homes_given :: nat

definition cpu_tree_default :: cpu_tree where
  "cpu_tree_default = \<lparr>cpu_affinities = Map.empty, cpu_homes = Map.empty, cpu_homes_given = 0\<rparr>"

text \<open>The part of \<open>add_child_with_wait_metadata\<close> that places the new task.\<close>

definition place_child :: "det_tid \<Rightarrow> det_tid \<Rightarrow> cpu_tree \<Rightarrow> cpu_tree" where
  "place_child parent child t =
     t\<lparr>cpu_affinities := (cpu_affinities t)(child := if parent \<noteq> child then cpu_affinities t parent else None),
       cpu_homes := (cpu_homes t)(child \<mapsto> cpu_homes_given t),
       cpu_homes_given := (cpu_homes_given t + 1) mod 2 ^ 32\<rparr>"

text \<open>The part of \<open>transfer_exec_parent_death\<close> that moves them to the leader's tid.\<close>

definition transfer_exec_cpus :: "det_tid \<Rightarrow> det_tid \<Rightarrow> cpu_tree \<Rightarrow> cpu_tree" where
  "transfer_exec_cpus former leader t =
     (if former = leader then t
      else let moved = cpu_affinities t former; home = cpu_homes t former;
               t = t\<lparr>cpu_affinities := (cpu_affinities t)(former := None, leader := moved)\<rparr>
           in case home of
                None \<Rightarrow> t
              | Some h \<Rightarrow> t\<lparr>cpu_homes := (cpu_homes t)(former := None, leader \<mapsto> h)\<rparr>)"

definition task_cpus_of :: "cpu_tree \<Rightarrow> det_tid \<Rightarrow> task_cpus" where
  "task_cpus_of t tid =
     \<lparr>tc_mask = cpu_affinities t tid, tc_home = (case cpu_homes t tid of Some h \<Rightarrow> h | None \<Rightarrow> 0)\<rparr>"

definition cpu_affinity :: "(det_tid \<Rightarrow> bool) \<Rightarrow> cpu_tree \<Rightarrow> det_tid \<Rightarrow> task_affinity" where
  "cpu_affinity task_is_found t tid = (if task_is_found tid then TaskOf (task_cpus_of t tid) else NoSuchTask)"

definition set_cpu_affinity ::
  "(det_tid \<Rightarrow> bool) \<Rightarrow> det_tid \<Rightarrow> cpu_set \<Rightarrow> cpu_tree \<Rightarrow> task_affinity \<times> cpu_tree" where
  "set_cpu_affinity task_is_found tid cpus t =
     (if \<not> task_is_found tid then (NoSuchTask, t)
      else let t = t\<lparr>cpu_affinities := (cpu_affinities t)(tid \<mapsto> cpus)\<rparr>
           in (cpu_affinity task_is_found t tid, t))"

subsection \<open>The task a pid names\<close>

text \<open>
  What \<open>Scheduler::guest_pid\<close> reads: the PID namespaces, the process of a thread, the inits, the live
  threads of a process, and the signals a process catches, read from the kernel.
\<close>

record pid_lookup =
  pl_namespaces :: pid_namespaces
  thread_to_leader :: "det_tid \<rightharpoonup> det_pid"
  pid_namespace_inits :: "det_pid list"
  process_signal_targets :: "det_pid \<Rightarrow> det_tid list"
  read_kernel_signal_state :: "det_pid \<Rightarrow> det_tid \<Rightarrow> string + nat"

definition guest_pid :: "pid_lookup \<Rightarrow> det_tid \<Rightarrow> int \<Rightarrow> guest_pid_answer" where
  "guest_pid pl caller pid =
     (let answer = resolve_for (pl_namespaces pl) caller pid in
      case answer of
        Task task _ \<Rightarrow>
          (let process = (case thread_to_leader pl task of Some p \<Rightarrow> p | None \<Rightarrow> task) in
           if namespace_of (pl_namespaces pl) caller \<noteq> Some process \<or> process \<notin> set (pid_namespace_inits pl)
           then answer
           else case process_signal_targets pl process of
               [] \<Rightarrow> answer
             | thread # _ \<Rightarrow> (case read_kernel_signal_state pl process thread of
                   Inr caught \<Rightarrow> Task task (Some caught)
                 | Inl e \<Rightarrow> Untranslatable (''cannot read the dispositions of PID namespace init ''
                     @ decimal (nat process) @ '': '' @ e)))
      | _ \<Rightarrow> answer)"

subsection \<open>The system calls\<close>

record affinity_env =
  env_caller :: det_tid
  nested_pid_namespace :: bool
  env_pids :: pid_lookup
  task_is_found :: "det_tid \<Rightarrow> bool"

record affinity_call =
  call_pid :: int
  call_len :: nat
  call_mask :: "nat option"

definition getaffinity_length_is_valid :: "nat \<Rightarrow> nat \<Rightarrow> bool" where
  "getaffinity_length_is_valid len cpus \<longleftrightarrow> cpus \<le> (len * 8) mod 2 ^ 32 \<and> len mod 8 = 0"

definition affinity_target :: "affinity_env \<Rightarrow> int \<Rightarrow> call_error + det_tid" where
  "affinity_target env pid =
     (if pid = 0 then Inr (env_caller env)
      else if pid < 0 then Inl (Errno ESRCH)
      else if \<not> nested_pid_namespace env then Inr pid
      else case guest_pid (env_pids env) (env_caller env) pid of
          Task task _ \<Rightarrow> Inr task
        | NoSuchPid \<Rightarrow> Inl (Errno ESRCH)
        | Untranslatable reason \<Rightarrow> Inl (NestedPidRefused reason))"

definition virtual_sched_getaffinity ::
  "(nat \<Rightarrow> byte list \<Rightarrow> 'm \<Rightarrow> 'm option) \<Rightarrow> affinity_env \<Rightarrow> cpu_tree \<Rightarrow> affinity_call \<Rightarrow> nat \<Rightarrow> 'm
   \<Rightarrow> (call_error + nat) \<times> 'm" where
  "virtual_sched_getaffinity write_exact env t call cpus mem =
     (if \<not> getaffinity_length_is_valid (call_len call) cpus then (Inl (Errno EINVAL), mem)
      else case affinity_target env (call_pid call) of
        Inl e \<Rightarrow> (Inl e, mem)
      | Inr target \<Rightarrow> (case affinity_cpus (cpu_affinity (task_is_found env) t target) cpus of
            Inl e \<Rightarrow> (Inl e, mem)
          | Inr affinity \<Rightarrow>
              (let copied = min (call_len call) VIRTUAL_CPUSET_BYTES in
               case call_mask call of
                 None \<Rightarrow> (Inl (Errno EFAULT), mem)
               | Some addr \<Rightarrow> (case write_exact addr (take copied (to_mask_bytes affinity)) mem of
                     None \<Rightarrow> (Inl (Errno EFAULT), mem)
                   | Some mem' \<Rightarrow> (Inr copied, mem')))))"

text \<open>The mask a call names, on a buffer of zeros; nothing is read for an empty one.\<close>

definition read_mask :: "('m \<Rightarrow> nat \<Rightarrow> nat \<Rightarrow> byte list option) \<Rightarrow> affinity_call \<Rightarrow> 'm \<Rightarrow> byte list option" where
  "read_mask read_exact call mem =
     (let len = min (call_len call) VIRTUAL_CPUSET_BYTES in
      if 0 < len
      then do {
        addr \<leftarrow> call_mask call;
        bytes \<leftarrow> read_exact mem addr len;
        Some (bytes @ replicate (VIRTUAL_CPUSET_BYTES - len) 0)
      }
      else Some (replicate VIRTUAL_CPUSET_BYTES 0))"

definition virtual_sched_setaffinity ::
  "('m \<Rightarrow> nat \<Rightarrow> nat \<Rightarrow> byte list option) \<Rightarrow> affinity_env \<Rightarrow> affinity_call \<Rightarrow> nat \<Rightarrow> 'm \<Rightarrow> cpu_tree
   \<Rightarrow> (call_error + nat) \<times> cpu_tree" where
  "virtual_sched_setaffinity read_exact env call cpus mem t =
     (case read_mask read_exact call mem of
        None \<Rightarrow> (Inl (Errno EFAULT), t)
      | Some bytes \<Rightarrow> (case affinity_target env (call_pid call) of
            Inl e \<Rightarrow> (Inl e, t)
          | Inr target \<Rightarrow>
              (let kept = cs_intersection (from_mask_bytes bytes) (cs_first cpus) in
               if cs_is_empty kept
               then (case affinity_cpus (cpu_affinity (task_is_found env) t target) cpus of
                       Inl e \<Rightarrow> (Inl e, t)
                     | Inr _ \<Rightarrow> (Inl (Errno EINVAL), t))
               else (case set_cpu_affinity (task_is_found env) target kept t of
                       (a, t) \<Rightarrow> (case affinity_cpus a cpus of Inl e \<Rightarrow> (Inl e, t) | Inr _ \<Rightarrow> (Inr 0, t))))))"

definition virtual_cpu :: "affinity_env \<Rightarrow> cpu_tree \<Rightarrow> nat \<Rightarrow> nat" where
  "virtual_cpu env t cpus =
     (case affinity_current (cpu_affinity (task_is_found env) t (env_caller env)) cpus of Inr cpu \<Rightarrow> cpu | Inl _ \<Rightarrow> 0)"

text \<open>The handlers: without \<open>--virtual-cpus\<close> the guest has one CPU and no mask is kept.\<close>

definition handle_sched_setaffinity ::
  "nat option \<Rightarrow> ('m \<Rightarrow> nat \<Rightarrow> nat \<Rightarrow> byte list option) \<Rightarrow> affinity_env \<Rightarrow> affinity_call \<Rightarrow> 'm \<Rightarrow> cpu_tree
   \<Rightarrow> (call_error + nat) \<times> cpu_tree" where
  "handle_sched_setaffinity virtual_cpus read_exact env call mem t =
     (case virtual_cpus of
        Some cpus \<Rightarrow> virtual_sched_setaffinity read_exact env call cpus mem t
      | None \<Rightarrow>
          if call_len call = 0 then (Inl (Errno EINVAL), t)
          else case call_mask call \<bind> (\<lambda>addr. read_exact mem addr (min (call_len call) VIRTUAL_CPUSET_BYTES)) of
              None \<Rightarrow> (Inl (Errno EFAULT), t)
            | Some _ \<Rightarrow> (Inr 0, t))"

definition handle_sched_getaffinity ::
  "nat option \<Rightarrow> (nat \<Rightarrow> byte list \<Rightarrow> 'm \<Rightarrow> 'm option) \<Rightarrow> affinity_env \<Rightarrow> cpu_tree \<Rightarrow> affinity_call \<Rightarrow> 'm
   \<Rightarrow> (call_error + nat) \<times> 'm" where
  "handle_sched_getaffinity virtual_cpus write_exact env t call mem =
     (case virtual_cpus of
        Some cpus \<Rightarrow> virtual_sched_getaffinity write_exact env t call cpus mem
      | None \<Rightarrow>
          if call_len call = 0 \<or> call_len call mod 8 \<noteq> 0 then (Inl (Errno EINVAL), mem)
          else (let copied = min (call_len call) VIRTUAL_CPUSET_BYTES in
            case call_mask call \<bind> (\<lambda>addr. write_exact addr (take copied (1 # replicate 15 0)) mem) of
              None \<Rightarrow> (Inl (Errno EFAULT), mem)
            | Some mem' \<Rightarrow> (Inr copied, mem')))"

definition handle_getcpu ::
  "nat option \<Rightarrow> (nat \<Rightarrow> byte list \<Rightarrow> 'm \<Rightarrow> 'm option) \<Rightarrow> affinity_env \<Rightarrow> cpu_tree \<Rightarrow> nat option \<Rightarrow> nat option \<Rightarrow> 'm
   \<Rightarrow> (call_error + nat) \<times> 'm" where
  "handle_getcpu virtual_cpus write_exact env t cpu_addr node_addr mem =
     (let current = (case virtual_cpus of Some cpus \<Rightarrow> virtual_cpu env t cpus | None \<Rightarrow> 0) in
      case (case cpu_addr of None \<Rightarrow> Some mem | Some a \<Rightarrow> write_exact a (to_le_bytes 4 current) mem) of
        None \<Rightarrow> (Inl (Errno EFAULT), mem)
      | Some mem \<Rightarrow>
          (case (case node_addr of None \<Rightarrow> Some mem | Some a \<Rightarrow> write_exact a (to_le_bytes 4 0) mem) of
             None \<Rightarrow> (Inl (Errno EFAULT), mem)
           | Some mem \<Rightarrow> (Inr 0, mem)))"

subsection \<open>Sets as sets\<close>

text \<open>The CPUs a mask names.\<close>

definition cpu_elems :: "cpu_set \<Rightarrow> nat set" where
  "cpu_elems c = {n. n < 128 \<and> bit (cs_bits c) n}"

lemma bits_from_bits [simp]: "cs_bits (from_bits b) = b"
  by (rule bit_word_eqI) (auto simp: cs_bits_def from_bits_def bit_simps)

lemma from_bits_bits [simp]: "from_bits (cs_bits c) = c"
proof -
  have "\<not> bit (cpu_lo c) (64 + n)" for n using bit_imp_le_length [of "cpu_lo c" "64 + n"] by auto
  then have "ucast (cs_bits c) = cpu_lo c" "ucast (drop_bit 64 (cs_bits c)) = cpu_hi c"
    by (auto intro!: bit_word_eqI simp: cs_bits_def bit_simps)
  then show ?thesis by (cases c) (simp add: from_bits_def)
qed

lemma cpu_elems_from_bits: "cpu_elems (from_bits b) = {n. n < 128 \<and> bit b n}"
  by (simp add: cpu_elems_def)

lemma cpu_elems_inject: "cpu_elems a = cpu_elems b \<longleftrightarrow> a = b"
proof
  assume eq: "cpu_elems a = cpu_elems b"
  have "cs_bits a = cs_bits b"
    by (rule bit_word_eqI) (use eq in \<open>auto simp: cpu_elems_def set_eq_iff\<close>)
  then show "a = b" by (metis from_bits_bits)
qed simp

lemma cpu_elems_only: "cpu_elems (cs_only cpu) = (if cpu < 128 then {cpu} else {})"
  by (auto simp: cs_only_def cpu_elems_from_bits bit_simps)

lemma cpu_elems_first: "cpu_elems (cs_first n) = {..<min n 128}"
  by (auto simp: cs_first_def cpu_elems_from_bits bit_simps push_bit_of_1 simp flip: mask_eq_exp_minus_1)

lemma cpu_elems_intersection [simp]: "cpu_elems (cs_intersection a b) = cpu_elems a \<inter> cpu_elems b"
  by (auto simp: cs_intersection_def cpu_elems_def bit_simps)

lemma cs_is_empty_iff: "cs_is_empty c \<longleftrightarrow> cpu_elems c = {}"
proof
  assume "cpu_elems c = {}"
  then have "cpu_elems c = cpu_elems (from_bits 0)" by (simp add: cpu_elems_from_bits)
  then show "cs_is_empty c" by (simp add: cpu_elems_inject cs_is_empty_def)
qed (simp add: cs_is_empty_def cpu_elems_def)

lemma cs_contains_iff [simp]: "cs_contains c cpu \<longleftrightarrow> cpu \<in> cpu_elems c"
  by (auto simp: cs_contains_def cs_is_empty_iff cpu_elems_only) (simp add: cpu_elems_def)

lemma finite_cpu_elems [simp]: "finite (cpu_elems c)"
  by (simp add: cpu_elems_def)

lemma cs_cpus_eq: "cs_cpus c = sorted_list_of_set (cpu_elems c)"
proof (rule sorted_distinct_set_unique)
  show "set (cs_cpus c) = set (sorted_list_of_set (cpu_elems c))"
    by (auto simp: cs_cpus_def simp del: upt_rec_numeral) (simp add: cpu_elems_def)
qed (auto simp: cs_cpus_def intro: sorted_wrt_filter simp del: upt_rec_numeral)

lemma cs_len_eq: "cs_len c = card (cpu_elems c)"
proof -
  have "filter (bit (cs_bits c)) [0..<128] = cs_cpus c"
    unfolding cs_cpus_def by (rule filter_cong) (auto simp: cpu_elems_def simp del: upt_rec_numeral)
  then show ?thesis by (simp add: cs_len_def cs_cpus_eq del: upt_rec_numeral)
qed

lemma cs_nth_elem:
  assumes "k < cs_len c"
  obtains cpu where "cs_nth c k = Some cpu" "cpu \<in> cpu_elems c"
proof -
  have k: "k < length (cs_cpus c)" using assms by (simp add: cs_len_eq cs_cpus_eq)
  then have "cs_cpus c ! k \<in> cpu_elems c" using nth_mem [OF k] by (simp add: cs_cpus_eq)
  then show thesis using that k by (simp add: cs_nth_def)
qed

text \<open>The CPU a task runs on is one it may run on.\<close>

lemma current_cpu_allowed:
  assumes "\<not> cs_is_empty (allowed tc cpus)"
  shows "current_cpu tc cpus \<in> cpu_elems (allowed tc cpus)"
proof -
  have pos: "0 < cs_len (allowed tc cpus)" using assms by (simp add: cs_is_empty_iff cs_len_eq card_gt_0_iff)
  then have lt: "tc_home tc mod max (cs_len (allowed tc cpus)) 1 < cs_len (allowed tc cpus)" by simp
  obtain cpu where "cs_nth (allowed tc cpus) (tc_home tc mod max (cs_len (allowed tc cpus)) 1) = Some cpu"
    "cpu \<in> cpu_elems (allowed tc cpus)"
    by (rule cs_nth_elem [OF lt])
  then show ?thesis by (simp add: current_cpu_def Let_def)
qed

subsection \<open>Masks in memory\<close>

lemma bit_from_le_bytes:
  "bit (from_le_bytes bs) n \<longleftrightarrow> n < 128 \<and> n div 8 < length bs \<and> bit (bs ! (n div 8)) (n mod 8)"
proof (induction bs arbitrary: n)
  case (Cons b bs)
  show ?case
  proof (cases "n < 8")
    case False
    then have "n div 8 = Suc ((n - 8) div 8)" "n mod 8 = (n - 8) mod 8" by (simp_all add: le_div_geq le_mod_geq)
    then show ?thesis using False Cons [of "n - 8"] by (auto simp: bit_simps dest: bit_imp_le_length)
  qed (auto simp: bit_simps)
qed simp

lemma cpu_elems_from_mask_bytes:
  "cpu_elems (from_mask_bytes bs) = {n. n < 128 \<and> n div 8 < length bs \<and> bit (bs ! (n div 8)) (n mod 8)}"
proof -
  have d: "n div 8 < 16" if "n < 128" for n :: nat using that by (simp add: div_less_iff_less_mult)
  have "bit ((take k bs @ replicate (16 - k) 0) ! i) j \<longleftrightarrow> i < length bs \<and> bit (bs ! i) j"
    if "i < 16" "k = min (length bs) 16" for i j k
    using that by (auto simp: nth_append)
  then show ?thesis
    using d by (auto simp: from_mask_bytes_def cpu_elems_from_bits bit_from_le_bytes VIRTUAL_CPUSET_BYTES_def Let_def)
qed

lemma length_to_mask_bytes [simp]: "length (to_mask_bytes c) = 16"
  by (simp add: to_mask_bytes_def VIRTUAL_CPUSET_BYTES_def del: upt_rec_numeral)

lemma bit_to_mask_bytes: "i < 16 \<Longrightarrow> j < 8 \<Longrightarrow> bit (to_mask_bytes c ! i) j \<longleftrightarrow> 8 * i + j \<in> cpu_elems c"
  by (auto simp: to_mask_bytes_def VIRTUAL_CPUSET_BYTES_def cpu_elems_def bit_simps simp del: upt_rec_numeral)

text \<open>The first bytes of a mask name its CPUs below their end.\<close>

lemma from_to_mask_bytes_take:
  assumes "k \<le> 16"
  shows "cpu_elems (from_mask_bytes (take k (to_mask_bytes c))) = cpu_elems c \<inter> {..<8 * k}"
proof -
  have "n div 8 < k \<longleftrightarrow> n < 8 * k" for n :: nat by (simp add: div_less_iff_less_mult mult.commute)
  moreover have "bit (to_mask_bytes c ! (n div 8)) (n mod 8) \<longleftrightarrow> n \<in> cpu_elems c" if "n < 128" for n
    using bit_to_mask_bytes [of "n div 8" "n mod 8" c] that by (simp add: div_less_iff_less_mult)
  ultimately show ?thesis using assms unfolding cpu_elems_from_mask_bytes by (auto simp: cpu_elems_def)
qed

lemma from_to_mask_bytes [simp]: "from_mask_bytes (to_mask_bytes c) = c"
proof -
  have "cpu_elems c \<inter> {..<128} = cpu_elems c" by (auto simp: cpu_elems_def)
  then show ?thesis using from_to_mask_bytes_take [of 16 c] by (simp add: cpu_elems_inject)
qed

text \<open>Every length \<open>sched_getaffinity\<close> accepts, the wrapped ones included, covers the machine's CPUs.\<close>

lemma valid_length_covers:
  assumes "getaffinity_length_is_valid len cpus" "cpus \<le> 128"
  shows "cpus \<le> 8 * min len 16"
proof (cases "len \<le> 16")
  case True
  then show ?thesis using assms by (simp add: getaffinity_length_is_valid_def)
qed (use assms in simp)

subsection \<open>The printed forms\<close>

text \<open>Ascending ranges with a gap between any two, covering a set.\<close>

definition ranges_of :: "nat set \<Rightarrow> (nat \<times> nat) list \<Rightarrow> bool" where
  "ranges_of A rs \<longleftrightarrow> (\<Union>r \<in> set rs. {fst r..snd r}) = A
     \<and> sorted_wrt (\<lambda>r r'. snd r + 1 < fst r') rs \<and> (\<forall>r \<in> set rs. fst r \<le> snd r)"

lemma ranges_of_extend:
  assumes "ranges_of A rs" "\<forall>x \<in> A. x < cpu"
  shows "ranges_of (insert cpu A) (extend_ranges cpu rs)"
proof (cases rs rule: rev_cases)
  case Nil
  then show ?thesis using assms by (auto simp: ranges_of_def extend_ranges_def)
next
  case (snoc q r)
  obtain a b where r: "r = (a, b)" by (cases r)
  have rs: "rs = q @ [(a, b)]" "a \<le> b" and A: "A = (\<Union>r \<in> set q. {fst r..snd r}) \<union> {a..b}"
    and q: "sorted_wrt (\<lambda>r r'. snd r + 1 < fst r') q" "\<forall>r \<in> set q. fst r \<le> snd r" "\<forall>r \<in> set q. snd r + 1 < a"
    using assms(1) snoc r by (auto simp: ranges_of_def sorted_wrt_append)
  have b: "b < cpu" using assms(2) rs(2) A by simp
  show ?thesis
  proof (cases "b + 1 = cpu")
    case True
    then have "{a..cpu} = insert cpu {a..b}" using rs(2) by auto
    then have "insert cpu A = (\<Union>r \<in> set q. {fst r..snd r}) \<union> {a..cpu}" using A by blast
    then show ?thesis using True rs q by (simp add: ranges_of_def extend_ranges_def sorted_wrt_append Un_commute)
  next
    case False
    have "insert cpu A = (\<Union>r \<in> set q. {fst r..snd r}) \<union> {a..b} \<union> {cpu..cpu}" using A by simp
    moreover have "\<forall>r \<in> set q. snd r + 1 < cpu" using q(3) rs(2) b by fastforce
    ultimately show ?thesis using False rs q b
      by (simp add: ranges_of_def extend_ranges_def sorted_wrt_append Un_commute insert_commute)
  qed
qed

text \<open>A CPU list names exactly the set's CPUs, in ascending ranges that cannot be joined.\<close>

lemma cpu_ranges_correct: "ranges_of (cpu_elems c) (cpu_ranges c)"
proof -
  have "ranges_of (set xs) (fold extend_ranges xs [])" if "sorted_wrt (<) xs" for xs :: "nat list"
    using that
  proof (induction xs rule: rev_induct)
    case (snoc x xs)
    then show ?case using ranges_of_extend [of "set xs" "fold extend_ranges xs []" x] by (simp add: sorted_wrt_append)
  qed (simp add: ranges_of_def)
  moreover have "sorted_wrt (<) (cs_cpus c)" "set (cs_cpus c) = cpu_elems c" by (simp_all add: cs_cpus_eq)
  ultimately show ?thesis unfolding cpu_ranges_def by metis
qed

lemma bit_mask_group:
  assumes "width \<le> 32"
  shows "bit (mask_group c low width) j \<longleftrightarrow> j < width \<and> low + j \<in> cpu_elems c"
  using assms by (auto simp: mask_group_def cpu_elems_def bit_simps dest: bit_imp_le_length)

lemma mask_group_lt:
  assumes "width \<le> 32"
  shows "unat (mask_group c low width) < 2 ^ width"
proof -
  have "mask_group c low width = take_bit width (mask_group c low width)"
    by (rule bit_word_eqI) (auto simp: bit_simps bit_mask_group [OF assms])
  then have "unat (mask_group c low width) = take_bit width (unat (mask_group c low width))"
    by (metis unsigned_take_bit_eq)
  then show ?thesis by (metis take_bit_nat_less_exp)
qed

lemma length_hex: "0 < d \<Longrightarrow> v < 16 ^ d \<Longrightarrow> length (hex v) \<le> d"
proof (induction v arbitrary: d rule: hex.induct)
  case (1 v)
  show ?case
  proof (cases "v < 16")
    case False
    then obtain e where d: "d = Suc e" "0 < e" using 1(2,3) by (cases d; cases "d - 1") auto
    then have "v div 16 < 16 ^ e" using 1(3) by (simp add: div_less_iff_less_mult mult.commute)
    then show ?thesis using 1(1) [OF False d(2)] d False by (subst hex.simps) simp
  qed (use 1 in \<open>subst hex.simps, simp\<close>)
qed

text \<open>Each group of a CPU mask has exactly the digits of its width.\<close>

lemma mask_group_digits:
  assumes "0 < width" "width \<le> 32"
  shows "length (padded_hex (div_ceil width 4) (unat (mask_group c low width))) = div_ceil width 4"
proof -
  have "width \<le> 4 * div_ceil width 4" unfolding div_ceil_def by linarith
  then have "(2::nat) ^ width \<le> 2 ^ (4 * div_ceil width 4)" by (intro power_increasing) auto
  also have "\<dots> = 16 ^ div_ceil width 4" by (simp add: power_mult)
  finally have "unat (mask_group c low width) < 16 ^ div_ceil width 4"
    using mask_group_lt [OF assms(2), of c low] by linarith
  moreover have "0 < div_ceil width 4" using assms(1) by (simp add: div_ceil_def)
  ultimately show ?thesis using length_hex [of "div_ceil width 4"] by (simp add: padded_hex_def)
qed

subsection \<open>Histories of a run\<close>

text \<open>What places and moves tasks in a run with \<open>--virtual-cpus\<close>: creations, execs and the system call.\<close>

datatype 'm cpu_call =
  NewTask det_tid det_tid
| ExecTask det_tid det_tid
| SetAffinity affinity_env affinity_call 'm

fun cpu_step ::
  "('m \<Rightarrow> nat \<Rightarrow> nat \<Rightarrow> byte list option) \<Rightarrow> nat \<Rightarrow> 'm cpu_call \<Rightarrow> cpu_tree \<Rightarrow> cpu_tree option" where
  "cpu_step read_exact cpus (NewTask parent child) t = Some (place_child parent child t)"
| "cpu_step read_exact cpus (ExecTask former leader) t = Some (transfer_exec_cpus former leader t)"
| "cpu_step read_exact cpus (SetAffinity env call mem) t =
     Some (snd (handle_sched_setaffinity (Some cpus) read_exact env call mem t))"

text \<open>What a client sees: the CPUs each task may run on.\<close>

definition cpu_view :: "nat \<Rightarrow> cpu_tree \<Rightarrow> det_tid \<Rightarrow> nat set" where
  "cpu_view cpus t tid = cpu_elems (allowed (task_cpus_of t tid) cpus)"

text \<open>The task and the CPUs a \<open>sched_setaffinity\<close> that succeeds is about.\<close>

definition requested ::
  "('m \<Rightarrow> nat \<Rightarrow> nat \<Rightarrow> byte list option) \<Rightarrow> nat \<Rightarrow> affinity_env \<Rightarrow> affinity_call \<Rightarrow> 'm \<Rightarrow> (det_tid \<times> nat set) option" where
  "requested read_exact cpus env call mem =
     (case (read_mask read_exact call mem, affinity_target env (call_pid call)) of
        (Some bytes, Inr target) \<Rightarrow>
          (let kept = {n. n < cpus \<and> n div 8 < length bytes \<and> bit (bytes ! (n div 8)) (n mod 8)}
           in if task_is_found env target \<and> kept \<noteq> {} then Some (target, kept) else None)
      | _ \<Rightarrow> None)"

fun cpu_spec ::
  "('m \<Rightarrow> nat \<Rightarrow> nat \<Rightarrow> byte list option) \<Rightarrow> nat \<Rightarrow> 'm cpu_call \<Rightarrow> (det_tid \<Rightarrow> nat set) \<Rightarrow> (det_tid \<Rightarrow> nat set) \<Rightarrow> bool"
where
  "cpu_spec read_exact cpus (NewTask parent child) v v' \<longleftrightarrow>
     v' = v(child := if parent = child then {..<cpus} else v parent)"
| "cpu_spec read_exact cpus (ExecTask former leader) v v' \<longleftrightarrow>
     v' = (if former = leader then v else v(former := {..<cpus}, leader := v former))"
| "cpu_spec read_exact cpus (SetAffinity env call mem) v v' \<longleftrightarrow>
     v' = (case requested read_exact cpus env call mem of None \<Rightarrow> v | Some (target, kept) \<Rightarrow> v(target := kept))"

text \<open>Every recorded mask names a CPU, and only CPUs the machine has.\<close>

definition cpu_ok :: "nat \<Rightarrow> cpu_tree \<Rightarrow> bool" where
  "cpu_ok cpus t \<longleftrightarrow> 1 \<le> cpus \<and> cpus \<le> 128
     \<and> (\<forall>tid c. cpu_affinities t tid = Some c \<longrightarrow> cpu_elems c \<noteq> {} \<and> cpu_elems c \<subseteq> {..<cpus})"

lemma cpu_view_eq:
  "cpus \<le> 128 \<Longrightarrow> cpu_view cpus t tid = (case cpu_affinities t tid of Some c \<Rightarrow> cpu_elems c | None \<Rightarrow> {..<cpus})"
  by (simp add: cpu_view_def allowed_def task_cpus_of_def cpu_elems_first min_absorb1 split: option.split)

lemma cpu_ok_view:
  assumes "cpu_ok cpus t"
  shows "cpu_view cpus t tid \<noteq> {}" "cpu_view cpus t tid \<subseteq> {..<cpus}"
  using assms by (auto simp: cpu_ok_def cpu_view_eq lessThan_empty_iff split: option.split)

text \<open>The outcome of \<open>sched_setaffinity\<close>, and what it records.\<close>

lemma setaffinity_outcome:
  assumes "cpus \<le> 128" "handle_sched_setaffinity (Some cpus) read_exact env call mem t = (res, t')"
  shows "case requested read_exact cpus env call mem of
      None \<Rightarrow> (\<exists>e. res = Inl e) \<and> t' = t
    | Some (target, kept) \<Rightarrow> res = Inr 0
        \<and> (\<exists>c. cpu_elems c = kept \<and> kept \<noteq> {} \<and> kept \<subseteq> {..<cpus}
             \<and> t' = t\<lparr>cpu_affinities := (cpu_affinities t)(target \<mapsto> c)\<rparr>)"
proof (cases "read_mask read_exact call mem")
  case None
  then show ?thesis using assms(2)
    by (auto simp: handle_sched_setaffinity_def virtual_sched_setaffinity_def requested_def)
next
  case bytes: (Some bytes)
  show ?thesis
  proof (cases "affinity_target env (call_pid call)")
    case (Inl e)
    then show ?thesis using assms(2) bytes
      by (auto simp: handle_sched_setaffinity_def virtual_sched_setaffinity_def requested_def)
  next
    case (Inr target)
    define c where "c = cs_intersection (from_mask_bytes bytes) (cs_first cpus)"
    define kept where "kept = {n. n < cpus \<and> n div 8 < length bytes \<and> bit (bytes ! (n div 8)) (n mod 8)}"
    have c: "cpu_elems c = kept" "kept \<subseteq> {..<cpus}"
      using assms(1) by (auto simp: c_def kept_def cpu_elems_from_mask_bytes cpu_elems_first)
    have req: "requested read_exact cpus env call mem = (if task_is_found env target \<and> kept \<noteq> {} then Some (target, kept) else None)"
      using bytes Inr unfolding requested_def kept_def Let_def by simp
    show ?thesis using assms(2) bytes Inr c
      unfolding req handle_sched_setaffinity_def virtual_sched_setaffinity_def
      by (auto simp: Let_def cs_is_empty_iff affinity_cpus_def cpu_affinity_def set_cpu_affinity_def simp flip: c_def
          split: if_splits)
  qed
qed

interpretation ca: protocol_object "cpu_ok cpus" "\<lambda>_ _. True" "cpu_step read_exact cpus" "cpu_view cpus"
  "cpu_spec read_exact cpus"
proof
  fix t c
  assume ok: "cpu_ok cpus t"
  then have n: "cpus \<le> 128" by (simp add: cpu_ok_def)
  show "\<exists>t'. cpu_step read_exact cpus c t = Some t' \<and> cpu_ok cpus t' \<and> cpu_spec read_exact cpus c (cpu_view cpus t) (cpu_view cpus t')"
  proof (cases c)
    case (NewTask parent child)
    then show ?thesis using ok n by (auto simp: place_child_def cpu_ok_def cpu_view_eq fun_eq_iff)
  next
    case (ExecTask former leader)
    then show ?thesis using ok n
      by (auto simp: transfer_exec_cpus_def cpu_ok_def cpu_view_eq fun_eq_iff Let_def split: option.splits)
  next
    case (SetAffinity env call mem)
    obtain res t' where h: "handle_sched_setaffinity (Some cpus) read_exact env call mem t = (res, t')" by fastforce
    show ?thesis
    proof (cases "requested read_exact cpus env call mem")
      case None
      then show ?thesis using setaffinity_outcome [OF n h] h ok SetAffinity by simp
    next
      case (Some r)
      obtain target kept where r: "r = (target, kept)" by (cases r)
      then obtain c where "cpu_elems c = kept" "kept \<noteq> {}" "kept \<subseteq> {..<cpus}"
        "t' = t\<lparr>cpu_affinities := (cpu_affinities t)(target \<mapsto> c)\<rparr>"
        using setaffinity_outcome [OF n h] Some by auto
      then show ?thesis using Some r h ok n SetAffinity by (auto simp: cpu_ok_def cpu_view_eq fun_eq_iff)
    qed
  qed
qed

lemma legal_calls_True: "legal_calls (\<lambda>_ _. True) step cs s"
  by (induction cs arbitrary: s) (auto split: option.split)

lemma cpu_tree_default_ok: "1 \<le> cpus \<Longrightarrow> cpus \<le> 128 \<Longrightarrow> cpu_ok cpus cpu_tree_default"
  by (simp add: cpu_ok_def cpu_tree_default_def)

lemma cpu_view_default: "cpus \<le> 128 \<Longrightarrow> cpu_view cpus cpu_tree_default = (\<lambda>_. {..<cpus})"
  by (simp add: cpu_view_eq cpu_tree_default_def fun_eq_iff)

text \<open>What \<open>sched_getaffinity\<close> writes names the task's CPUs.\<close>

lemma getaffinity_outcome:
  assumes "cpu_ok cpus t" "getaffinity_length_is_valid (call_len call) cpus" "affinity_target env (call_pid call) = Inr target"
    and "task_is_found env target" "call_mask call = Some addr"
  shows "\<exists>bytes. cpu_elems (from_mask_bytes bytes) = cpu_view cpus t target
    \<and> handle_sched_getaffinity (Some cpus) write_exact env t call mem
      = (case write_exact addr bytes mem of None \<Rightarrow> (Inl (Errno EFAULT), mem) | Some mem' \<Rightarrow> (Inr (length bytes), mem'))"
proof (intro exI conjI)
  let ?k = "min (call_len call) VIRTUAL_CPUSET_BYTES" and ?c = "allowed (task_cpus_of t target) cpus"
  have "cpus \<le> 8 * ?k" using valid_length_covers [OF assms(2)] assms(1) by (simp add: cpu_ok_def VIRTUAL_CPUSET_BYTES_def)
  then show "cpu_elems (from_mask_bytes (take ?k (to_mask_bytes ?c))) = cpu_view cpus t target"
    using from_to_mask_bytes_take [of ?k ?c] cpu_ok_view(2) [OF assms(1), of target]
    by (auto simp: cpu_view_def VIRTUAL_CPUSET_BYTES_def)
  show "handle_sched_getaffinity (Some cpus) write_exact env t call mem
      = (case write_exact addr (take ?k (to_mask_bytes ?c)) mem of
           None \<Rightarrow> (Inl (Errno EFAULT), mem) | Some mem' \<Rightarrow> (Inr (length (take ?k (to_mask_bytes ?c))), mem'))"
    using assms(2-5) by (simp add: handle_sched_getaffinity_def virtual_sched_getaffinity_def affinity_cpus_def
        cpu_affinity_def VIRTUAL_CPUSET_BYTES_def split: option.split)
qed

subsection \<open>Properties\<close>

text \<open>
  C37: CPU affinity under \<open>--virtual-cpus\<close>. In every history of task creations, execs and calls of
  \<open>sched_setaffinity\<close>, a new task gets its creator's CPUs, an exec keeps them, and a call that succeeds
  gives its target exactly the CPUs of its mask that the machine has, leaving every other task alone;
  one that fails changes nothing. Afterwards every task may run on some CPU of the machine, the CPU
  \<open>getcpu\<close> tells a thread is one it may run on, and \<open>sched_getaffinity\<close>, for every length it accepts,
  writes a mask that reads back as exactly the task's CPUs.
\<close>

theorem cpu_affinity_history:
  assumes "1 \<le> cpus" "cpus \<le> 128"
  shows "\<exists>t. run_calls (cpu_step read_exact cpus) cs cpu_tree_default = Some t
    \<and> spec_run (cpu_spec read_exact cpus) cs (\<lambda>_. {..<cpus}) (cpu_view cpus t)
    \<and> (\<forall>tid. cpu_view cpus t tid \<noteq> {} \<and> cpu_view cpus t tid \<subseteq> {..<cpus})
    \<and> (\<forall>env. task_is_found env (env_caller env) \<longrightarrow> virtual_cpu env t cpus \<in> cpu_view cpus t (env_caller env))
    \<and> (\<forall>env call target addr mem.
         getaffinity_length_is_valid (call_len call) cpus \<and> affinity_target env (call_pid call) = Inr target
         \<and> task_is_found env target \<and> call_mask call = Some addr
         \<longrightarrow> (\<exists>bytes. cpu_elems (from_mask_bytes bytes) = cpu_view cpus t target
              \<and> handle_sched_getaffinity (Some cpus) write_exact env t call mem
                = (case write_exact addr bytes mem of
                     None \<Rightarrow> (Inl (Errno EFAULT), mem) | Some mem' \<Rightarrow> (Inr (length bytes), mem'))))"
proof -
  obtain t where run: "run_calls (cpu_step read_exact cpus) cs cpu_tree_default = Some t" and ok: "cpu_ok cpus t"
    and spec: "spec_run (cpu_spec read_exact cpus) cs (\<lambda>_. {..<cpus}) (cpu_view cpus t)"
    using ca.history_ok [OF cpu_tree_default_ok [OF assms] legal_calls_True] unfolding cpu_view_default [OF assms(2)] by blast
  have "virtual_cpu env t cpus \<in> cpu_view cpus t (env_caller env)" if "task_is_found env (env_caller env)" for env
    using current_cpu_allowed [of "task_cpus_of t (env_caller env)" cpus] cpu_ok_view(1) [OF ok] that
    by (simp add: virtual_cpu_def affinity_current_def cpu_affinity_def cpu_view_def cs_is_empty_iff)
  then show ?thesis
    by (intro exI [of _ t] conjI allI impI run spec cpu_ok_view [OF ok] getaffinity_outcome [OF ok]) blast+
qed

theorem cpu_affinity_history_witness:
  "\<exists>t. run_calls (cpu_step (\<lambda>mem a n. Some (take n (drop a mem))) 4)
       [NewTask 3 3, NewTask 3 5,
        SetAffinity \<lparr>env_caller = 3, nested_pid_namespace = False,
            env_pids = \<lparr>pl_namespaces = pid_namespaces_default, thread_to_leader = Map.empty, pid_namespace_inits = [],
              process_signal_targets = \<lambda>_. [], read_kernel_signal_state = \<lambda>_ _. Inr 0\<rparr>,
            task_is_found = (\<lambda>tid. tid \<in> {3, 5})\<rparr>
          \<lparr>call_pid = 5, call_len = 1, call_mask = Some 0\<rparr> [0x32]] cpu_tree_default = Some t
     \<and> cpu_view 4 t 3 = {..<4} \<and> cpu_view 4 t 5 = {1}"
proof -
  let ?env = "\<lparr>env_caller = 3, nested_pid_namespace = False,
            env_pids = \<lparr>pl_namespaces = pid_namespaces_default, thread_to_leader = Map.empty, pid_namespace_inits = [],
              process_signal_targets = \<lambda>_. [], read_kernel_signal_state = \<lambda>_ _. Inr 0\<rparr>,
            task_is_found = (\<lambda>tid. tid \<in> {3, 5})\<rparr>"
    and ?call = "\<lparr>call_pid = 5, call_len = 1, call_mask = Some 0\<rparr>"
  let ?read = "\<lambda>(mem :: byte list) a n. Some (take n (drop a mem))"
  have "{n :: nat. n < 4 \<and> bit (0x32 :: byte) n} = {1}" (is "?l = _")
  proof -
    have "n \<in> {0, 1, 2, 3}" if "n < 4" for n :: nat using that by auto
    moreover have "\<not> bit (0x32 :: byte) 0" "bit (0x32 :: byte) 1" "\<not> bit (0x32 :: byte) 2" "\<not> bit (0x32 :: byte) 3"
      by simp_all
    ultimately show ?thesis by fastforce
  qed
  moreover have "{n :: nat. n < 4 \<and> n div 8 < 16 \<and> bit ((0x32 # replicate 15 0 :: byte list) ! (n div 8)) (n mod 8)} = ?l"
    by (rule Collect_cong) auto
  moreover have "read_mask ?read ?call [0x32] = Some (0x32 # replicate 15 0)"
    by (simp add: read_mask_def VIRTUAL_CPUSET_BYTES_def)
  ultimately have "requested ?read 4 ?env ?call [0x32] = Some (5, {1})"
    by (simp add: requested_def affinity_target_def Let_def)
  then show ?thesis
    using cpu_affinity_history [of 4 ?read "[NewTask 3 3, NewTask 3 5, SetAffinity ?env ?call [0x32]]" "\<lambda>_ _ _. None"]
    by (auto simp: fun_eq_iff)
qed

end
