(* ===== verification/Schedule_Event.thy ===== *)
theory Schedule_Event
  imports Det_Time
begin

text \<open>
  The events of a recorded schedule (detcore-model/src/schedule.rs), the cursor a replay reads them with
  (detcore-model/src/collections/replay_cursor.rs), and when an observed event differs from a recorded one
  (detcore/src/scheduler/replayer.rs).
\<close>

subsection \<open>Events\<close>

text \<open>System call numbers belong to Reverie; the two that end a thread are told apart.\<close>

datatype sysno = SysExit | SysExitGroup | SysOther nat

datatype syscall_phase = Prehook | Polling | Posthook

datatype sched_op =
  Branch
| Rdtsc
| Cpuid
| Syscall sysno syscall_phase
| OtherInstructions
| SignalReceived int

record sched_event =
  dettid :: det_tid
  ev_op :: sched_op
  ev_count :: nat
  start_rip :: "nat option"
  end_rip :: "nat option"
  end_time :: "nat option"
  stopless :: bool

definition ev_syscall :: "det_tid \<Rightarrow> sysno \<Rightarrow> syscall_phase \<Rightarrow> sched_event" where
  "ev_syscall tid sys phase =
     \<lparr>dettid = tid, ev_op = Syscall sys phase, ev_count = 1, start_rip = None, end_rip = None, end_time = None,
      stopless = False\<rparr>"

definition ev_branches :: "det_tid \<Rightarrow> nat \<Rightarrow> sched_event" where
  "ev_branches tid n =
     \<lparr>dettid = tid, ev_op = Branch, ev_count = n, start_rip = None, end_rip = None, end_time = None, stopless = False\<rparr>"

definition with_time :: "nat \<Rightarrow> sched_event \<Rightarrow> sched_event" where
  "with_time t e = e\<lparr>end_time := Some t\<rparr>"

definition with_dettime :: "(real \<Rightarrow> real) \<Rightarrow> det_time \<Rightarrow> sched_event \<Rightarrow> sched_event option" where
  "with_dettime rnd dt e = do { t \<leftarrow> without_starting rnd dt; Some (e\<lparr>end_time := Some t\<rparr>) }"

definition with_start_rip :: "nat \<Rightarrow> sched_event \<Rightarrow> sched_event" where
  "with_start_rip rip e = e\<lparr>start_rip := Some rip\<rparr>"

definition with_end_rip :: "nat \<Rightarrow> sched_event \<Rightarrow> sched_event option" where
  "with_end_rip rip e = do { assert_that (\<not> stopless e); Some (e\<lparr>end_rip := Some rip\<rparr>) }"

definition stopless_mark_refusal :: "sched_event \<Rightarrow> string option" where
  "stopless_mark_refusal e =
     (if \<not> stopless e then None
      else if ev_op e \<noteq> Branch
      then Some ''only the branches up to a timeslice end may be marked `stopless`''
      else if end_rip e \<noteq> None
      then Some ''a timeslice end marked `stopless` has no end RIP: the guest was not stopped there''
      else None)"

definition same_kind :: "sched_event \<Rightarrow> sched_event \<Rightarrow> bool" where
  "same_kind a b \<longleftrightarrow>
     (let rips_known = \<not> (stopless a \<or> stopless b)
      in (dettid a, ev_op a, start_rip a) = (dettid b, ev_op b, start_rip b) \<and> (\<not> rips_known \<or> end_rip a = end_rip b))"

definition same_operations :: "sched_event \<Rightarrow> sched_event \<Rightarrow> bool" where
  "same_operations a b \<longleftrightarrow> same_kind a b \<and> (ev_count a, end_time a) = (ev_count b, end_time b)"

definition taken_without_stop :: "sched_event \<Rightarrow> sched_event option" where
  "taken_without_stop e = do {
     assert_that (ev_op e = Branch);
     assert_that (end_rip e = None);
     Some (e\<lparr>stopless := True\<rparr>)
   }"

subsection \<open>The cursor\<close>

type_synonym 'a replay_cursor = "'a list"

definition peek_nth :: "'a replay_cursor \<Rightarrow> nat \<Rightarrow> 'a option" where
  "peek_nth c i = (if i < length c then Some (c ! i) else None)"

definition peek :: "'a replay_cursor \<Rightarrow> 'a option" where
  "peek c = peek_nth c 0"

text \<open>The loop over the enumerated window, from index \<open>i\<close> on.\<close>

fun prefix_loop :: "('a \<Rightarrow> bool) \<Rightarrow> nat \<Rightarrow> 'a list \<Rightarrow> nat option" where
  "prefix_loop pred i [] = None"
| "prefix_loop pred i (v # vs) = (if pred v then Some i else prefix_loop pred (i + 1) vs)"

definition prefix_contains :: "'a replay_cursor \<Rightarrow> nat \<Rightarrow> ('a \<Rightarrow> bool) \<Rightarrow> nat option" where
  "prefix_contains c winsize pred = prefix_loop pred 0 (take winsize c)"

definition cursor_drop :: "nat \<Rightarrow> 'a replay_cursor \<Rightarrow> 'a replay_cursor" where
  "cursor_drop n c = drop (min n (length c)) c"

fun cursor_next :: "'a replay_cursor \<Rightarrow> 'a option \<times> 'a replay_cursor" where
  "cursor_next [] = (None, [])"
| "cursor_next (x # xs) = (Some x, xs)"

subsection \<open>Desyncs\<close>

definition is_desync :: "sched_event \<Rightarrow> sched_event \<Rightarrow> bool" where
  "is_desync observed expected \<longleftrightarrow>
     (dettid observed, ev_op observed, ev_count observed) \<noteq> (dettid expected, ev_op expected, ev_count expected)
     \<or> (end_time expected \<noteq> None \<and> end_time expected \<noteq> end_time observed)
     \<or> (start_rip expected \<noteq> None \<and> start_rip observed \<noteq> start_rip expected)
     \<or> (end_rip expected \<noteq> None \<and> end_rip observed \<noteq> end_rip expected)"

definition events_match :: "sched_event \<Rightarrow> sched_event \<Rightarrow> bool" where
  "events_match observed expected \<longleftrightarrow> \<not> is_desync observed expected"

definition hard_desync_fields :: "sched_event \<Rightarrow> sched_event \<Rightarrow> string list" where
  "hard_desync_fields observed expected =
     (if dettid observed \<noteq> dettid expected then [''dettid''] else [])
     @ (if ev_op observed \<noteq> ev_op expected then [''op''] else [])
     @ (if start_rip expected \<noteq> None \<and> start_rip observed \<noteq> start_rip expected then [''start_rip''] else [])
     @ (if end_rip expected \<noteq> None \<and> end_rip observed \<noteq> end_rip expected \<and> \<not> stopless expected
        then [''end_rip''] else [])"

definition is_hard_desync :: "sched_event \<Rightarrow> sched_event \<Rightarrow> bool" where
  "is_hard_desync observed expected \<longleftrightarrow>
     (let strip1 = observed\<lparr>end_time := None, ev_count := 0\<rparr>;
          strip2 = expected\<lparr>end_time := None, ev_count := 0\<rparr>;
          strip1 = (if start_rip expected = None then strip1\<lparr>start_rip := None\<rparr> else strip1);
          strip1 = (if end_rip expected = None then strip1\<lparr>end_rip := None\<rparr> else strip1);
          strip1 = (if stopless expected then strip1\<lparr>end_rip := None\<rparr> else strip1)
      in strip1\<lparr>stopless := False\<rparr> \<noteq> strip2\<lparr>stopless := False\<rparr>)"

definition compare_desync :: "sched_event \<Rightarrow> sched_event \<Rightarrow> string" where
  "compare_desync observed expected =
     (if \<not> is_desync observed expected then ''SYNCED''
      else if ev_op observed \<noteq> ev_op expected then ''FULL-OP-DESYNC''
      else let msg = ''DESYNC'';
          msg = (if (start_rip expected \<noteq> None \<and> start_rip observed \<noteq> start_rip expected)
                    \<or> (end_rip expected \<noteq> None \<and> end_rip observed \<noteq> end_rip expected)
                 then ''RIP-'' @ msg else msg);
          msg = (if end_time observed \<noteq> end_time expected then ''TIME-'' @ msg else msg)
        in if ev_op observed = Branch \<and> ev_op expected = Branch \<and> ev_count observed \<noteq> ev_count expected
           then ''RCB-'' @ msg else msg)"

definition is_terminal_posthook :: "sched_event \<Rightarrow> bool" where
  "is_terminal_posthook e \<longleftrightarrow> ev_op e = Syscall SysExit Posthook \<or> ev_op e = Syscall SysExitGroup Posthook"

subsection \<open>Lemmas\<close>

text \<open>What makes a desync hard, field by field.\<close>

lemma is_hard_desync_iff:
  "is_hard_desync observed expected \<longleftrightarrow>
     dettid observed \<noteq> dettid expected \<or> ev_op observed \<noteq> ev_op expected
     \<or> (start_rip expected \<noteq> None \<and> start_rip observed \<noteq> start_rip expected)
     \<or> (end_rip expected \<noteq> None \<and> (stopless expected \<or> end_rip observed \<noteq> end_rip expected))"
  by (cases observed; cases expected) (auto simp: is_hard_desync_def Let_def)

text \<open>On a well-formed record the fields named in the error are those that make the desync hard.\<close>

lemma hard_desync_fields_iff:
  assumes "stopless_mark_refusal expected = None"
  shows "hard_desync_fields observed expected \<noteq> [] \<longleftrightarrow> is_hard_desync observed expected"
  using assms by (auto simp: is_hard_desync_iff hard_desync_fields_def stopless_mark_refusal_def split: if_splits)

text \<open>A hard desync is a desync; the mark of a slice end must be a legal one.\<close>

lemma hard_desync_is_desync:
  assumes "stopless_mark_refusal expected = None" "is_hard_desync observed expected"
  shows "is_desync observed expected"
  using assms by (auto simp: is_hard_desync_iff is_desync_def stopless_mark_refusal_def split: if_splits)

lemma is_desync_self [simp]: "\<not> is_desync e e"
  by (simp add: is_desync_def)

text \<open>The builders make no event the record reader refuses.\<close>

lemma builders_legal:
  "stopless_mark_refusal (ev_syscall tid sys phase) = None"
  "stopless_mark_refusal (ev_branches tid n) = None"
  "with_end_rip rip e = Some e' \<Longrightarrow> stopless_mark_refusal e' = None"
  "taken_without_stop e = Some e' \<Longrightarrow> stopless_mark_refusal e' = None"
  by (auto simp: stopless_mark_refusal_def ev_syscall_def ev_branches_def with_end_rip_def taken_without_stop_def
      split: if_splits)

lemma prefix_loop_Some:
  "prefix_loop pred i vs = Some k \<Longrightarrow> i \<le> k \<and> k - i < length vs \<and> pred (vs ! (k - i)) \<and> (\<forall>j < k - i. \<not> pred (vs ! j))"
proof (induction pred i vs rule: prefix_loop.induct)
  case (2 pred i v vs)
  show ?case
  proof (cases "pred v")
    case False
    then have IH: "i + 1 \<le> k" "k - (i + 1) < length vs" "pred (vs ! (k - (i + 1)))" "\<forall>j < k - (i + 1). \<not> pred (vs ! j)"
      using 2 by auto
    have "\<not> pred ((v # vs) ! j)" if "j < k - i" for j using that IH(4) False by (cases j) auto
    then show ?thesis using IH by (auto simp: nth_Cons')
  qed (use 2 in simp)
qed simp

text \<open>The window search finds the first match.\<close>

lemma prefix_contains_Some:
  assumes "prefix_contains c w pred = Some k"
  shows "k < length c" "k < w" "pred (c ! k)" "\<And>j. j < k \<Longrightarrow> \<not> pred (c ! j)"
  using prefix_loop_Some [of pred 0 "take w c" k] assms by (auto simp: prefix_contains_def)

end
