(* ===== verification/Replayer.thy ===== *)
theory Replayer
  imports Schedule_Event BTree Protocol
begin

text \<open>
  The replay of a recorded schedule (detcore/src/scheduler/replayer.rs): it matches the events a run
  makes against the recorded ones, resynchronizes after a difference, tells the scheduler which thread the
  recording ran next, and gives the schedule up after a long run of events that match nothing.

  Warnings and log lines are left out. The positions, the statistics and the counters of unmatched and of
  non-polling events are natural numbers: each is at most the length of the schedule or the number of
  events and calls observed. The count of observed events is a \<open>u64\<close> whose increment can panic.
\<close>

subsection \<open>State\<close>

definition LOOKAHEAD_WINDOW :: nat where
  "LOOKAHEAD_WINDOW = 10"

definition UNMATCHED_EVENTS_BEFORE_RELEASE :: nat where
  "UNMATCHED_EVENTS_BEFORE_RELEASE = 1000"

definition REPLAY_KEPT_RETRY_LIMIT :: nat where
  "REPLAY_KEPT_RETRY_LIMIT = 1000"

record release_point =
  rel_event :: nat
  unreplayed :: nat

record replay_position =
  rp_event :: nat
  record_event :: nat

record untaken_start =
  us_thread :: det_tid
  us_call :: nat
  us_after :: nat
  passed_at :: "replay_position option"

record first_desync_note =
  fd_event :: nat
  fd_record_event :: nat
  fd_observed :: det_tid
  fd_expected :: det_tid
  fd_hard :: bool

record desync_stats =
  ds_soft :: nat
  ds_hard :: nat
  at_context_switch :: nat
  resync_insertions :: nat
  resync_deletions :: nat
  fast_forwards :: nat
  last_was_desync :: bool

definition stats_default :: desync_stats where
  "stats_default =
     \<lparr>ds_soft = 0, ds_hard = 0, at_context_switch = 0, resync_insertions = 0, resync_deletions = 0,
      fast_forwards = 0, last_was_desync = False\<rparr>"

definition stats_add :: "desync_stats \<Rightarrow> desync_stats \<Rightarrow> desync_stats" where
  "stats_add a b =
     \<lparr>ds_soft = ds_soft a + ds_soft b, ds_hard = ds_hard a + ds_hard b,
      at_context_switch = at_context_switch a + at_context_switch b,
      resync_insertions = resync_insertions a + resync_insertions b,
      resync_deletions = resync_deletions a + resync_deletions b,
      fast_forwards = fast_forwards a + fast_forwards b, last_was_desync = last_was_desync b\<rparr>"

datatype stop_reason = FatalDesync | ReplayExausted

record replayed_slice_end =
  se_length :: nat
  se_stopless :: bool

definition with_a_stop :: "replayed_slice_end \<Rightarrow> replayed_slice_end" where
  "with_a_stop e = e\<lparr>se_stopless := False\<rparr>"

datatype replay_action =
  Continue "replayed_slice_end option"
| Stop stop_reason
| ContextSwitch bool det_tid "replayed_slice_end option"

record background_start =
  bs_after :: nat
  bs_thread :: det_tid
  bs_call :: nat

record replayer =
  cursor :: "sched_event replay_cursor"
  traced_event_count :: nat
  events_popped :: nat
  schedule_len :: nat
  last_consumed :: "nat option"
  exhausted_from :: "nat option"
  unmatched_run :: nat
  observed_non_polling :: nat
  release :: "release_point option"
  desync_counts :: "(det_tid, desync_stats) btree_map"
  replay_exhausted_panic :: bool
  die_on_desync :: bool
  syscalls_in_flight :: "(det_tid, sysno option \<times> sysno option) btree_map"
  kept_retry :: "(det_tid \<times> nat \<times> nat) option"
  background_starts :: "(nat, (det_tid \<times> nat) list) btree_map"
  pending_starts :: "(det_tid \<times> nat \<times> nat) list"
  passed_starts :: "untaken_start list"
  notes_background_starts :: bool
  skipped :: nat
  first_desync :: "first_desync_note option"

definition new_replayer :: "sched_event list \<Rightarrow> replayer" where
  "new_replayer events =
     \<lparr>cursor = events, traced_event_count = 0, events_popped = 0, schedule_len = length events,
      last_consumed = None, exhausted_from = None, unmatched_run = 0, observed_non_polling = 0, release = None,
      desync_counts = [], replay_exhausted_panic = False, die_on_desync = False, syscalls_in_flight = [],
      kept_retry = None, background_starts = [], pending_starts = [], passed_starts = [],
      notes_background_starts = False, skipped = 0, first_desync = None\<rparr>"

subsection \<open>Positions and background starts\<close>

definition record_position :: "replayer \<Rightarrow> nat" where
  "record_position r = events_popped r + skipped r"

definition released :: "replayer \<Rightarrow> bool" where
  "released r \<longleftrightarrow> release r \<noteq> None"

text \<open>The loop of \<open>queue_background_starts\<close>: the starts due at a position, and the rest.\<close>

fun due_starts ::
  "nat \<Rightarrow> (nat, (det_tid \<times> nat) list) btree_map \<Rightarrow> (det_tid \<times> nat \<times> nat) list \<times> (nat, (det_tid \<times> nat) list) btree_map"
where
  "due_starts position [] = ([], [])"
| "due_starts position ((after, starts) # rest) =
     (if after > position then ([], (after, starts) # rest)
      else case due_starts position rest of
          (due, left) \<Rightarrow> (map (\<lambda>(thread, call). (thread, call, after)) starts @ due, left))"

definition queue_background_starts :: "replayer \<Rightarrow> replayer" where
  "queue_background_starts r =
     (case due_starts (record_position r) (background_starts r) of
        (due, left) \<Rightarrow> r\<lparr>background_starts := left, pending_starts := pending_starts r @ due\<rparr>)"

definition add_start ::
  "background_start \<Rightarrow> (nat, (det_tid \<times> nat) list) btree_map \<Rightarrow> (nat, (det_tid \<times> nat) list) btree_map" where
  "add_start s m =
     bm_insert (bs_after s)
       ((case bm_get m (bs_after s) of Some q \<Rightarrow> q | None \<Rightarrow> []) @ [(bs_thread s, bs_call s)]) m"

definition with_background_starts :: "background_start list \<Rightarrow> bool \<Rightarrow> replayer \<Rightarrow> replayer" where
  "with_background_starts starts notes_all r =
     queue_background_starts
       (r\<lparr>background_starts := fold add_start starts (background_starts r), notes_background_starts := notes_all\<rparr>)"

definition update_stats :: "det_tid \<Rightarrow> (desync_stats \<Rightarrow> desync_stats) \<Rightarrow> replayer \<Rightarrow> replayer" where
  "update_stats tid f r =
     r\<lparr>desync_counts :=
         bm_insert tid (f (case bm_get (desync_counts r) tid of Some s \<Rightarrow> s | None \<Rightarrow> stats_default)) (desync_counts r)\<rparr>"

definition count_hard :: "desync_stats \<Rightarrow> desync_stats" where
  "count_hard s = s\<lparr>ds_hard := ds_hard s + 1\<rparr>"

text \<open>The starts passed without being taken: each is a hard desync of its thread.\<close>

fun pass_starts :: "replay_position \<Rightarrow> (det_tid \<times> nat \<times> nat) list \<Rightarrow> replayer \<Rightarrow> replayer" where
  "pass_starts at_pos [] r = r"
| "pass_starts at_pos ((thread, call, after) # rest) r =
     pass_starts at_pos rest
       ((update_stats thread count_hard r)
          \<lparr>passed_starts := passed_starts r
             @ [\<lparr>us_thread = thread, us_call = call, us_after = after, passed_at = Some at_pos\<rparr>]\<rparr>)"

text \<open>The starts recorded among the next \<open>dropped\<close> events; an empty key range panics.\<close>

definition skipped_starts :: "nat \<Rightarrow> replayer \<Rightarrow> (det_tid \<times> nat \<times> nat) list" where
  "skipped_starts dropped r =
     concat (map (\<lambda>(after, starts). map (\<lambda>(thread, call). (thread, call, after)) starts)
       (filter (\<lambda>e. record_position r + 1 \<le> fst e \<and> fst e \<le> record_position r + dropped) (background_starts r)))"

definition retire_skipped_starts :: "nat \<Rightarrow> nat \<Rightarrow> replayer \<Rightarrow> (nat \<times> replayer) option" where
  "retire_skipped_starts dropped event r = do {
     let position = record_position r;
     assert_that (position + 1 \<le> position + dropped);
     let past = skipped_starts dropped r;
     let r = r\<lparr>background_starts :=
         filter (\<lambda>e. \<not> (position + 1 \<le> fst e \<and> fst e \<le> position + dropped)) (background_starts r)\<rparr>;
     let r = pass_starts \<lparr>rp_event = event, record_event = position\<rparr> past r;
     Some (length past, r\<lparr>skipped := skipped r + dropped\<rparr>)
   }"

definition pending_background_start :: "replayer \<Rightarrow> (det_tid \<times> nat) option" where
  "pending_background_start r =
     (if released r then None
      else case pending_starts r of [] \<Rightarrow> None | (thread, call, _) # _ \<Rightarrow> Some (thread, call))"

definition take_background_start :: "det_tid \<Rightarrow> nat \<Rightarrow> replayer \<Rightarrow> bool \<times> replayer" where
  "take_background_start thread call r =
     (if pending_background_start r = Some (thread, call) then (True, r\<lparr>pending_starts := tl (pending_starts r)\<rparr>)
      else (False, r))"

definition note_unrecorded_background_start :: "det_tid \<Rightarrow> replayer \<Rightarrow> bool \<times> replayer" where
  "note_unrecorded_background_start thread r = (die_on_desync r, update_stats thread count_hard r)"

definition has_events_left :: "replayer \<Rightarrow> bool" where
  "has_events_left r \<longleftrightarrow>
     \<not> released r \<and> (peek (cursor r) \<noteq> None \<or> pending_starts r \<noteq> [] \<or> background_starts r \<noteq> [])"

definition position_now :: "replayer \<Rightarrow> replay_position" where
  "position_now r = \<lparr>rp_event = traced_event_count r, record_event = record_position r\<rparr>"

definition untaken_background_starts :: "replayer \<Rightarrow> untaken_start list" where
  "untaken_background_starts r =
     sort_key us_after
       (passed_starts r
        @ map (\<lambda>(thread, call, after). \<lparr>us_thread = thread, us_call = call, us_after = after, passed_at = None\<rparr>)
            (pending_starts r)
        @ concat (map (\<lambda>(after, starts).
            map (\<lambda>(thread, call). \<lparr>us_thread = thread, us_call = call, us_after = after, passed_at = None\<rparr>) starts)
            (background_starts r)))"

subsection \<open>The end of a slice\<close>

definition timer_preemption_branches :: "replayer \<Rightarrow> sched_event \<Rightarrow> nat option" where
  "timer_preemption_branches r next_ev =
     (if ev_op next_ev \<noteq> Branch then None
      else if end_rip next_ev \<noteq> None
        \<or> (case peek_nth (cursor r) 1 of
             None \<Rightarrow> False
           | Some following \<Rightarrow> ev_op following = Branch \<or> dettid following \<noteq> dettid next_ev)
      then Some (ev_count next_ev) else None)"

definition resolve_time_to_run :: "(real \<Rightarrow> real) \<Rightarrow> replayer \<Rightarrow> sched_event \<Rightarrow> replayed_slice_end option" where
  "resolve_time_to_run rnd r next_ev =
     map_option
       (\<lambda>n. let e = \<lparr>se_length = from_rcbs rnd n, se_stopless = stopless next_ev\<rparr>
            in if stopless next_ev
                 \<and> \<not> (case peek_nth (cursor r) 1 of
                        None \<Rightarrow> True
                      | Some following \<Rightarrow> ev_op following = Branch \<or> dettid following \<noteq> dettid next_ev)
               then with_a_stop e else e)
       (if stopless next_ev then Some (ev_count next_ev) else timer_preemption_branches r next_ev)"

definition next_slice_end :: "(real \<Rightarrow> real) \<Rightarrow> replayer \<Rightarrow> (det_tid \<times> replayed_slice_end option) option" where
  "next_slice_end rnd r =
     (case pending_background_start r of
        Some (thread, _) \<Rightarrow> Some (thread, None)
      | None \<Rightarrow> map_option (\<lambda>next_ev. (dettid next_ev, resolve_time_to_run rnd r next_ev)) (peek (cursor r)))"

definition next_resume :: "(real \<Rightarrow> real) \<Rightarrow> replayer \<Rightarrow> (det_tid \<times> nat option) option" where
  "next_resume rnd r = map_option (\<lambda>(thread, e). (thread, map_option se_length e)) (next_slice_end rnd r)"

definition next_thread_among :: "replayer \<Rightarrow> det_tid list \<Rightarrow> det_tid \<Rightarrow> det_tid option" where
  "next_thread_among r threads except =
     find (\<lambda>thread. thread \<noteq> except \<and> thread \<in> set threads) (map dettid (cursor r))"

subsection \<open>Retries\<close>

definition is_polling :: "sched_event \<Rightarrow> bool" where
  "is_polling e \<longleftrightarrow> (case ev_op e of Syscall _ Polling \<Rightarrow> True | _ \<Rightarrow> False)"

definition note_syscall_in_flight :: "sched_event \<Rightarrow> replayer \<Rightarrow> replayer" where
  "note_syscall_in_flight observed r =
     (let tid = dettid observed; m = syscalls_in_flight r in
      case ev_op observed of
        Syscall sys Prehook \<Rightarrow> r\<lparr>syscalls_in_flight := bm_insert tid (Some sys, None) m\<rparr>
      | Syscall sys Polling \<Rightarrow>
          r\<lparr>syscalls_in_flight :=
              bm_insert tid ((case bm_get m tid of Some (entered, _) \<Rightarrow> entered | None \<Rightarrow> None), Some sys) m\<rparr>
      | Syscall _ Posthook \<Rightarrow> r\<lparr>syscalls_in_flight := bm_remove tid m\<rparr>
      | _ \<Rightarrow> r)"

definition next_is_retry_by :: "replayer \<Rightarrow> det_tid \<Rightarrow> bool" where
  "next_is_retry_by r tid \<longleftrightarrow>
     (case peek (cursor r) of
        None \<Rightarrow> False
      | Some next_ev \<Rightarrow> dettid next_ev = tid
          \<and> (case ev_op next_ev of
               Syscall sys phase \<Rightarrow> phase \<noteq> Prehook
                 \<and> (case bm_get (syscalls_in_flight r) tid of
                      None \<Rightarrow> False
                    | Some (entered, attempted) \<Rightarrow> entered = Some sys \<or> attempted = Some sys)
             | _ \<Rightarrow> False))"

definition keep_retry_turn :: "det_tid \<Rightarrow> replayer \<Rightarrow> bool \<times> replayer" where
  "keep_retry_turn tid r =
     (let remaining = length (cursor r);
          kept = (case kept_retry r of
              Some (thread, left, kept) \<Rightarrow> if thread = tid \<and> left = remaining then min (kept + 1) (2 ^ 32 - 1) else 1
            | None \<Rightarrow> 1)
      in (kept \<le> REPLAY_KEPT_RETRY_LIMIT, r\<lparr>kept_retry := Some (tid, remaining, kept)\<rparr>))"

definition next_is_failed_attempt_by :: "replayer \<Rightarrow> det_tid \<Rightarrow> bool" where
  "next_is_failed_attempt_by r tid \<longleftrightarrow>
     (case peek (cursor r) of None \<Rightarrow> False | Some next_ev \<Rightarrow> dettid next_ev = tid \<and> is_polling next_ev)"

definition stacktrace_position :: "replayer \<Rightarrow> nat \<Rightarrow> nat option option" where
  "stacktrace_position r traced_ix =
     (case last_consumed r of
        Some position \<Rightarrow> Some (Some position)
      | None \<Rightarrow> (case exhausted_from r of
            None \<Rightarrow> Some None
          | Some first \<Rightarrow> do { d \<leftarrow> sub_u64 traced_ix first; p \<leftarrow> add_u64 (schedule_len r) d; Some (Some p) }))"

subsection \<open>Observing an event\<close>

definition pop_next :: "replayer \<Rightarrow> replayer" where
  "pop_next r = queue_background_starts (r\<lparr>events_popped := events_popped r + 1, cursor := snd (cursor_next (cursor r))\<rparr>)"

definition release_schedule :: "nat \<Rightarrow> replayer \<Rightarrow> replay_action \<times> replayer" where
  "release_schedule current_ix r =
     (let r = r\<lparr>release := Some \<lparr>rel_event = current_ix, unreplayed = length (cursor r)\<rparr>, cursor := []\<rparr>
      in (if replay_exhausted_panic r then Stop ReplayExausted else Continue None, r))"

definition counts_next_round :: "det_tid \<Rightarrow> bool \<Rightarrow> replayer \<Rightarrow> replayer" where
  "counts_next_round tid desync r =
     update_stats tid
       (\<lambda>c. if desync then c\<lparr>last_was_desync := True\<rparr>
            else (if last_was_desync c then c\<lparr>resync_insertions := resync_insertions c + 1\<rparr> else c)
                   \<lparr>last_was_desync := False\<rparr>) r"

definition check_fast_forward :: "sched_event \<Rightarrow> replayer \<Rightarrow> nat option \<times> replayer" where
  "check_fast_forward observed r =
     (case prefix_contains (cursor r) LOOKAHEAD_WINDOW (\<lambda>expected. events_match observed expected) of
        None \<Rightarrow> (None, r)
      | Some ix \<Rightarrow>
          (Some ix, (update_stats (dettid observed) (\<lambda>c. c\<lparr>fast_forwards := fast_forwards c + 1\<rparr>) r)
             \<lparr>cursor := cursor_drop ix (cursor r)\<rparr>))"

definition check_context_switch :: "(real \<Rightarrow> real) \<Rightarrow> sched_event \<Rightarrow> bool \<Rightarrow> replayer \<Rightarrow> replay_action option" where
  "check_context_switch rnd observed popped r =
     (case next_slice_end rnd r of
        None \<Rightarrow> Some (Continue None)
      | Some (next_tid, timeslice) \<Rightarrow> do {
          time \<leftarrow> end_time observed;
          let is_prehook = (case ev_op observed of Syscall _ Prehook \<Rightarrow> True | _ \<Rightarrow> False);
          let stopped = map_option with_a_stop timeslice;
          Some (if next_tid \<noteq> dettid observed
                then ContextSwitch (\<not> (is_prehook \<or> is_terminal_posthook observed)) next_tid stopped
                else if popped then Continue timeslice
                else Continue stopped)
        })"

text \<open>A desync is noted and counted; \<open>True\<close> where the replay must stop.\<close>

definition count_desync :: "sched_event \<Rightarrow> sched_event \<Rightarrow> nat \<Rightarrow> replayer \<Rightarrow> bool \<times> replayer" where
  "count_desync observed expected current_ix r =
     (let hard = is_hard_desync observed expected;
          r = (if first_desync r = None
               then r\<lparr>first_desync := Some \<lparr>fd_event = current_ix, fd_record_event = record_position r,
                        fd_observed = dettid observed, fd_expected = dettid expected, fd_hard = hard\<rparr>\<rparr>
               else r);
          r = update_stats (dettid observed) id r
      in if hard
         then if die_on_desync r then (True, r) else (False, update_stats (dettid observed) count_hard r)
         else (False, update_stats (dettid observed) (\<lambda>c. c\<lparr>ds_soft := ds_soft c + 1\<rparr>) r))"

text \<open>
  The fast-forward of an event in desync: whether the replay must stop, whether the event still matches
  nothing, and the new state.
\<close>

definition resync :: "sched_event \<Rightarrow> nat \<Rightarrow> bool \<Rightarrow> replayer \<Rightarrow> (bool \<times> bool \<times> replayer) option" where
  "resync observed current_ix hard r =
     (case check_fast_forward observed r of
        (None, r) \<Rightarrow> Some (False, hard, r)
      | (Some ix, r) \<Rightarrow> do {
          assert_that (0 < ix);
          let r = update_stats (dettid observed) (\<lambda>c. c\<lparr>resync_deletions := resync_deletions c + 1\<rparr>) r;
          (retired, r) \<leftarrow> retire_skipped_starts ix current_ix r;
          Some (0 < retired \<and> die_on_desync r, False, r)
        })"

text \<open>The action after an event, counting a switch made while it matches nothing.\<close>

definition finish_event :: "(real \<Rightarrow> real) \<Rightarrow> sched_event \<Rightarrow> bool \<Rightarrow> replayer \<Rightarrow> (replay_action \<times> replayer) option" where
  "finish_event rnd observed hard r = do {
     action \<leftarrow> check_context_switch rnd observed (\<not> hard) r;
     Some (action, case action of
         ContextSwitch _ _ _ \<Rightarrow>
           if hard then update_stats (dettid observed) (\<lambda>c. c\<lparr>at_context_switch := at_context_switch c + 1\<rparr>) r else r
       | _ \<Rightarrow> r)
   }"

definition consume_expected :: "(real \<Rightarrow> real) \<Rightarrow> sched_event \<Rightarrow> replayer \<Rightarrow> (replay_action \<times> replayer) option" where
  "consume_expected rnd observed r = do {
     position \<leftarrow> sub_u64 (schedule_len r) (length (cursor r));
     finish_event rnd observed False ((pop_next (r\<lparr>last_consumed := Some position\<rparr>))\<lparr>unmatched_run := 0\<rparr>)
   }"

definition leave_unmatched :: "(real \<Rightarrow> real) \<Rightarrow> sched_event \<Rightarrow> nat \<Rightarrow> replayer \<Rightarrow> (replay_action \<times> replayer) option" where
  "leave_unmatched rnd observed non_polling_ix r =
     (if is_polling observed then finish_event rnd observed True r
      else let r = r\<lparr>unmatched_run := unmatched_run r + 1\<rparr>
           in if UNMATCHED_EVENTS_BEFORE_RELEASE \<le> unmatched_run r then Some (release_schedule non_polling_ix r)
              else finish_event rnd observed True r)"

definition observe_expected ::
  "(real \<Rightarrow> real) \<Rightarrow> sched_event \<Rightarrow> sched_event \<Rightarrow> nat \<Rightarrow> nat \<Rightarrow> replayer \<Rightarrow> (replay_action \<times> replayer) option" where
  "observe_expected rnd observed expected current_ix non_polling_ix r =
     (let desync = is_desync observed expected;
          (fatal, r) = (if desync then count_desync observed expected current_ix r else (False, r))
      in if fatal then Some (Stop FatalDesync, r)
         else do {
           let r = counts_next_round (dettid observed) desync r;
           (fatal, hard, r) \<leftarrow>
             (if desync then resync observed current_ix (is_hard_desync observed expected) r else Some (False, False, r));
           if fatal then Some (Stop FatalDesync, r)
           else if hard then leave_unmatched rnd observed non_polling_ix r
           else consume_expected rnd observed r
         })"

text \<open>What is noted of every event, before it is compared with the record.\<close>

definition begin_event :: "sched_event \<Rightarrow> replayer \<Rightarrow> replayer option" where
  "begin_event observed r = do {
     let current_ix = traced_event_count r;
     traced \<leftarrow> add_u64 current_ix 1;
     let r = r\<lparr>traced_event_count := traced,
               observed_non_polling := observed_non_polling r + (if is_polling observed then 0 else 1)\<rparr>;
     let r = note_syscall_in_flight observed r;
     Some (r\<lparr>last_consumed := None,
             exhausted_from := (if cursor r = [] \<and> release r = None \<and> exhausted_from r = None
                                then Some current_ix else exhausted_from r)\<rparr>)
   }"

definition observe_event :: "(real \<Rightarrow> real) \<Rightarrow> sched_event \<Rightarrow> replayer \<Rightarrow> (replay_action \<times> replayer) option" where
  "observe_event rnd observed r0 = do {
     let current_ix = traced_event_count r0;
     r \<leftarrow> begin_event observed r0;
     let untaken = pending_starts r;
     let r = pass_starts \<lparr>rp_event = current_ix, record_event = record_position r\<rparr> untaken (r\<lparr>pending_starts := []\<rparr>);
     if untaken \<noteq> [] \<and> die_on_desync r then Some (Stop FatalDesync, r)
     else case peek (cursor r) of
         Some expected \<Rightarrow> observe_expected rnd observed expected current_ix (observed_non_polling r0) r
       | None \<Rightarrow> Some (if replay_exhausted_panic r then Stop ReplayExausted else Continue None, r)
   }"

text \<open>
  The part of \<open>Scheduler::record_or_replay_background_start\<close> that tells the replay of a call that begins:
  \<open>True\<close> where the run must stop.
\<close>

definition replay_background_start :: "det_tid \<Rightarrow> nat \<Rightarrow> replayer \<Rightarrow> bool \<times> replayer" where
  "replay_background_start thread call r =
     (case take_background_start thread call r of
        (True, r) \<Rightarrow> (False, r)
      | (False, r) \<Rightarrow>
          if notes_background_starts r \<and> has_events_left r then note_unrecorded_background_start thread r
          else (False, r))"

end
