(* ===== verification/Replayer_Correct.thy ===== *)
theory Replayer_Correct
  imports Replayer
begin

text \<open>
  The invariant of a schedule replay: its position is the index of the next recorded event, and the
  background starts it has not taken are those it passed, those due and those to come. One lemma per step
  of \<open>observe_event\<close> shows that the step keeps it and does not panic.
\<close>

subsection \<open>What the statistics do not touch\<close>

text \<open>The state without the statistics and the bookkeeping of retries.\<close>

definition core :: "replayer \<Rightarrow> replayer" where
  "core r = r\<lparr>desync_counts := [], first_desync := None, syscalls_in_flight := [], kept_retry := None,
              observed_non_polling := 0\<rparr>"

lemma core_sel:
  "cursor (core r) = cursor r"
  "traced_event_count (core r) = traced_event_count r"
  "events_popped (core r) = events_popped r"
  "schedule_len (core r) = schedule_len r"
  "last_consumed (core r) = last_consumed r"
  "exhausted_from (core r) = exhausted_from r"
  "unmatched_run (core r) = unmatched_run r"
  "release (core r) = release r"
  "replay_exhausted_panic (core r) = replay_exhausted_panic r"
  "die_on_desync (core r) = die_on_desync r"
  "background_starts (core r) = background_starts r"
  "pending_starts (core r) = pending_starts r"
  "passed_starts (core r) = passed_starts r"
  "skipped (core r) = skipped r"
  "notes_background_starts (core r) = notes_background_starts r"
  by (simp_all add: core_def)

lemma core_eqD:
  assumes "core r = core r'"
  shows "cursor r = cursor r'"
    "traced_event_count r = traced_event_count r'"
    "events_popped r = events_popped r'"
    "schedule_len r = schedule_len r'"
    "last_consumed r = last_consumed r'"
    "exhausted_from r = exhausted_from r'"
    "unmatched_run r = unmatched_run r'"
    "release r = release r'"
    "replay_exhausted_panic r = replay_exhausted_panic r'"
    "die_on_desync r = die_on_desync r'"
    "background_starts r = background_starts r'"
    "pending_starts r = pending_starts r'"
    "passed_starts r = passed_starts r'"
    "skipped r = skipped r'"
    "notes_background_starts r = notes_background_starts r'"
  by (metis assms core_sel(1), metis assms core_sel(2), metis assms core_sel(3), metis assms core_sel(4), metis assms core_sel(5), metis assms core_sel(6), metis assms core_sel(7), metis assms core_sel(8), metis assms core_sel(9), metis assms core_sel(10), metis assms core_sel(11), metis assms core_sel(12), metis assms core_sel(13), metis assms core_sel(14), metis assms core_sel(15))

lemma core_update_stats [simp]: "core (update_stats t f r) = core r"
  by (simp add: core_def update_stats_def)

lemma core_counts_next_round [simp]: "core (counts_next_round t d r) = core r"
  by (simp add: counts_next_round_def)

lemma core_count_desync [simp]: "core (snd (count_desync obs expd ix r)) = core r"
proof -
  have "core (r'\<lparr>first_desync := v\<rparr>) = core r'" for r' v by (simp add: core_def)
  then show ?thesis by (simp add: count_desync_def Let_def)
qed

lemma core_note_syscall [simp]: "core (note_syscall_in_flight obs r) = core r"
  by (auto simp: core_def note_syscall_in_flight_def Let_def split: sched_op.split syscall_phase.split)

lemma record_position_core: "core r = core r' \<Longrightarrow> record_position r = record_position r'"
  by (simp add: record_position_def core_eqD(3,14) [of r r'])

subsection \<open>Background starts\<close>

type_synonym starts_by_event = "(nat, (det_tid \<times> nat) list) btree_map"

text \<open>The starts of a map in record order.\<close>

definition flat :: "starts_by_event \<Rightarrow> (det_tid \<times> nat \<times> nat) list" where
  "flat m = concat (map (\<lambda>(after, starts). map (\<lambda>(thread, call). (thread, call, after)) starts) m)"

lemma flat_simps [simp]:
  "flat [] = []"
  "flat ((after, starts) # m) = map (\<lambda>(thread, call). (thread, call, after)) starts @ flat m"
  by (simp_all add: flat_def)

lemma flat_after: "(t, c, a) \<in> set (flat m) \<Longrightarrow> a \<in> fst ` set m"
  by (force simp: flat_def)

lemma mset_flat_filter: "mset (flat (filter P m)) + mset (flat (filter (\<lambda>e. \<not> P e) m)) = mset (flat m)"
proof (induction m)
  case (Cons e m)
  then show ?case by (cases e) (auto simp: union_ac)
qed simp

text \<open>The starts due at a position are those at most that far in the record.\<close>

lemma due_starts_eq:
  assumes "bm_ok m"
  shows "due_starts p m = (flat (filter (\<lambda>e. fst e \<le> p) m), filter (\<lambda>e. p < fst e) m)"
  using assms
proof (induction p m rule: due_starts.induct)
  case (2 p after starts rest)
  have rest: "bm_ok rest" "\<forall>e \<in> set rest. after < fst e" using "2.prems" by (auto simp: bm_ok_Cons)
  show ?case
  proof (cases "after > p")
    case True
    then have "filter (\<lambda>e. fst e \<le> p) rest = []" "filter (\<lambda>e. p < fst e) rest = rest"
      using rest(2) by (auto simp: filter_empty_conv filter_id_conv)
    then show ?thesis using True by simp
  next
    case False
    then show ?thesis using "2.IH" [OF False rest(1)] by simp
  qed
qed simp

lemma skipped_starts_eq:
  "skipped_starts d r =
     flat (filter (\<lambda>e. record_position r + 1 \<le> fst e \<and> fst e \<le> record_position r + d) (background_starts r))"
  by (simp add: skipped_starts_def flat_def)

definition start_key :: "untaken_start \<Rightarrow> det_tid \<times> nat \<times> nat" where
  "start_key u = (us_thread u, us_call u, us_after u)"

text \<open>Passing starts counts desyncs and moves them to the passed ones; nothing else changes.\<close>

lemma pass_starts_core:
  "core (pass_starts at_pos ss r) =
     core (r\<lparr>passed_starts := passed_starts r
        @ map (\<lambda>(t, c, a). \<lparr>us_thread = t, us_call = c, us_after = a, passed_at = Some at_pos\<rparr>) ss\<rparr>)"
proof (induction at_pos ss r rule: pass_starts.induct)
  case (2 at_pos t c a rest r)
  have "core ((update_stats t count_hard r)\<lparr>passed_starts := v\<rparr>) = core (r\<lparr>passed_starts := v\<rparr>)" for v
    by (simp add: core_def update_stats_def)
  then show ?case using 2 by (simp add: core_def)
qed simp

lemma pass_starts_keys: "map start_key (map (\<lambda>(t, c, a). \<lparr>us_thread = t, us_call = c, us_after = a, passed_at = p\<rparr>) ss) = ss"
  by (induction ss) (auto simp: start_key_def)

text \<open>Every start the replay has not taken.\<close>

definition untaken_mset :: "replayer \<Rightarrow> (det_tid \<times> nat \<times> nat) multiset" where
  "untaken_mset r =
     mset (map start_key (passed_starts r)) + mset (pending_starts r) + mset (flat (background_starts r))"

lemma untaken_mset_report: "mset (map start_key (untaken_background_starts r)) = untaken_mset r"
proof -
  have fk: "map start_key (concat (map (\<lambda>(after, starts).
      map (\<lambda>(thread, call). \<lparr>us_thread = thread, us_call = call, us_after = after, passed_at = None\<rparr>) starts) m)) = flat m" for m
    by (induction m) (auto simp: start_key_def)
  show ?thesis unfolding untaken_background_starts_def untaken_mset_def
    by (simp only: mset_map mset_sort) (simp only: mset_append image_mset_union mset_map [symmetric] pass_starts_keys fk add.assoc)
qed

subsection \<open>The invariant\<close>

definition legal_schedule :: "sched_event list \<Rightarrow> bool" where
  "legal_schedule S \<longleftrightarrow> (\<forall>e \<in> set S. stopless_mark_refusal e = None)"

text \<open>Where the replay of the schedule \<open>S\<close> is; what it still holds of the record and of the starts.\<close>

definition position_ok :: "sched_event list \<Rightarrow> replayer \<Rightarrow> bool" where
  "position_ok S r \<longleftrightarrow> schedule_len r = length S \<and> record_position r \<le> length S
     \<and> (case release r of
          None \<Rightarrow> cursor r = drop (record_position r) S \<and> unmatched_run r < UNMATCHED_EVENTS_BEFORE_RELEASE
        | Some p \<Rightarrow> cursor r = [] \<and> record_position r + unreplayed p = length S)"

definition starts_ok :: "replayer \<Rightarrow> bool" where
  "starts_ok r \<longleftrightarrow> bm_ok (background_starts r) \<and> (\<forall>e \<in> set (background_starts r). record_position r < fst e)
     \<and> (\<forall>s \<in> set (pending_starts r). snd (snd s) \<le> record_position r)"

definition indices_ok :: "replayer \<Rightarrow> bool" where
  "indices_ok r \<longleftrightarrow> (\<forall>p. last_consumed r = Some p \<longrightarrow> p < record_position r)
     \<and> (\<forall>f. exhausted_from r = Some f \<longrightarrow> f < traced_event_count r \<and> cursor r = [])"

definition replay_ok :: "sched_event list \<Rightarrow> replayer \<Rightarrow> bool" where
  "replay_ok S r \<longleftrightarrow> position_ok S r \<and> starts_ok r \<and> indices_ok r"

lemmas replay_ok_defs = replay_ok_def position_ok_def starts_ok_def indices_ok_def

lemma replay_ok_core:
  assumes "core r = core r'"
  shows "replay_ok S r \<longleftrightarrow> replay_ok S r'"
  unfolding replay_ok_defs by (simp only: core_eqD [OF assms] record_position_core [OF assms])

lemma untaken_core:
  assumes "core r = core r'"
  shows "untaken_mset r = untaken_mset r'"
  unfolding untaken_mset_def by (simp only: core_eqD [OF assms])

lemma replay_ok_cursor:
  assumes "replay_ok S r" "cursor r \<noteq> []"
  shows "release r = None" "cursor r = drop (record_position r) S" "record_position r < length S"
    "exhausted_from r = None" "unmatched_run r < UNMATCHED_EVENTS_BEFORE_RELEASE" "schedule_len r = length S"
proof -
  show rel: "release r = None" using assms by (auto simp: replay_ok_def position_ok_def split: option.splits)
  show c: "cursor r = drop (record_position r) S" "unmatched_run r < UNMATCHED_EVENTS_BEFORE_RELEASE" "schedule_len r = length S"
    using assms rel by (auto simp: replay_ok_def position_ok_def)
  show "record_position r < length S" using c(1) assms(2) by (metis drop_all not_less)
  show "exhausted_from r = None" using assms by (auto simp: replay_ok_def indices_ok_def)
qed

subsection \<open>The start of a replay\<close>

lemma add_start_ok: "bm_ok m \<Longrightarrow> bm_ok (add_start b m)"
  by (simp add: add_start_def bm_insert_ok)

lemma fold_add_start_ok: "bm_ok m \<Longrightarrow> bm_ok (fold add_start B m)"
  by (induction B arbitrary: m) (simp_all add: add_start_ok)

definition starts_at :: "nat \<Rightarrow> background_start list \<Rightarrow> (det_tid \<times> nat) list" where
  "starts_at k B = map (\<lambda>b. (bs_thread b, bs_call b)) (filter (\<lambda>b. bs_after b = k) B)"

lemma add_start_get:
  assumes "bm_ok m"
  shows "bm_get (fold add_start B m) k =
    (if starts_at k B = [] then bm_get m k
     else Some ((case bm_get m k of Some q \<Rightarrow> q | None \<Rightarrow> []) @ starts_at k B))"
  using assms
proof (induction B arbitrary: m)
  case (Cons b B)
  show ?case
    using Cons.IH [OF add_start_ok [OF Cons.prems], of b] Cons.prems
    by (auto simp: starts_at_def add_start_def bm_get_insert split: option.splits)
qed (simp add: starts_at_def)

lemma queue_background_starts_eq:
  "bm_ok (background_starts r) \<Longrightarrow> queue_background_starts r =
     r\<lparr>background_starts := filter (\<lambda>e. record_position r < fst e) (background_starts r),
       pending_starts := pending_starts r @ flat (filter (\<lambda>e. fst e \<le> record_position r) (background_starts r))\<rparr>"
  by (simp add: queue_background_starts_def due_starts_eq)

lemma queue_background_starts_ok:
  assumes "bm_ok (background_starts r)" "\<forall>s \<in> set (pending_starts r). snd (snd s) \<le> record_position r"
  shows "starts_ok (queue_background_starts r)" "untaken_mset (queue_background_starts r) = untaken_mset r"
proof -
  have "snd (snd s) \<le> record_position r" if "s \<in> set (flat (filter (\<lambda>e. fst e \<le> record_position r) (background_starts r)))" for s
    using that flat_after [of "fst s" "fst (snd s)" "snd (snd s)"] by fastforce
  then show "starts_ok (queue_background_starts r)"
    using assms by (auto simp: queue_background_starts_eq starts_ok_def record_position_def bm_filter_ok)
  have "mset (flat (filter (\<lambda>e. fst e \<le> record_position r) (background_starts r)))
      + mset (flat (filter (\<lambda>e. record_position r < fst e) (background_starts r))) = mset (flat (background_starts r))"
    using mset_flat_filter [of "\<lambda>e. fst e \<le> record_position r" "background_starts r"] by (simp add: not_le)
  then show "untaken_mset (queue_background_starts r) = untaken_mset r"
    using assms(1) by (simp add: queue_background_starts_eq untaken_mset_def add.assoc)
qed

lemma replay_start_ok:
  "replay_ok S (with_background_starts B notes (new_replayer S))"
proof -
  define r where "r = (new_replayer S)\<lparr>background_starts := fold add_start B [], notes_background_starts := notes\<rparr>"
  have eq: "with_background_starts B notes (new_replayer S) = queue_background_starts r"
    by (simp add: with_background_starts_def new_replayer_def r_def)
  have sel: "cursor r = S" "release r = None" "schedule_len r = length S" "record_position r = 0" "unmatched_run r = 0"
    "last_consumed r = None" "exhausted_from r = None" "pending_starts r = []" "background_starts r = fold add_start B []"
    by (simp_all add: r_def new_replayer_def record_position_def)
  have ok: "bm_ok (background_starts r)" by (simp add: sel fold_add_start_ok)
  have starts: "starts_ok (queue_background_starts r)" by (rule queue_background_starts_ok) (use ok sel in simp_all)
  have "record_position (queue_background_starts r) = 0"
    using sel(4) by (simp add: queue_background_starts_eq [OF ok] record_position_def)
  then show ?thesis unfolding eq replay_ok_def position_ok_def indices_ok_def
    using starts sel by (simp add: queue_background_starts_eq [OF ok] UNMATCHED_EVENTS_BEFORE_RELEASE_def)
qed

subsection \<open>The beginning of an event\<close>

text \<open>The state in which an event is compared with the record, up to the statistics.\<close>

definition entered :: "replayer \<Rightarrow> replayer" where
  "entered r = r\<lparr>traced_event_count := traced_event_count r + 1, last_consumed := None,
     exhausted_from := (if cursor r = [] \<and> release r = None \<and> exhausted_from r = None
                        then Some (traced_event_count r) else exhausted_from r),
     passed_starts := passed_starts r
       @ map (\<lambda>(t, c, a). \<lparr>us_thread = t, us_call = c, us_after = a,
                passed_at = Some \<lparr>rp_event = traced_event_count r, record_event = record_position r\<rparr>\<rparr>) (pending_starts r),
     pending_starts := []\<rparr>"

lemma entered_ok:
  assumes "replay_ok S r"
  shows "replay_ok S (entered r)" "untaken_mset (entered r) = untaken_mset r"
proof -
  have p: "record_position (entered r) = record_position r" by (simp add: entered_def record_position_def)
  show "replay_ok S (entered r)"
    using assms unfolding replay_ok_defs p by (auto simp: entered_def split: option.splits)
  show "untaken_mset (entered r) = untaken_mset r"
    by (simp only: untaken_mset_def) (simp add: entered_def pass_starts_keys del: map_map)
qed

lemma observe_event_entered:
  assumes "traced_event_count r < u64_max"
  shows "\<exists>r2. core r2 = core (entered r)
    \<and> observe_event rnd obs r =
      (if pending_starts r \<noteq> [] \<and> die_on_desync r then Some (Stop FatalDesync, r2)
       else case peek (cursor r) of
           Some expected \<Rightarrow> observe_expected rnd obs expected (traced_event_count r) (observed_non_polling r) r2
         | None \<Rightarrow> Some (if replay_exhausted_panic r then Stop ReplayExausted else Continue None, r2))"
proof -
  define r0 where "r0 = note_syscall_in_flight obs (r\<lparr>traced_event_count := traced_event_count r + 1,
     observed_non_polling := observed_non_polling r + (if is_polling obs then 0 else 1)\<rparr>)"
  define r1 where "r1 = r0\<lparr>last_consumed := None,
     exhausted_from := (if cursor r0 = [] \<and> release r0 = None \<and> exhausted_from r0 = None
       then Some (traced_event_count r) else exhausted_from r0)\<rparr>"
  define r2 where "r2 = pass_starts \<lparr>rp_event = traced_event_count r, record_event = record_position r1\<rparr> (pending_starts r1)
    (r1\<lparr>pending_starts := []\<rparr>)"
  have c0: "core r0 = core (r\<lparr>traced_event_count := traced_event_count r + 1\<rparr>)"
    unfolding r0_def by simp (simp add: core_def)
  note f0 = core_eqD [OF c0]
  have "core (a\<lparr>last_consumed := x, exhausted_from := y\<rparr>) = (core a)\<lparr>last_consumed := x, exhausted_from := y\<rparr>" for a x y
    by (simp add: core_def)
  then have c1: "core r1 = core (r\<lparr>traced_event_count := traced_event_count r + 1, last_consumed := None,
     exhausted_from := (if cursor r = [] \<and> release r = None \<and> exhausted_from r = None
       then Some (traced_event_count r) else exhausted_from r)\<rparr>)"
    unfolding r1_def using c0 f0 by (simp add: core_def)
  note f1 = core_eqD [OF c1]
  have pos: "record_position r1 = record_position r" using record_position_core [OF c1] by (simp add: record_position_def)
  have "core ((a\<lparr>pending_starts := x\<rparr>)\<lparr>passed_starts := y\<rparr>) = (core a)\<lparr>pending_starts := x, passed_starts := y\<rparr>" for a x y
    by (simp add: core_def)
  then have c2: "core r2 = core (entered r)"
    unfolding r2_def pass_starts_core using c1 f1 pos by (simp add: core_def entered_def)
  have b: "begin_event obs r = Some r1"
    using assms by (simp add: begin_event_def add_u64_def r1_def r0_def Let_def)
  have "observe_event rnd obs r =
      (if pending_starts r1 \<noteq> [] \<and> die_on_desync r2 then Some (Stop FatalDesync, r2)
       else case peek (cursor r2) of
           Some expected \<Rightarrow> observe_expected rnd obs expected (traced_event_count r) (observed_non_polling r) r2
         | None \<Rightarrow> Some (if replay_exhausted_panic r2 then Stop ReplayExausted else Continue None, r2))"
    unfolding observe_event_def Let_def b bind.bind_lunit r2_def [symmetric] by (rule refl)
  moreover have "pending_starts r1 = pending_starts r" using f1 by simp
  moreover have "die_on_desync r2 = die_on_desync r" "cursor r2 = cursor r" "replay_exhausted_panic r2 = replay_exhausted_panic r"
    using core_eqD [OF c2] by (simp_all add: entered_def)
  ultimately show ?thesis using c2 by auto
qed

subsection \<open>The steps of an event\<close>

text \<open>
  The action an event is answered with names the thread of the record's next decision; only the observing
  thread's own next slice end may be taken without a stop.
\<close>

definition names_next :: "(real \<Rightarrow> real) \<Rightarrow> sched_event \<Rightarrow> replay_action \<Rightarrow> replayer \<Rightarrow> bool" where
  "names_next rnd obs action r \<longleftrightarrow>
     (case next_slice_end rnd r of
        None \<Rightarrow> action = Continue None
      | Some (t, e) \<Rightarrow>
          if t = dettid obs then action = Continue e \<or> action = Continue (map_option with_a_stop e)
          else \<exists>now. action = ContextSwitch now t (map_option with_a_stop e))"

lemma next_slice_end_core:
  assumes "core r = core r'"
  shows "next_slice_end rnd r = next_slice_end rnd r'"
proof -
  have eq: "resolve_time_to_run rnd r = resolve_time_to_run rnd r'"
    by (simp add: fun_eq_iff resolve_time_to_run_def timer_preemption_branches_def core_eqD(1) [OF assms])
  show ?thesis
    unfolding next_slice_end_def pending_background_start_def released_def core_eqD(1,8,12) [OF assms] eq by (rule refl)
qed

lemma names_next_core: "core r = core r' \<Longrightarrow> names_next rnd obs a r = names_next rnd obs a r'"
  using next_slice_end_core [of r r' rnd] by (simp add: names_next_def)

lemma finish_event_ok:
  assumes "end_time obs \<noteq> None"
  shows "\<exists>a r'. finish_event rnd obs hard r = Some (a, r') \<and> core r' = core r \<and> names_next rnd obs a r
    \<and> (\<not> hard \<longrightarrow> r' = r)"
proof -
  have "\<exists>a. check_context_switch rnd obs (\<not> hard) r = Some a \<and> names_next rnd obs a r"
  proof (cases "next_slice_end rnd r")
    case None
    then show ?thesis by (simp add: check_context_switch_def names_next_def)
  next
    case (Some te)
    then show ?thesis using assms by (cases te) (auto simp: check_context_switch_def names_next_def Let_def)
  qed
  then obtain a where "check_context_switch rnd obs (\<not> hard) r = Some a" "names_next rnd obs a r" by blast
  then show ?thesis by (cases a) (auto simp: finish_event_def)
qed

text \<open>What a step promises of the state it leaves, from a state compared with the record.\<close>

definition advance_ok :: "sched_event list \<Rightarrow> replayer \<Rightarrow> replayer \<Rightarrow> bool" where
  "advance_ok S r r' \<longleftrightarrow> replay_ok S r' \<and> untaken_mset r' = untaken_mset r
     \<and> traced_event_count r' = traced_event_count r \<and> record_position r \<le> record_position r'
     \<and> die_on_desync r' = die_on_desync r \<and> replay_exhausted_panic r' = replay_exhausted_panic r
     \<and> notes_background_starts r' = notes_background_starts r"

lemma advance_ok_core_left: "core r1 = core r2 \<Longrightarrow> advance_ok S r1 r' \<longleftrightarrow> advance_ok S r2 r'"
  using core_eqD [of r1 r2] untaken_core [of r1 r2] record_position_core [of r1 r2] by (simp add: advance_ok_def)

lemma advance_ok_core_right: "core r1 = core r2 \<Longrightarrow> advance_ok S r r1 \<longleftrightarrow> advance_ok S r r2"
  using core_eqD [of r1 r2] untaken_core [of r1 r2] record_position_core [of r1 r2] replay_ok_core [of r1 r2 S]
  by (simp add: advance_ok_def)

lemma advance_ok_trans: "advance_ok S r1 r2 \<Longrightarrow> advance_ok S r2 r3 \<Longrightarrow> advance_ok S r1 r3"
  by (auto simp: advance_ok_def)

lemma consume_expected_ok:
  assumes ok: "replay_ok S r" "cursor r \<noteq> []" and time: "end_time obs \<noteq> None"
  shows "\<exists>a r'. consume_expected rnd obs r = Some (a, r') \<and> advance_ok S r r' \<and> names_next rnd obs a r'
    \<and> last_consumed r' = Some (record_position r) \<and> record_position r' = Suc (record_position r)
    \<and> release r' = None \<and> unmatched_run r' = 0"
proof -
  note c = replay_ok_cursor [OF ok]
  let ?p = "record_position r"
  define r1 where "r1 = r\<lparr>last_consumed := Some ?p, events_popped := events_popped r + 1, cursor := tl (cursor r)\<rparr>"
  define r2 where "r2 = (queue_background_starts r1)\<lparr>unmatched_run := 0\<rparr>"
  have pos: "sub_u64 (schedule_len r) (length (cursor r)) = Some ?p" using c(2,3,6) by (simp add: sub_u64_def)
  have tl: "snd (cursor_next (cursor r)) = tl (cursor r)" by (cases "cursor r") simp_all
  have st: "bm_ok (background_starts r)" "\<forall>e \<in> set (background_starts r). ?p < fst e" "\<forall>s \<in> set (pending_starts r). snd (snd s) \<le> ?p"
    using ok(1) by (auto simp: replay_ok_def starts_ok_def)
  have r1: "bm_ok (background_starts r1)" "record_position r1 = Suc ?p" "\<forall>s \<in> set (pending_starts r1). snd (snd s) \<le> record_position r1"
    "untaken_mset r1 = untaken_mset r"
    using st by (auto simp: r1_def record_position_def untaken_mset_def)
  have sel: "cursor r2 = tl (cursor r)" "last_consumed r2 = Some ?p" "release r2 = None" "unmatched_run r2 = 0"
    "schedule_len r2 = length S" "exhausted_from r2 = None" "traced_event_count r2 = traced_event_count r"
    "die_on_desync r2 = die_on_desync r" "replay_exhausted_panic r2 = replay_exhausted_panic r"
    "notes_background_starts r2 = notes_background_starts r"
    using c unfolding r2_def queue_background_starts_eq [OF r1(1)] by (simp_all add: r1_def)
  have p2: "record_position r2 = Suc ?p"
    using r1(2) by (simp add: r2_def queue_background_starts_eq [OF r1(1)] record_position_def)
  have "starts_ok r2" "untaken_mset r2 = untaken_mset r"
    using queue_background_starts_ok [OF r1(1,3)] r1(4) by (simp_all add: r2_def starts_ok_def untaken_mset_def record_position_def)
  moreover have "position_ok S r2" "indices_ok r2"
    using c sel p2 by (simp_all add: position_ok_def indices_ok_def drop_Suc tl_drop UNMATCHED_EVENTS_BEFORE_RELEASE_def)
  ultimately have step: "advance_ok S r r2" using sel p2 by (simp add: advance_ok_def replay_ok_def)
  have "consume_expected rnd obs r = finish_event rnd obs False r2"
    using pos by (simp add: consume_expected_def pop_next_def tl r2_def r1_def)
  moreover obtain a where "finish_event rnd obs False r2 = Some (a, r2)" "names_next rnd obs a r2"
    using finish_event_ok [OF time, of rnd False r2] by auto
  ultimately show ?thesis using step sel p2 by auto
qed

lemma leave_unmatched_ok:
  assumes ok: "replay_ok S r" "cursor r \<noteq> []" and time: "end_time obs \<noteq> None"
  shows "\<exists>a r'. leave_unmatched rnd obs ix r = Some (a, r') \<and> advance_ok S r r' \<and> last_consumed r' = last_consumed r
    \<and> record_position r' = record_position r
    \<and> (released r' \<and> cursor r' = [] \<and> a = (if replay_exhausted_panic r then Stop ReplayExausted else Continue None)
       \<or> \<not> released r' \<and> names_next rnd obs a r' \<and> cursor r' = cursor r
         \<and> unmatched_run r' = unmatched_run r + (if is_polling obs then 0 else 1))"
proof -
  note c = replay_ok_cursor [OF ok]
  define r1 where "r1 = (if is_polling obs then r else r\<lparr>unmatched_run := unmatched_run r + 1\<rparr>)"
  have p1: "record_position r1 = record_position r" "untaken_mset r1 = untaken_mset r"
    by (simp_all add: r1_def record_position_def untaken_mset_def)
  have sel: "cursor r1 = cursor r" "release r1 = None" "schedule_len r1 = length S" "exhausted_from r1 = None"
    "last_consumed r1 = last_consumed r" "traced_event_count r1 = traced_event_count r" "die_on_desync r1 = die_on_desync r"
    "replay_exhausted_panic r1 = replay_exhausted_panic r" "notes_background_starts r1 = notes_background_starts r"
    "unmatched_run r1 = unmatched_run r + (if is_polling obs then 0 else 1)"
    "background_starts r1 = background_starts r" "pending_starts r1 = pending_starts r"
    using c by (simp_all add: r1_def)
  have rest: "starts_ok r1" "indices_ok r1"
    using ok(1) sel p1 by (simp_all add: replay_ok_def starts_ok_def indices_ok_def)
  show ?thesis
  proof (cases "UNMATCHED_EVENTS_BEFORE_RELEASE \<le> unmatched_run r1")
    case True
    then have np: "\<not> is_polling obs" using c(5) sel(10) by auto
    define r2 where "r2 = r1\<lparr>release := Some \<lparr>rel_event = ix, unreplayed = length (cursor r1)\<rparr>, cursor := []\<rparr>"
    have "leave_unmatched rnd obs ix r = Some (if replay_exhausted_panic r then Stop ReplayExausted else Continue None, r2)"
      using True np by (simp add: leave_unmatched_def r1_def r2_def release_schedule_def Let_def)
    moreover have p2: "record_position r2 = record_position r" using p1 by (simp add: r2_def record_position_def)
    moreover have "advance_ok S r r2"
      using rest sel p1 p2 c by (simp add: advance_ok_def replay_ok_defs r2_def untaken_mset_def)
    ultimately show ?thesis using sel by (simp add: r2_def released_def)
  next
    case False
    obtain a r' where f: "finish_event rnd obs True r1 = Some (a, r')" "core r' = core r1" "names_next rnd obs a r1"
      using finish_event_ok [OF time, of rnd True r1] by auto
    have "leave_unmatched rnd obs ix r = Some (a, r')"
      using False f(1) by (simp add: leave_unmatched_def r1_def Let_def split: if_splits)
    moreover have "advance_ok S r r1"
      using rest sel p1 c False by (simp add: advance_ok_def replay_ok_def position_ok_def)
    moreover have "names_next rnd obs a r'" using f(3) names_next_core [OF f(2)] by simp
    ultimately show ?thesis
      using sel p1 advance_ok_core_right [OF f(2)] core_eqD [OF f(2)] record_position_core [OF f(2)] by (simp add: released_def)
  qed
qed

text \<open>The state after the starts among \<open>d\<close> dropped events are passed, up to the statistics.\<close>

definition retired :: "nat \<Rightarrow> nat \<Rightarrow> replayer \<Rightarrow> replayer" where
  "retired d ix r = r\<lparr>
     background_starts := filter (\<lambda>e. \<not> (record_position r + 1 \<le> fst e \<and> fst e \<le> record_position r + d)) (background_starts r),
     passed_starts := passed_starts r
       @ map (\<lambda>(t, c, a). \<lparr>us_thread = t, us_call = c, us_after = a,
                passed_at = Some \<lparr>rp_event = ix, record_event = record_position r\<rparr>\<rparr>) (skipped_starts d r),
     skipped := skipped r + d\<rparr>"

lemma retire_skipped_starts_eq:
  assumes "0 < d"
  shows "\<exists>n r'. retire_skipped_starts d ix r = Some (n, r') \<and> core r' = core (retired d ix r)"
proof -
  define r1 where "r1 = r\<lparr>background_starts :=
    filter (\<lambda>e. \<not> (record_position r + 1 \<le> fst e \<and> fst e \<le> record_position r + d)) (background_starts r)\<rparr>"
  define r2 where "r2 = pass_starts \<lparr>rp_event = ix, record_event = record_position r\<rparr> (skipped_starts d r) r1"
  have eq: "retire_skipped_starts d ix r = Some (length (skipped_starts d r), r2\<lparr>skipped := skipped r2 + d\<rparr>)"
    using assms unfolding retire_skipped_starts_def Let_def r2_def r1_def by simp
  have c2: "core r2 = core (r1\<lparr>passed_starts := passed_starts r1
      @ map (\<lambda>(t, c, a). \<lparr>us_thread = t, us_call = c, us_after = a,
          passed_at = Some \<lparr>rp_event = ix, record_event = record_position r\<rparr>\<rparr>) (skipped_starts d r)\<rparr>)"
    unfolding r2_def by (rule pass_starts_core)
  have upd: "core (x\<lparr>skipped := v\<rparr>) = (core x)\<lparr>skipped := v\<rparr>" for x v by (simp add: core_def)
  have "core (r2\<lparr>skipped := skipped r2 + d\<rparr>) = core (retired d ix r)"
    unfolding upd c2 core_eqD(14) [OF c2] by (simp add: core_def retired_def r1_def)
  then show ?thesis using eq by blast
qed

lemma retired_ok:
  assumes "replay_ok S r" "release r = None" "d < length (cursor r)"
  shows "advance_ok S r (retired d ix (r\<lparr>cursor := drop d (cursor r)\<rparr>))"
    "record_position (retired d ix (r\<lparr>cursor := drop d (cursor r)\<rparr>)) = record_position r + d"
proof -
  define r1 where "r1 = r\<lparr>cursor := drop d (cursor r)\<rparr>"
  have ne: "cursor r \<noteq> []" using assms(3) by auto
  note c = replay_ok_cursor [OF assms(1) ne]
  have p1: "record_position r1 = record_position r" by (simp add: r1_def record_position_def)
  have sel1: "passed_starts r1 = passed_starts r" "pending_starts r1 = pending_starts r"
    "background_starts r1 = background_starts r" "cursor r1 = drop d (cursor r)"
    by (simp_all add: r1_def)
  show p: "record_position (retired d ix r1) = record_position r + d" by (simp add: retired_def record_position_def r1_def)
  have sk: "skipped_starts d r1 = flat (filter (\<lambda>e. record_position r + 1 \<le> fst e \<and> fst e \<le> record_position r + d) (background_starts r))"
    unfolding skipped_starts_eq p1 by (simp add: r1_def)
  have "untaken_mset (retired d ix r1) = untaken_mset r"
    using mset_flat_filter [of "\<lambda>e. record_position r + 1 \<le> fst e \<and> fst e \<le> record_position r + d" "background_starts r"]
    by (simp only: untaken_mset_def) (simp add: retired_def p1 sk pass_starts_keys sel1 union_ac del: map_map)
  moreover have "position_ok S (retired d ix r1)"
    using assms c unfolding position_ok_def p by (simp add: retired_def r1_def add.commute)
  moreover have "starts_ok (retired d ix r1)"
    using assms(1) unfolding replay_ok_def starts_ok_def p
    by (auto simp: retired_def p1 sel1 bm_filter_ok intro: trans_le_add1)
  moreover have "indices_ok (retired d ix r1)"
    using assms(1) c(4) unfolding replay_ok_def indices_ok_def p by (auto simp: retired_def r1_def intro: trans_less_add1)
  ultimately show "advance_ok S r (retired d ix r1)"
    using p by (simp add: advance_ok_def replay_ok_def) (simp add: retired_def r1_def)
qed

lemma resync_ok:
  assumes ok: "replay_ok S r" "cursor r \<noteq> []" and "is_desync obs (hd (cursor r))"
  shows "\<exists>fatal hard' r'. resync obs ix hard r = Some (fatal, hard', r') \<and> advance_ok S r r' \<and> cursor r' \<noteq> []
    \<and> last_consumed r' = last_consumed r \<and> unmatched_run r' = unmatched_run r \<and> release r' = None
    \<and> (fatal \<longrightarrow> die_on_desync r)
    \<and> (hard' = hard \<and> core r' = core r \<and> \<not> fatal \<or> \<not> hard' \<and> events_match obs (hd (cursor r')))"
proof (cases "prefix_contains (cursor r) LOOKAHEAD_WINDOW (\<lambda>expected. events_match obs expected)")
  case None
  then have "resync obs ix hard r = Some (False, hard, r)" by (simp add: resync_def check_fast_forward_def)
  moreover have "advance_ok S r r" using ok(1) by (simp add: advance_ok_def)
  ultimately show ?thesis using ok(2) replay_ok_cursor(1) [OF ok] by blast
next
  case (Some k)
  note k = prefix_contains_Some [OF Some]
  have "cursor r ! 0 = hd (cursor r)" using ok(2) by (simp add: hd_conv_nth)
  then have pos: "0 < k" using k(3) assms(3) by (cases k) (auto simp: events_match_def)
  let ?r = "r\<lparr>cursor := drop k (cursor r)\<rparr>"
  define r1 where "r1 = update_stats (dettid obs) (\<lambda>c. c\<lparr>resync_deletions := resync_deletions c + 1\<rparr>)
    ((update_stats (dettid obs) (\<lambda>c. c\<lparr>fast_forwards := fast_forwards c + 1\<rparr>) r)\<lparr>cursor := cursor_drop k (cursor r)\<rparr>)"
  have c1: "core r1 = core ?r" unfolding r1_def using k(1) by (simp add: core_def update_stats_def cursor_drop_def min_def)
  obtain n r2 where r2: "retire_skipped_starts k ix r1 = Some (n, r2)" "core r2 = core (retired k ix r1)"
    using retire_skipped_starts_eq [OF pos] by blast
  have "core (retired k ix r1) = core (retired k ix ?r)"
    using c1 core_eqD [OF c1] record_position_core [OF c1] by (simp add: core_def retired_def skipped_starts_def)
  then have c2: "core r2 = core (retired k ix ?r)" using r2(2) by simp
  have "resync obs ix hard r = Some (0 < n \<and> die_on_desync r2, False, r2)"
    using Some pos r2(1) by (simp add: resync_def check_fast_forward_def r1_def)
  moreover have "advance_ok S r r2"
    using advance_ok_core_right [OF c2] retired_ok(1) [OF ok(1) replay_ok_cursor(1) [OF ok] k(1)] by simp
  moreover have "cursor r2 = drop k (cursor r)" "last_consumed r2 = last_consumed r" "unmatched_run r2 = unmatched_run r"
    "release r2 = None" "die_on_desync r2 = die_on_desync r"
    using core_eqD [OF c2] replay_ok_cursor(1) [OF ok] by (simp_all add: retired_def)
  moreover have "hd (drop k (cursor r)) = cursor r ! k" using k(1) by (simp add: hd_drop_conv_nth)
  ultimately show ?thesis using k(1,3) by auto
qed

end
