(* ===== verification/Replayer_Hist.thy ===== *)
theory Replayer_Hist
  imports Replayer_Correct
begin

text \<open>
  Observing an event as a whole, and histories of a replay: the events it observes, the calls the scheduler
  begins and the retry turns it asks for.
\<close>

subsection \<open>One event\<close>

text \<open>
  What comparing an event with the record does. A recorded event is consumed only by an event that is not
  in hard desync with it; an event that consumes nothing leaves the position, counts as unmatched unless it
  is a polling retry, and may end the replay.
\<close>

definition consumes :: "sched_event list \<Rightarrow> sched_event \<Rightarrow> nat \<Rightarrow> nat \<Rightarrow> replayer \<Rightarrow> bool" where
  "consumes S obs pos p r' \<longleftrightarrow> pos \<le> p \<and> record_position r' = Suc p \<and> \<not> is_hard_desync obs (S ! p)
     \<and> \<not> released r' \<and> unmatched_run r' = 0"

definition leaves :: "sched_event \<Rightarrow> replayer \<Rightarrow> replayer \<Rightarrow> bool" where
  "leaves obs r r' \<longleftrightarrow> record_position r' = record_position r
     \<and> (\<not> released r' \<longrightarrow> cursor r' = cursor r \<and> unmatched_run r' = unmatched_run r + (if is_polling obs then 0 else 1))"

definition compared_ok ::
  "(real \<Rightarrow> real) \<Rightarrow> sched_event list \<Rightarrow> sched_event \<Rightarrow> replayer \<Rightarrow> replay_action \<Rightarrow> replayer \<Rightarrow> bool" where
  "compared_ok rnd S obs r a r' \<longleftrightarrow> advance_ok S r r'
     \<and> ((\<exists>why. a = Stop why) \<and> (die_on_desync r \<or> replay_exhausted_panic r) \<and> last_consumed r' = None
        \<or> (\<exists>p. last_consumed r' = Some p \<and> consumes S obs (record_position r) p r' \<and> names_next rnd obs a r')
        \<or> last_consumed r' = None \<and> leaves obs r r'
          \<and> (if released r' then a = Continue None else names_next rnd obs a r'))"

lemma compared_stop:
  "advance_ok S r r' \<Longrightarrow> die_on_desync r \<Longrightarrow> last_consumed r' = None \<Longrightarrow> compared_ok rnd S obs r (Stop why) r'"
  by (auto simp: compared_ok_def)

lemma compared_consume:
  assumes "replay_ok S r" "cursor r \<noteq> []" "end_time obs \<noteq> None" "\<not> is_hard_desync obs (hd (cursor r))" "advance_ok S r0 r"
  shows "\<exists>a r'. consume_expected rnd obs r = Some (a, r') \<and> compared_ok rnd S obs r0 a r'"
proof -
  obtain a r' where r': "consume_expected rnd obs r = Some (a, r')" "advance_ok S r r'" "names_next rnd obs a r'"
    "last_consumed r' = Some (record_position r)" "record_position r' = Suc (record_position r)" "release r' = None"
    "unmatched_run r' = 0"
    using consume_expected_ok [OF assms(1,2,3)] by blast
  have "hd (cursor r) = S ! record_position r"
    using replay_ok_cursor(2,3) [OF assms(1,2)] by (simp add: hd_drop_conv_nth)
  moreover have "record_position r0 \<le> record_position r" using assms(5) by (simp add: advance_ok_def)
  ultimately have "consumes S obs (record_position r0) (record_position r) r'"
    using r'(5-7) assms(4) by (simp add: consumes_def released_def)
  then show ?thesis
    using r'(1,3,4) advance_ok_trans [OF assms(5) r'(2)] by (auto simp: compared_ok_def)
qed

lemma compared_unmatched:
  assumes "replay_ok S r" "cursor r \<noteq> []" "end_time obs \<noteq> None" "last_consumed r = None" "core r = core r0"
  shows "\<exists>a r'. leave_unmatched rnd obs ix r = Some (a, r') \<and> compared_ok rnd S obs r0 a r'"
proof -
  obtain a r' where r': "leave_unmatched rnd obs ix r = Some (a, r')" "advance_ok S r r'" "last_consumed r' = last_consumed r"
    "record_position r' = record_position r"
    "released r' \<and> cursor r' = [] \<and> a = (if replay_exhausted_panic r then Stop ReplayExausted else Continue None)
     \<or> \<not> released r' \<and> names_next rnd obs a r' \<and> cursor r' = cursor r
       \<and> unmatched_run r' = unmatched_run r + (if is_polling obs then 0 else 1)"
    using leave_unmatched_ok [OF assms(1,2,3)] by blast
  have "advance_ok S r0 r'" using r'(2) advance_ok_core_left [OF assms(5)] by simp
  moreover have "leaves obs r0 r'"
    using r'(4,5) core_eqD(1,7) [OF assms(5)] record_position_core [OF assms(5)] by (auto simp: leaves_def)
  ultimately show ?thesis
    using r' assms(4) core_eqD(9) [OF assms(5)] by (auto simp: compared_ok_def)
qed

text \<open>The fast-forward of an event in desync, and what follows it.\<close>

lemma compared_desync:
  assumes ok: "replay_ok S r" "cursor r \<noteq> []" and S: "legal_schedule S" and time: "end_time obs \<noteq> None"
    and fresh: "last_consumed r = None" and desync: "is_desync obs (hd (cursor r))" and c: "core r = core r0"
  shows "\<exists>a r'. do {
       (fatal, hard, r) \<leftarrow> resync obs ix (is_hard_desync obs (hd (cursor r))) r;
       if fatal then Some (Stop FatalDesync, r)
       else if hard then leave_unmatched rnd obs npix r
       else consume_expected rnd obs r
     } = Some (a, r') \<and> compared_ok rnd S obs r0 a r'"
proof -
  obtain fatal hard r3 where r3: "resync obs ix (is_hard_desync obs (hd (cursor r))) r = Some (fatal, hard, r3)"
    "advance_ok S r r3" "cursor r3 \<noteq> []" "last_consumed r3 = last_consumed r" "unmatched_run r3 = unmatched_run r"
    "release r3 = None" "fatal \<longrightarrow> die_on_desync r"
    "hard = is_hard_desync obs (hd (cursor r)) \<and> core r3 = core r \<and> \<not> fatal \<or> \<not> hard \<and> events_match obs (hd (cursor r3))"
    using resync_ok [OF ok desync] by blast
  have ok3: "replay_ok S r3" using r3(2) by (simp add: advance_ok_def)
  have step: "advance_ok S r0 r3" using r3(2) advance_ok_core_left [OF c] by simp
  consider "fatal" | "\<not> fatal" "hard" | "\<not> fatal" "\<not> hard" by blast
  then show ?thesis
  proof cases
    case 1
    then show ?thesis using r3(1,4,7) fresh compared_stop [OF step] core_eqD(10) [OF c] by simp
  next
    case 2
    then have "core r3 = core r0" using r3(8) c by auto
    then show ?thesis using 2 r3(1,4) fresh compared_unmatched [OF ok3 r3(3) time] by simp
  next
    case 3
    have "\<not> is_hard_desync obs (hd (cursor r3))"
    proof (cases "events_match obs (hd (cursor r3))")
      case True
      have "hd (cursor r3) \<in> set S"
        using replay_ok_cursor(2) [OF ok3 r3(3)] hd_in_set [OF r3(3)] in_set_dropD by metis
      then show ?thesis using True S hard_desync_is_desync by (auto simp: legal_schedule_def events_match_def)
    next
      case False
      then have "\<not> is_hard_desync obs (hd (cursor r))" "core r3 = core r" using r3(8) 3 by auto
      then show ?thesis using core_eqD(1) [of r3 r] by simp
    qed
    then show ?thesis using 3 r3(1) compared_consume [OF ok3 r3(3) time _ step] by simp
  qed
qed

lemma observe_expected_ok:
  assumes ok: "replay_ok S r" "peek (cursor r) = Some expd" and S: "legal_schedule S"
    and time: "end_time obs \<noteq> None" and fresh: "last_consumed r = None"
  shows "\<exists>a r'. observe_expected rnd obs expd ix npix r = Some (a, r') \<and> compared_ok rnd S obs r a r'"
proof -
  have ne: "cursor r \<noteq> []" and hd: "hd (cursor r) = expd"
    using ok(2) by (auto simp: peek_def peek_nth_def hd_conv_nth split: if_splits)
  define desync where "desync = is_desync obs expd"
  obtain fatal r1 where r1: "(if desync then count_desync obs expd ix r else (False, r)) = (fatal, r1)" by fastforce
  have c1: "core r1 = core r" using r1 core_count_desync [of obs expd ix r] by (cases desync) simp_all
  have fatal1: "fatal \<Longrightarrow> die_on_desync r"
    using r1 by (cases desync) (auto simp: count_desync_def Let_def update_stats_def split: if_splits)
  define r2 where "r2 = counts_next_round (dettid obs) desync r1"
  have c2: "core r2 = core r" using c1 by (simp add: r2_def)
  have ok2: "replay_ok S r2" "cursor r2 \<noteq> []" "hd (cursor r2) = expd" "last_consumed r2 = None"
    using replay_ok_core [OF c2] ok(1) ne hd fresh core_eqD(1,5) [OF c2] by simp_all
  have step: "advance_ok S r r1" "advance_ok S r r2"
    using ok(1) advance_ok_core_right [OF c1] advance_ok_core_right [OF c2] by (simp_all add: advance_ok_def)
  have eq: "observe_expected rnd obs expd ix npix r =
     (if fatal then Some (Stop FatalDesync, r1)
      else do {
        (fatal, hard, r) \<leftarrow> (if desync then resync obs ix (is_hard_desync obs expd) r2 else Some (False, False, r2));
        if fatal then Some (Stop FatalDesync, r)
        else if hard then leave_unmatched rnd obs npix r
        else consume_expected rnd obs r
      })"
    unfolding observe_expected_def Let_def desync_def [symmetric] r1 r2_def by simp
  consider "fatal" | "\<not> fatal" "desync" | "\<not> fatal" "\<not> desync" by blast
  then show ?thesis
  proof cases
    case 1
    then show ?thesis using eq compared_stop [OF step(1) fatal1] core_eqD(5) [OF c1] fresh by simp
  next
    case 2
    then show ?thesis
      using eq compared_desync [OF ok2(1,2) S time ok2(4) _ c2] ok2(3) by (simp add: desync_def)
  next
    case 3
    have "expd \<in> set S" using replay_ok_cursor(2) [OF ok(1) ne] hd_in_set [OF ne] hd in_set_dropD by metis
    then have "\<not> is_hard_desync obs (hd (cursor r2))"
      using 3 S hard_desync_is_desync ok2(3) by (auto simp: legal_schedule_def desync_def)
    then show ?thesis using 3 eq compared_consume [OF ok2(1,2) time _ step(2)] by simp
  qed
qed

text \<open>The same for a whole event.\<close>

definition observed_ok ::
  "(real \<Rightarrow> real) \<Rightarrow> sched_event list \<Rightarrow> sched_event \<Rightarrow> replayer \<Rightarrow> replay_action \<Rightarrow> replayer \<Rightarrow> bool" where
  "observed_ok rnd S obs r a r' \<longleftrightarrow>
     replay_ok S r' \<and> untaken_mset r' = untaken_mset r \<and> traced_event_count r' = traced_event_count r + 1
     \<and> record_position r \<le> record_position r'
     \<and> die_on_desync r' = die_on_desync r \<and> replay_exhausted_panic r' = replay_exhausted_panic r
     \<and> ((\<exists>why. a = Stop why) \<and> (die_on_desync r \<or> replay_exhausted_panic r) \<and> last_consumed r' = None
        \<or> (\<exists>p. last_consumed r' = Some p \<and> consumes S obs (record_position r) p r' \<and> names_next rnd obs a r')
        \<or> last_consumed r' = None \<and> cursor r \<noteq> [] \<and> leaves obs r r'
          \<and> (if released r' then a = Continue None else names_next rnd obs a r')
        \<or> last_consumed r' = None \<and> cursor r = [] \<and> a = Continue None)
     \<and> (cursor r = [] \<longrightarrow> record_position r' = record_position r \<and> release r' = release r)"

lemma observe_event_ok:
  assumes ok: "replay_ok S r" and S: "legal_schedule S" and time: "end_time obs \<noteq> None"
    and room: "traced_event_count r < u64_max"
  shows "\<exists>a r'. observe_event rnd obs r = Some (a, r') \<and> observed_ok rnd S obs r a r'"
proof -
  obtain r2 where c2: "core r2 = core (entered r)" and eq: "observe_event rnd obs r =
      (if pending_starts r \<noteq> [] \<and> die_on_desync r then Some (Stop FatalDesync, r2)
       else case peek (cursor r) of
           Some expected \<Rightarrow> observe_expected rnd obs expected (traced_event_count r) (observed_non_polling r) r2
         | None \<Rightarrow> Some (if replay_exhausted_panic r then Stop ReplayExausted else Continue None, r2))"
    using observe_event_entered [OF room] by blast
  note f2 = core_eqD [OF c2]
  have r2: "replay_ok S r2" "untaken_mset r2 = untaken_mset r" "record_position r2 = record_position r"
    "traced_event_count r2 = traced_event_count r + 1" "last_consumed r2 = None" "cursor r2 = cursor r"
    "die_on_desync r2 = die_on_desync r" "replay_exhausted_panic r2 = replay_exhausted_panic r"
    "unmatched_run r2 = unmatched_run r" "release r2 = release r"
    using entered_ok [OF ok] replay_ok_core [OF c2] untaken_core [OF c2] record_position_core [OF c2] f2
    by (simp_all add: entered_def record_position_def)
  consider "pending_starts r \<noteq> [] \<and> die_on_desync r" | "\<not> (pending_starts r \<noteq> [] \<and> die_on_desync r)" "cursor r = []"
    | expd where "\<not> (pending_starts r \<noteq> [] \<and> die_on_desync r)" "peek (cursor r) = Some expd" "cursor r \<noteq> []"
    by (cases "cursor r") (auto simp: peek_def peek_nth_def)
  then show ?thesis
  proof cases
    case 1
    then show ?thesis using eq r2 by (simp add: observed_ok_def)
  next
    case 2
    then show ?thesis using eq r2 by (auto simp: observed_ok_def peek_def peek_nth_def)
  next
    case 3
    then obtain a r' where r': "observe_event rnd obs r = Some (a, r')" "compared_ok rnd S obs r2 a r'"
      using eq observe_expected_ok [OF r2(1) _ S time r2(5), of expd rnd "traced_event_count r" "observed_non_polling r"] r2(6)
      by auto
    have "leaves obs r2 r' \<longleftrightarrow> leaves obs r r'" using r2 by (simp add: leaves_def)
    then show ?thesis using r' 3(3) r2 by (auto simp: observed_ok_def compared_ok_def advance_ok_def)
  qed
qed

subsection \<open>Histories\<close>

datatype replay_call = Observe sched_event | BeginCall det_tid nat | KeepTurn det_tid

fun replay_step :: "(real \<Rightarrow> real) \<Rightarrow> replay_call \<Rightarrow> replayer \<Rightarrow> replayer option" where
  "replay_step rnd (Observe e) r = map_option snd (observe_event rnd e r)"
| "replay_step rnd (BeginCall thread call) r = Some (snd (replay_background_start thread call r))"
| "replay_step rnd (KeepTurn tid) r = Some (snd (keep_retry_turn tid r))"

text \<open>The events carry their time, and there are fewer than \<open>2^64\<close> of them, the recorded ones included.\<close>

fun replay_pre :: "sched_event list \<Rightarrow> replay_call \<Rightarrow> replayer \<Rightarrow> bool" where
  "replay_pre S (Observe e) r \<longleftrightarrow> end_time e \<noteq> None \<and> length S + traced_event_count r < u64_max"
| "replay_pre S _ r \<longleftrightarrow> True"

type_synonym replay_abs = "nat \<times> (det_tid \<times> nat \<times> nat) multiset \<times> bool \<times> (det_tid \<times> nat) option"

definition replay_view :: "replayer \<Rightarrow> replay_abs" where
  "replay_view r = (record_position r, untaken_mset r, released r, pending_background_start r)"

text \<open>
  The abstract replay: a position that only grows and stands still once the schedule is given up, the
  starts not taken, and the start that is pending, one of those not taken that is due, and none once the
  schedule is given up. A call that begins takes the pending start when it is that start, and otherwise
  changes nothing.
\<close>

definition may_pend ::
  "nat \<Rightarrow> (det_tid \<times> nat \<times> nat) multiset \<Rightarrow> bool \<Rightarrow> (det_tid \<times> nat) option \<Rightarrow> bool" where
  "may_pend p u rel pend \<longleftrightarrow>
     (\<forall>t c. pend = Some (t, c) \<longrightarrow> \<not> rel \<and> (\<exists>a \<le> p. (t, c, a) \<in># u))"

fun replay_spec :: "replay_call \<Rightarrow> replay_abs \<Rightarrow> replay_abs \<Rightarrow> bool" where
  "replay_spec (Observe e) (p, u, rel, pend) (p', u', rel', pend') \<longleftrightarrow>
     p \<le> p' \<and> u' = u \<and> (rel \<longrightarrow> rel' \<and> p' = p) \<and> may_pend p' u' rel' pend'"
| "replay_spec (BeginCall t c) (p, u, rel, pend) (p', u', rel', pend') \<longleftrightarrow> p' = p \<and> rel' = rel
     \<and> (if pend = Some (t, c)
        then (\<exists>a \<le> p. (t, c, a) \<in># u \<and> u' = u - {#(t, c, a)#}) \<and> may_pend p' u' rel' pend'
        else u' = u \<and> pend' = pend)"
| "replay_spec (KeepTurn t) v v' \<longleftrightarrow> v' = v"

lemma pending_may_pend:
  assumes "replay_ok S r"
  shows "may_pend (record_position r) (untaken_mset r) (released r) (pending_background_start r)"
  using assms
  by (auto simp: may_pend_def pending_background_start_def replay_ok_def starts_ok_def untaken_mset_def
      split: if_splits list.splits)

lemma replay_view_core:
  assumes "core r' = core r"
  shows "replay_view r' = replay_view r"
  using untaken_core [OF assms] record_position_core [OF assms] core_eqD [OF assms]
  by (simp add: replay_view_def released_def pending_background_start_def)

lemma observe_event_spec:
  assumes "observed_ok rnd S obs r a r'" "replay_ok S r"
  shows "replay_spec (Observe obs) (replay_view r) (replay_view r')"
proof -
  have "cursor r = []" if "released r"
    using assms(2) that by (auto simp: replay_ok_def position_ok_def released_def)
  then show ?thesis
    using assms(1) pending_may_pend [of S r'] by (auto simp: observed_ok_def replay_view_def released_def)
qed

lemma begin_call_ok:
  assumes "replay_ok S r"
  shows "replay_ok S (snd (replay_background_start t c r))"
    "replay_spec (BeginCall t c) (replay_view r) (replay_view (snd (replay_background_start t c r)))"
proof -
  let ?r' = "snd (replay_background_start t c r)"
  have "replay_ok S ?r' \<and> replay_spec (BeginCall t c) (replay_view r) (replay_view ?r')"
  proof (cases "pending_background_start r = Some (t, c)")
    case True
    then obtain a rest where p: "\<not> released r" "pending_starts r = (t, c, a) # rest"
      by (auto simp: pending_background_start_def split: if_splits list.splits)
    have r': "?r' = r\<lparr>pending_starts := rest\<rparr>"
      using True p by (simp add: replay_background_start_def take_background_start_def)
    have "record_position ?r' = record_position r" by (simp add: r' record_position_def)
    moreover have "a \<le> record_position r" using assms p(2) by (simp add: replay_ok_def starts_ok_def)
    moreover have "replay_ok S ?r'"
      using assms p(2) unfolding r' replay_ok_defs by (simp add: record_position_def split: option.splits)
    ultimately show ?thesis
      using p True pending_may_pend [of S ?r'] by (auto simp: r' replay_view_def released_def untaken_mset_def intro!: exI [of _ a])
  next
    case False
    have c: "core ?r' = core r"
      using False
      by (simp add: replay_background_start_def take_background_start_def note_unrecorded_background_start_def count_hard_def)
    show ?thesis using assms replay_ok_core [OF c] False by (simp add: replay_view_core [OF c]) (simp add: replay_view_def)
  qed
  then show "replay_ok S ?r'" "replay_spec (BeginCall t c) (replay_view r) (replay_view ?r')" by blast+
qed

lemma core_keep_retry [simp]: "core (snd (keep_retry_turn t r)) = core r"
  by (simp add: keep_retry_turn_def Let_def core_def)

interpretation rp: protocol_object "\<lambda>r. legal_schedule S \<and> replay_ok S r" "replay_pre S" "replay_step rnd" replay_view replay_spec
proof
  fix r c
  assume ok: "legal_schedule S \<and> replay_ok S r" and pre: "replay_pre S c r"
  show "\<exists>r'. replay_step rnd c r = Some r' \<and> (legal_schedule S \<and> replay_ok S r') \<and> replay_spec c (replay_view r) (replay_view r')"
  proof (cases c)
    case (Observe e)
    then obtain a r' where "observe_event rnd e r = Some (a, r')" "observed_ok rnd S e r a r'"
      using observe_event_ok [of S r e rnd] ok pre by auto
    then show ?thesis using Observe ok observe_event_spec [of rnd S e r a r'] by (auto simp: observed_ok_def)
  next
    case (BeginCall t call)
    then show ?thesis using begin_call_ok [of S r t call] ok by simp
  next
    case (KeepTurn t)
    show ?thesis using KeepTurn ok replay_ok_core [OF core_keep_retry] by (simp add: replay_view_core [OF core_keep_retry])
  qed
qed

end
