(* ===== verification/Replayer_Follow.thy ===== *)
theory Replayer_Follow
  imports Replayer_Hist
begin

text \<open>
  A run that follows its record, and a run that does not: the decisions of a faithful replay are the ones of
  the record, with no desync; and a replay that matches nothing is given up after a bounded number of events.
\<close>

subsection \<open>The decisions of a record\<close>

text \<open>
  What runs at a position of the record, and for how long: the first background start recorded there, and
  without one the thread of the event there. The event ends a slice of its own length when it is the end of
  a slice taken without a stop, and otherwise when it is branches that a timer cut: they have the address
  where the stop was, or more branches or an event of another thread come right after them.
\<close>

definition ends_slice :: "sched_event list \<Rightarrow> nat \<Rightarrow> bool" where
  "ends_slice S p \<longleftrightarrow> stopless (S ! p)
     \<or> ev_op (S ! p) = Branch
       \<and> (end_rip (S ! p) \<noteq> None
          \<or> Suc p < length S \<and> (ev_op (S ! Suc p) = Branch \<or> dettid (S ! Suc p) \<noteq> dettid (S ! p)))"

definition next_decision ::
  "(real \<Rightarrow> real) \<Rightarrow> sched_event list \<Rightarrow> background_start list \<Rightarrow> nat \<Rightarrow> (det_tid \<times> nat option) option" where
  "next_decision rnd S B p =
     (case starts_at p B of
        (t, _) # _ \<Rightarrow> Some (t, None)
      | [] \<Rightarrow> if p < length S
              then Some (dettid (S ! p), if ends_slice S p then Some (from_rcbs rnd (ev_count (S ! p))) else None)
              else None)"

lemma resolve_time_to_run_length:
  assumes "cursor r = drop p S" "p < length S"
  shows "map_option se_length (resolve_time_to_run rnd r (S ! p)) =
    (if ends_slice S p then Some (from_rcbs rnd (ev_count (S ! p))) else None)"
proof -
  have next_ev: "peek_nth (cursor r) 1 = (if Suc p < length S then Some (S ! Suc p) else None)"
    using assms by (auto simp: peek_nth_def)
  show ?thesis
    unfolding resolve_time_to_run_def timer_preemption_branches_def next_ev
    by (auto simp: ends_slice_def with_a_stop_def Let_def)
qed

definition or_stays :: "det_tid \<Rightarrow> (det_tid \<times> nat option) option \<Rightarrow> det_tid \<times> nat option" where
  "or_stays own d = (case d of None \<Rightarrow> (own, None) | Some d \<Rightarrow> d)"

text \<open>What an action makes the scheduler run after an event of the thread \<open>own\<close>.\<close>

fun decided :: "det_tid \<Rightarrow> replay_action \<Rightarrow> (det_tid \<times> nat option) option" where
  "decided own (Continue e) = Some (own, map_option se_length e)"
| "decided own (ContextSwitch now t e) = Some (t, map_option se_length e)"
| "decided own (Stop why) = None"

text \<open>
  The run that follows the record: the calls of the pending starts begin in their order, then the event of
  the position is observed. \<open>None\<close> is a panic or a start that stops the run.
\<close>

fun begin_starts :: "(det_tid \<times> nat \<times> nat) list \<Rightarrow> replayer \<Rightarrow> bool \<times> replayer" where
  "begin_starts [] r = (False, r)"
| "begin_starts ((t, c, _) # rest) r =
     (case replay_background_start t c r of (True, r) \<Rightarrow> (True, r) | (False, r) \<Rightarrow> begin_starts rest r)"

fun follow :: "(real \<Rightarrow> real) \<Rightarrow> sched_event list \<Rightarrow> replayer \<Rightarrow> (replay_action list \<times> replayer) option" where
  "follow rnd [] r = Some ([], r)"
| "follow rnd (e # es) r =
     (case begin_starts (pending_starts r) r of
        (True, r) \<Rightarrow> None
      | (False, r) \<Rightarrow> do {
          (a, r) \<leftarrow> observe_event rnd e r;
          (as, r) \<leftarrow> follow rnd es r;
          Some (a # as, r)
        })"

definition follows :: "sched_event \<Rightarrow> sched_event \<Rightarrow> bool" where
  "follows obs expd \<longleftrightarrow> \<not> is_desync obs expd \<and> end_time obs \<noteq> None"

subsection \<open>The state of a faithful replay\<close>

definition start_map :: "background_start list \<Rightarrow> starts_by_event" where
  "start_map B = fold add_start B []"

definition following :: "sched_event list \<Rightarrow> background_start list \<Rightarrow> nat \<Rightarrow> replayer \<Rightarrow> bool" where
  "following S B p r \<longleftrightarrow> replay_ok S r \<and> record_position r = p \<and> release r = None \<and> traced_event_count r = p
     \<and> passed_starts r = [] \<and> first_desync r = None \<and> (\<forall>e \<in> set (desync_counts r). snd e = stats_default)
     \<and> background_starts r = filter (\<lambda>e. p < fst e) (start_map B)
     \<and> pending_starts r = map (\<lambda>(t, c). (t, c, p)) (starts_at p B)"

lemma following_release: "following S B p r \<Longrightarrow> release r = None"
  by (simp add: following_def)

lemma start_map_ok: "bm_ok (start_map B)"
  by (simp add: start_map_def fold_add_start_ok)

lemma flat_at:
  assumes "bm_ok m"
  shows "flat (filter (\<lambda>e. fst e = p) m) = map (\<lambda>(t, c). (t, c, p)) (case bm_get m p of Some q \<Rightarrow> q | None \<Rightarrow> [])"
  using assms
proof (induction m)
  case (Cons e m)
  obtain k q where e: "e = (k, q)" by fastforce
  have rest: "\<forall>e' \<in> set m. k < fst e'" "bm_ok m" using Cons.prems by (auto simp: bm_ok_Cons e)
  show ?case
  proof (cases "k = p")
    case True
    then have "filter (\<lambda>e. fst e = p) m = []" using rest(1) by (auto simp: filter_empty_conv)
    then show ?thesis using True by (simp add: e bm_get_def)
  next
    case False
    then show ?thesis using Cons.IH [OF rest(2)] by (simp add: e bm_get_def)
  qed
qed (simp add: bm_get_def)

lemma start_map_at: "flat (filter (\<lambda>e. fst e = p) (start_map B)) = map (\<lambda>(t, c). (t, c, p)) (starts_at p B)"
proof -
  have "bm_get (start_map B) p = (if starts_at p B = [] then None else Some (starts_at p B))"
    using add_start_get [OF bm_ok_Nil, of B p] by (simp add: start_map_def bm_get_None_iff [THEN iffD2])
  then show ?thesis by (simp add: flat_at [OF start_map_ok])
qed

lemma replay_ok_frame:
  assumes "replay_ok S r"
  shows "replay_ok S (r\<lparr>die_on_desync := die, replay_exhausted_panic := panic\<rparr>)" "replay_ok S (r\<lparr>pending_starts := []\<rparr>)"
  using assms by (simp_all add: replay_ok_defs record_position_def cong: option.case_cong)

lemma following_start:
  "following S B 0 ((with_background_starts B nall (new_replayer S))\<lparr>die_on_desync := die, replay_exhausted_panic := panic\<rparr>)"
proof -
  let ?r = "with_background_starts B nall (new_replayer S)"
  define r where "r = (new_replayer S)\<lparr>background_starts := start_map B, notes_background_starts := nall\<rparr>"
  have "replay_ok S (?r\<lparr>die_on_desync := die, replay_exhausted_panic := panic\<rparr>)"
    by (rule replay_ok_frame(1) [OF replay_start_ok])
  moreover have "?r = queue_background_starts r"
    by (simp add: with_background_starts_def new_replayer_def r_def start_map_def)
  moreover have r: "background_starts r = start_map B" "pending_starts r = []" "record_position r = 0"
    by (simp_all add: r_def record_position_def new_replayer_def)
  then have "queue_background_starts r =
      r\<lparr>background_starts := filter (\<lambda>e. 0 < fst e) (start_map B), pending_starts := flat (filter (\<lambda>e. fst e = 0) (start_map B))\<rparr>"
    by (subst queue_background_starts_eq) (simp_all add: start_map_ok)
  ultimately show ?thesis
    unfolding following_def by (simp add: record_position_def start_map_at) (simp add: r_def new_replayer_def)
qed

lemma begin_starts_all:
  assumes "pending_starts r = ss" "release r = None"
  shows "begin_starts ss r = (False, r\<lparr>pending_starts := []\<rparr>)"
  using assms
proof (induction ss arbitrary: r)
  case (Cons s ss)
  obtain t c a where s: "s = (t, c, a)" by (cases s)
  have "replay_background_start t c r = (False, r\<lparr>pending_starts := ss\<rparr>)"
    using Cons.prems s
    by (simp add: replay_background_start_def take_background_start_def pending_background_start_def released_def)
  then show ?case using Cons.IH [of "r\<lparr>pending_starts := ss\<rparr>"] Cons.prems(2) by (simp add: s)
qed simp


text \<open>An event that matches the record at its position.\<close>

lemma observe_matching:
  assumes "cursor r = expd # rest" "follows obs expd" "pending_starts r = []" "traced_event_count r < u64_max"
    "length (cursor r) \<le> schedule_len r"
  shows "\<exists>r1. observe_event rnd obs r = finish_event rnd obs False ((queue_background_starts r1)\<lparr>unmatched_run := 0\<rparr>)
    \<and> cursor r1 = rest \<and> events_popped r1 = Suc (events_popped r) \<and> skipped r1 = skipped r \<and> release r1 = release r
    \<and> traced_event_count r1 = Suc (traced_event_count r) \<and> passed_starts r1 = passed_starts r
    \<and> first_desync r1 = first_desync r \<and> background_starts r1 = background_starts r \<and> pending_starts r1 = []
    \<and> last_consumed r1 = Some (schedule_len r - length (cursor r))
    \<and> desync_counts r1 = desync_counts (counts_next_round (dettid obs) False r)"
proof -
  obtain r0 where r0: "begin_event obs r = Some r0" "cursor r0 = cursor r" "events_popped r0 = events_popped r"
    "skipped r0 = skipped r" "release r0 = release r" "traced_event_count r0 = Suc (traced_event_count r)"
    "passed_starts r0 = passed_starts r" "first_desync r0 = first_desync r" "background_starts r0 = background_starts r"
    "pending_starts r0 = []" "desync_counts r0 = desync_counts r" "schedule_len r0 = schedule_len r"
    using assms(3,4)
    by (auto simp: begin_event_def add_u64_def note_syscall_in_flight_def Let_def split: sched_op.splits syscall_phase.splits)
  define r1 where "r1 = (counts_next_round (dettid obs) False r0)
    \<lparr>last_consumed := Some (schedule_len r - length (cursor r)), events_popped := Suc (events_popped r), cursor := rest\<rparr>"
  have cn: "counts_next_round t d x = x\<lparr>desync_counts := desync_counts (counts_next_round t d x)\<rparr>" for t d x
    by (simp add: counts_next_round_def update_stats_def)
  have sel: "cursor (counts_next_round t d x) = cursor x" "schedule_len (counts_next_round t d x) = schedule_len x"
    "events_popped (counts_next_round t d x) = events_popped x" "skipped (counts_next_round t d x) = skipped x"
    "release (counts_next_round t d x) = release x" "traced_event_count (counts_next_round t d x) = traced_event_count x"
    "passed_starts (counts_next_round t d x) = passed_starts x" "first_desync (counts_next_round t d x) = first_desync x"
    "background_starts (counts_next_round t d x) = background_starts x"
    "pending_starts (counts_next_round t d x) = pending_starts x" for t d x
    by (simp_all add: counts_next_round_def update_stats_def)
  have same: "r0\<lparr>pending_starts := []\<rparr> = r0" using r0(10) by (cases r0) simp
  have "observe_event rnd obs r =
      observe_expected rnd obs expd (traced_event_count r) (observed_non_polling r) (r0\<lparr>pending_starts := []\<rparr>)"
    using r0(1,2,10) assms(1) by (simp add: observe_event_def peek_def peek_nth_def)
  also have "\<dots> = observe_expected rnd obs expd (traced_event_count r) (observed_non_polling r) r0"
    by (simp only: same)
  also have "\<dots> = consume_expected rnd obs (counts_next_round (dettid obs) False r0)"
    using assms(2) by (simp add: observe_expected_def follows_def)
  also have "\<dots> = finish_event rnd obs False ((queue_background_starts r1)\<lparr>unmatched_run := 0\<rparr>)"
    using assms(1,5) r0 by (simp add: consume_expected_def sub_u64_def sel pop_next_def r1_def)
  finally show ?thesis
    using r0 by (intro exI [of _ r1]) (simp add: r1_def sel counts_next_round_def update_stats_def)
qed

lemma counts_next_round_clean:
  assumes "\<forall>e \<in> set (desync_counts r). snd e = stats_default"
  shows "\<forall>e \<in> set (desync_counts (counts_next_round t False r)). snd e = stats_default"
proof -
  let ?s = "case bm_get (desync_counts r) t of Some s \<Rightarrow> s | None \<Rightarrow> stats_default"
  have "?s = stats_default"
    using assms by (auto simp: bm_get_def split: option.split dest!: map_of_SomeD)
  moreover have "set (bm_insert k v m) \<subseteq> Set.insert (k, v) (set m)" for k :: det_tid and v :: desync_stats and m
    by (induction m) auto
  moreover have "stats_default\<lparr>last_was_desync := False\<rparr> = stats_default" "\<not> last_was_desync stats_default"
    by (simp_all add: stats_default_def)
  ultimately show ?thesis
    using assms by (fastforce simp: counts_next_round_def update_stats_def)
qed

lemma following_decision:
  assumes "following S B p r" and "names_next rnd obs a r"
  shows "decided (dettid obs) a = Some (or_stays (dettid obs) (next_decision rnd S B p))"
proof -
  have f: "release r = None" "pending_starts r = map (\<lambda>(t, c). (t, c, p)) (starts_at p B)" "cursor r = drop p S"
    using assms(1) by (auto simp: following_def replay_ok_def position_ok_def)
  note res = resolve_time_to_run_length [OF f(3), of rnd]
  have dec: "next_decision rnd S B p = map_option (\<lambda>(t, e). (t, map_option se_length e)) (next_slice_end rnd r)"
  proof (cases "starts_at p B")
    case Nil
    then show ?thesis
      using f by (cases "p < length S")
        (simp_all add: next_slice_end_def pending_background_start_def released_def next_decision_def peek_def peek_nth_def res)
  next
    case (Cons s ss)
    then show ?thesis
      using f by (cases s) (simp add: next_slice_end_def pending_background_start_def released_def next_decision_def)
  qed
  have stop: "map_option se_length (map_option with_a_stop e) = map_option se_length e" for e
    by (cases e) (simp_all add: with_a_stop_def)
  show ?thesis
    using assms(2) unfolding dec by (cases "next_slice_end rnd r") (auto simp: names_next_def or_stays_def stop simp del: option.map_comp split: if_splits)
qed

lemma following_step:
  assumes fol: "following S B p r" and p: "p < length S" "length S < u64_max" and S: "legal_schedule S"
    and obs: "follows obs (S ! p)"
  shows "\<exists>a r'. observe_event rnd obs (r\<lparr>pending_starts := []\<rparr>) = Some (a, r') \<and> following S B (Suc p) r'
    \<and> last_consumed r' = Some p \<and> (\<forall>now t e. a = ContextSwitch now t e \<longrightarrow> t \<noteq> dettid obs)
    \<and> decided (dettid obs) a = Some (or_stays (dettid obs) (next_decision rnd S B (Suc p)))"
proof -
  let ?r = "r\<lparr>pending_starts := []\<rparr>"
  have f: "replay_ok S r" "record_position r = p" "release r = None" "traced_event_count r = p" "passed_starts r = []"
    "first_desync r = None" "\<forall>e \<in> set (desync_counts r). snd e = stats_default"
    "background_starts r = filter (\<lambda>e. p < fst e) (start_map B)" "cursor r = drop p S" "schedule_len r = length S"
    using fol by (auto simp: following_def replay_ok_def position_ok_def)
  have time: "end_time obs \<noteq> None" using obs by (simp add: follows_def)
  obtain r1 where eq: "observe_event rnd obs ?r = finish_event rnd obs False ((queue_background_starts r1)\<lparr>unmatched_run := 0\<rparr>)"
    and r1: "cursor r1 = drop (Suc p) S" "events_popped r1 = Suc (events_popped r)" "skipped r1 = skipped r" "release r1 = None"
    "traced_event_count r1 = Suc p" "passed_starts r1 = []" "first_desync r1 = None"
    "background_starts r1 = background_starts r" "pending_starts r1 = []"
    "desync_counts r1 = desync_counts (counts_next_round (dettid obs) False ?r)" "last_consumed r1 = Some p"
    using observe_matching [of ?r "S ! p" "drop (Suc p) S" obs rnd] f p obs by (auto simp: Cons_nth_drop_Suc)
  let ?r' = "(queue_background_starts r1)\<lparr>unmatched_run := 0\<rparr>"
  obtain a where a: "observe_event rnd obs ?r = Some (a, ?r')" "names_next rnd obs a ?r'"
    using finish_event_ok [OF time, of rnd False ?r'] eq by auto
  have "replay_ok S ?r" by (rule replay_ok_frame(2) [OF f(1)])
  then have ok: "replay_ok S ?r'"
    using observe_event_ok [OF _ S time, of ?r rnd] a(1) f(4) p by (simp add: observed_ok_def)
  have bm: "bm_ok (background_starts r1)" using r1(8) f(8) start_map_ok by (simp add: bm_filter_ok)
  have pos: "record_position r1 = Suc p" using r1(2,3) f(2) by (simp add: record_position_def)
  have "filter (\<lambda>e. fst e \<le> Suc p) (background_starts r) = filter (\<lambda>e. fst e = Suc p) (start_map B)"
    "filter (\<lambda>e. Suc p < fst e) (background_starts r) = filter (\<lambda>e. Suc p < fst e) (start_map B)"
    unfolding f(8) filter_filter by (auto intro: filter_cong)
  then have "following S B (Suc p) ?r'"
    using ok pos r1 counts_next_round_clean [of ?r "dettid obs"] f(7)
    unfolding following_def queue_background_starts_eq [OF bm] by (simp add: start_map_at record_position_def)
  moreover have "last_consumed ?r' = Some p" using r1(11) by (simp add: queue_background_starts_eq [OF bm])
  moreover have "\<forall>now t e. a = ContextSwitch now t e \<longrightarrow> t \<noteq> dettid obs"
    using a(2) by (auto simp: names_next_def split: option.splits if_splits)
  ultimately show ?thesis using a following_decision by blast
qed

lemma follow_ok:
  assumes "following S B p r" "p \<le> length S" "length S < u64_max" "legal_schedule S" "list_all2 follows evs (drop p S)"
  shows "\<exists>as r'. follow rnd evs r = Some (as, r') \<and> following S B (length S) r' \<and> length as = length evs
    \<and> (\<forall>i < length evs. decided (dettid (evs ! i)) (as ! i) =
         Some (or_stays (dettid (evs ! i)) (next_decision rnd S B (p + Suc i))))"
  using assms
proof (induction evs arbitrary: p r)
  case Nil
  then show ?case by simp
next
  case (Cons e evs)
  have p: "p < length S" using Cons.prems(5) by (cases "p < length S") auto
  then have m: "follows e (S ! p)" "list_all2 follows evs (drop (Suc p) S)"
    using Cons.prems(5) by (auto simp: Cons_nth_drop_Suc [symmetric])
  obtain a r1 where r1: "observe_event rnd e (r\<lparr>pending_starts := []\<rparr>) = Some (a, r1)" "following S B (Suc p) r1"
    "decided (dettid e) a = Some (or_stays (dettid e) (next_decision rnd S B (Suc p)))"
    using following_step [OF Cons.prems(1) p Cons.prems(3,4) m(1)] by blast
  obtain as r2 where r2: "follow rnd evs r1 = Some (as, r2)" "following S B (length S) r2" "length as = length evs"
    "\<forall>i < length evs. decided (dettid (evs ! i)) (as ! i) =
       Some (or_stays (dettid (evs ! i)) (next_decision rnd S B (Suc p + Suc i)))"
    using Cons.IH [OF r1(2) _ Cons.prems(3,4) m(2)] p by auto
  have "follow rnd (e # evs) r = Some (a # as, r2)"
    using begin_starts_all [OF refl following_release [OF Cons.prems(1)]] r1(1) r2(1) by simp
  moreover have "decided (dettid ((e # evs) ! i)) ((a # as) ! i) =
      Some (or_stays (dettid ((e # evs) ! i)) (next_decision rnd S B (p + Suc i)))"
    if "i < length (e # evs)" for i
    using that r1(3) r2(4) by (cases i) simp_all
  ultimately show ?case using r2(2,3) by auto
qed


lemma following_has_left:
  assumes "following S B p r" "next_decision rnd S B p = Some d"
  shows "has_events_left r"
proof -
  have f: "release r = None" "pending_starts r = map (\<lambda>(t, c). (t, c, p)) (starts_at p B)" "cursor r = drop p S"
    using assms(1) by (auto simp: following_def replay_ok_def position_ok_def)
  show ?thesis
    using assms(2) f
    by (auto simp: next_decision_def has_events_left_def released_def peek_def peek_nth_def split: list.splits if_splits)
qed

subsection \<open>Giving up a schedule\<close>

text \<open>
  What is left of a replay: every recorded event may cost as many unmatched events as release the schedule,
  less those already counted.
\<close>

definition left_over :: "sched_event list \<Rightarrow> replayer \<Rightarrow> nat" where
  "left_over S r = UNMATCHED_EVENTS_BEFORE_RELEASE * (length S - record_position r) - unmatched_run r"

fun counted :: "replay_call \<Rightarrow> bool" where
  "counted (Observe e) \<longleftrightarrow> \<not> is_polling e"
| "counted _ \<longleftrightarrow> False"

definition quiet :: "replayer \<Rightarrow> bool" where
  "quiet r \<longleftrightarrow> \<not> die_on_desync r \<and> \<not> replay_exhausted_panic r"

lemma release_room: "p < n \<Longrightarrow> UNMATCHED_EVENTS_BEFORE_RELEASE \<le> UNMATCHED_EVENTS_BEFORE_RELEASE * (n - p)"
  by (simp add: Suc_le_eq)

lemma observe_left_over:
  assumes ok: "replay_ok S r" and q: "quiet r" and o: "observed_ok rnd S obs r a r'" and ne: "cursor r' \<noteq> []"
  shows "left_over S r' + (if is_polling obs then 0 else 1) \<le> left_over S r" and "cursor r \<noteq> []"
proof -
  let ?U = UNMATCHED_EVENTS_BEFORE_RELEASE and ?p = "record_position r" and ?p' = "record_position r'"
  have ok': "replay_ok S r'" using o by (simp add: observed_ok_def)
  note c' = replay_ok_cursor [OF ok' ne]
  show ne0: "cursor r \<noteq> []"
  proof
    assume e: "cursor r = []"
    then have "release r = None" "?p' = ?p" using o c'(1) by (auto simp: observed_ok_def)
    then have "drop ?p S = []" using ok e by (simp add: replay_ok_def position_ok_def)
    then show False using c'(3) \<open>?p' = ?p\<close> by simp
  qed
  note c = replay_ok_cursor [OF ok ne0]
  consider p where "consumes S obs ?p p r'" | "leaves obs r r'"
    using o q ne0 by (auto simp: observed_ok_def quiet_def)
  then show "left_over S r' + (if is_polling obs then 0 else 1) \<le> left_over S r"
  proof cases
    case 1
    then have p': "?p < ?p'" "unmatched_run r' = 0" by (auto simp: consumes_def)
    then have "Suc (length S - ?p') \<le> length S - ?p" using c'(3) by arith
    then have "?U * Suc (length S - ?p') \<le> ?U * (length S - ?p)" by (rule mult_le_mono2)
    then show ?thesis using c(5) p'(2) by (auto simp: left_over_def)
  next
    case 2
    then have p': "?p' = ?p" "unmatched_run r' = unmatched_run r + (if is_polling obs then 0 else 1)"
      using c'(1) by (auto simp: leaves_def released_def)
    obtain m where m: "m = ?U * (length S - ?p)" "?U \<le> m"
      using release_room [OF c(3)] by blast
    then show ?thesis using c'(5) p' by (auto simp: left_over_def m(1) [symmetric])
  qed
qed


lemma core_left_over:
  assumes "core r' = core r"
  shows "cursor r' = cursor r" "left_over S r' = left_over S r" "quiet r' \<longleftrightarrow> quiet r"
  using core_eqD [OF assms] record_position_core [OF assms] by (simp_all add: left_over_def quiet_def)

lemma call_left_over:
  assumes "legal_schedule S" "replay_ok S r" "quiet r" "replay_pre S c r" "replay_step rnd c r = Some r'"
  shows "quiet r'"
    "cursor r' \<noteq> [] \<Longrightarrow> cursor r \<noteq> [] \<and> left_over S r' + (if counted c then 1 else 0) \<le> left_over S r"
proof -
  have "quiet r' \<and> (cursor r' \<noteq> [] \<longrightarrow> cursor r \<noteq> [] \<and> left_over S r' + (if counted c then 1 else 0) \<le> left_over S r)"
  proof (cases c)
    case (Observe e)
    then obtain a where o: "observed_ok rnd S e r a r'"
      using observe_event_ok [of S r e rnd] assms by auto
    then have "quiet r'" using assms(3) by (simp add: observed_ok_def quiet_def)
    then show ?thesis using observe_left_over [OF assms(2,3) o] Observe by (auto split: if_splits)
  next
    case (BeginCall t call)
    have "core r' = core r \<or> r' = r\<lparr>pending_starts := tl (pending_starts r)\<rparr>"
      using assms(5) BeginCall
      by (auto simp: replay_background_start_def take_background_start_def note_unrecorded_background_start_def)
    then show ?thesis
    proof
      assume c: "core r' = core r"
      show ?thesis using assms(3) BeginCall by (simp add: core_left_over [OF c])
    next
      assume "r' = r\<lparr>pending_starts := tl (pending_starts r)\<rparr>"
      then show ?thesis using assms(3) BeginCall by (simp add: left_over_def quiet_def record_position_def)
    qed
  next
    case (KeepTurn t)
    then have c: "core r' = core r" using assms(5) by auto
    show ?thesis using assms(3) KeepTurn by (simp add: core_left_over [OF c])
  qed
  then show "quiet r'"
    "cursor r' \<noteq> [] \<Longrightarrow> cursor r \<noteq> [] \<and> left_over S r' + (if counted c then 1 else 0) \<le> left_over S r"
    by blast+
qed

lemma history_left_over:
  assumes "legal_schedule S" "replay_ok S r" "quiet r" "legal_calls (replay_pre S) (replay_step rnd) cs r"
    "run_calls (replay_step rnd) cs r = Some r'" "cursor r' \<noteq> []"
  shows "cursor r \<noteq> [] \<and> left_over S r' + length (filter counted cs) \<le> left_over S r"
  using assms
proof (induction cs arbitrary: r)
  case (Cons c cs)
  have pre: "replay_pre S c r" using Cons.prems(4) by simp
  obtain r1 where r1: "replay_step rnd c r = Some r1" "replay_ok S r1"
    using rp.call_ok [of S r c rnd] Cons.prems(1,2) pre by auto
  note step = call_left_over [OF Cons.prems(1-3) pre r1(1)]
  have "cursor r1 \<noteq> [] \<and> left_over S r' + length (filter counted cs) \<le> left_over S r1"
    using Cons.IH [OF Cons.prems(1) r1(2) step(1)] Cons.prems(4-6) r1(1) by simp
  then show ?case using step(2) by auto
qed simp

lemma left_over_pos:
  assumes "replay_ok S r" "cursor r \<noteq> []"
  shows "0 < left_over S r"
proof -
  note c = replay_ok_cursor [OF assms]
  obtain m where m: "m = UNMATCHED_EVENTS_BEFORE_RELEASE * (length S - record_position r)" "UNMATCHED_EVENTS_BEFORE_RELEASE \<le> m"
    using release_room [OF c(3)] by blast
  then show ?thesis using c(5) by (simp add: left_over_def m(1) [symmetric])
qed

end
