(* ===== verification/Replay_Sched.thy ===== *)
theory Replay_Sched
  imports Replayer Run_Queue Timed_Events
begin

text \<open>
  What the scheduler does with a replayed schedule (\<open>detcore/src/scheduler.rs\<close>): an event of the running
  thread is told to the replay and the answer moves the threads between the foreground and the deferred
  priority (\<open>consume_schedevent\<close>); so does a kernel-run call that begins
  (\<open>record_or_replay_background_start\<close>); once nothing is left of the schedule every thread takes the
  default priority (\<open>release_replay_priorities_if_exhausted\<close>). The state is the part of \<open>Scheduler\<close> these
  functions use, in a run with a replayer and no boundary replayer. The stack traces a user may ask for at
  an event and the log are not modelled. The request a thread's next turn waits on is read only to tell a
  futex wait from the others, so \<open>next_turns\<close> holds that; of a futex waiter only its thread is kept, and a futex is a number.
\<close>

record 'g replay_sched =
  rs_replayer :: replayer
  priorities :: "(det_tid, priority) btree_map"
  rs_queue :: "'g run_queue"
  replay_prehook_callers :: "det_tid set"
  timeslices :: "det_tid \<rightharpoonup> nat option"
  replay_priorities_released :: bool
  replay_exhausted_allowance :: nat
  replay_exhausted_at :: "nat option"
  record_logical_replay_priorities :: bool
  recorded_event_count :: nat
  timed_waiters :: timed_events
  sigchld_deferred :: "det_tid set"
  committed_time :: nat
  next_turns :: "det_tid \<rightharpoonup> bool"
  futex_waiters :: "(nat \<times> det_tid list) list"
  timed_out_futex_waiters :: "det_tid set"

record consume_result =
  keep_running :: bool
  event_ix :: nat
  timeslice_remaining :: "replayed_slice_end option"

subsection \<open>Priorities\<close>

definition get_priority :: "'g replay_sched \<Rightarrow> det_tid \<Rightarrow> priority option" where
  "get_priority s tid = bm_get (priorities s) tid"

definition runqueue_push_back :: "det_tid \<Rightarrow> 'g replay_sched \<Rightarrow> 'g replay_sched option" where
  "runqueue_push_back tid s = do {
     prio \<leftarrow> get_priority s tid;
     (_, q) \<leftarrow> push_back (rs_queue s) tid prio;
     Some (s\<lparr>rs_queue := q\<rparr>)
   }"

definition runqueue_push_front :: "det_tid \<Rightarrow> 'g replay_sched \<Rightarrow> 'g replay_sched option" where
  "runqueue_push_front tid s = do {
     prio \<leftarrow> get_priority s tid;
     (_, q) \<leftarrow> push_front (rs_queue s) tid prio;
     Some (s\<lparr>rs_queue := q\<rparr>)
   }"

definition requeue_with_new_priority :: "det_tid \<Rightarrow> priority \<Rightarrow> 'g replay_sched \<Rightarrow> 'g replay_sched option" where
  "requeue_with_new_priority tid new_priority s = do {
     assert_that (is_ordinary_priority new_priority);
     let s = s\<lparr>priorities := bm_insert tid new_priority (priorities s)\<rparr>;
     (present, q) \<leftarrow> remove_tid (rs_queue s) tid;
     let s = s\<lparr>rs_queue := q\<rparr>;
     if present then runqueue_push_back tid s else Some s
   }"

fun requeue_all :: "priority \<Rightarrow> det_tid list \<Rightarrow> 'g replay_sched \<Rightarrow> 'g replay_sched option" where
  "requeue_all prio [] s = Some s"
| "requeue_all prio (tid # rest) s = requeue_with_new_priority tid prio s \<bind> requeue_all prio rest"

definition release_replay_priorities_if_exhausted :: "bool \<Rightarrow> 'g replay_sched \<Rightarrow> 'g replay_sched option" where
  "release_replay_priorities_if_exhausted matched_event_pending s =
     (if replay_priorities_released s \<or> has_events_left (rs_replayer s) then Some s
      else let s = s\<lparr>replay_priorities_released := True,
                     replay_exhausted_allowance := (if matched_event_pending then 1 else 0)\<rparr>;
               s = (if record_logical_replay_priorities s then s
                    else s\<lparr>replay_exhausted_at := Some (recorded_event_count s)\<rparr>)
           in requeue_all DEFAULT_PRIORITY (map fst (priorities s)) s)"

subsection \<open>Waking the thread the record switches to\<close>

definition remove_futex_waiter :: "det_tid \<Rightarrow> 'g replay_sched \<Rightarrow> (bool \<times> 'g replay_sched) option" where
  "remove_futex_waiter tid s =
     (let kept = map (\<lambda>(futex, waiters). (futex, filter (\<lambda>w. w \<noteq> tid) waiters)) (futex_waiters s);
          removed = sum_list (map (\<lambda>(_, waiters). length (filter (\<lambda>w. w = tid) waiters)) (futex_waiters s))
      in do {
        assert_that (removed \<le> 1);
        Some (removed = 1, s\<lparr>futex_waiters := filter (\<lambda>(_, waiters). waiters \<noteq> []) kept\<rparr>)
      })"

definition wake_timed_event :: "det_tid \<Rightarrow> 'g replay_sched \<Rightarrow> 'g replay_sched option" where
  "wake_timed_event tid s = do {
     futex_timed_out \<leftarrow> next_turns s tid;
     s \<leftarrow> (if futex_timed_out then do {
              (removed, s) \<leftarrow> remove_futex_waiter tid s;
              assert_that removed;
              assert_that (tid \<notin> timed_out_futex_waiters s);
              Some (s\<lparr>timed_out_futex_waiters := insert tid (timed_out_futex_waiters s)\<rparr>)
            } else Some s);
     runqueue_push_front tid s
   }"

definition wake_due_replay_target :: "det_tid \<Rightarrow> 'g replay_sched \<Rightarrow> 'g replay_sched option" where
  "wake_due_replay_target tid s =
     (if contains_tid (rs_queue s) tid \<or> tid \<in> sigchld_deferred s then Some s
      else case thread_deadline tid (timed_waiters s) of
          None \<Rightarrow> Some s
        | Some at_time \<Rightarrow>
            if committed_time s < at_time \<or> is_indefinite at_time then Some s
            else do {
              te \<leftarrow> remove_thread tid (timed_waiters s);
              wake_timed_event tid (s\<lparr>timed_waiters := te\<rparr>)
            })"

subsection \<open>Events and background starts\<close>

definition note_replay_switch :: "det_tid \<Rightarrow> det_tid \<Rightarrow> bool \<Rightarrow> 'g replay_sched \<Rightarrow> 'g replay_sched" where
  "note_replay_switch src dst at_syscall_prehook s =
     s\<lparr>replay_prehook_callers :=
         (if at_syscall_prehook then insert src (replay_prehook_callers s - {dst})
          else replay_prehook_callers s - {dst} - {src})\<rparr>"

definition observed_is_syscall_prehook :: "sched_event \<Rightarrow> bool" where
  "observed_is_syscall_prehook observed \<longleftrightarrow> (case ev_op observed of Syscall _ Prehook \<Rightarrow> True | _ \<Rightarrow> False)"

text \<open>\<open>Inl\<close> is the exit of the run at a stop.\<close>

definition consume_schedevent ::
  "(real \<Rightarrow> real) \<Rightarrow> sched_event \<Rightarrow> 'g replay_sched \<Rightarrow> ((stop_reason + consume_result) \<times> 'g replay_sched) option" where
  "consume_schedevent rnd observed s = do {
     let mytid = dettid observed;
     let ix = traced_event_count (rs_replayer s);
     (action, r) \<leftarrow> observe_event rnd observed (rs_replayer s);
     position \<leftarrow> stacktrace_position r ix;
     s \<leftarrow> release_replay_priorities_if_exhausted True (s\<lparr>rs_replayer := r\<rparr>);
     (case action of
        Continue e \<Rightarrow> Some (Inr \<lparr>keep_running = True, event_ix = ix, timeslice_remaining = e\<rparr>, s)
      | Stop why \<Rightarrow> Some (Inl why, s)
      | ContextSwitch is_now new_tid e \<Rightarrow> do {
          s \<leftarrow> requeue_with_new_priority mytid REPLAY_DEFERRED_PRIORITY s;
          s \<leftarrow> requeue_with_new_priority new_tid REPLAY_FOREGROUND_PRIORITY s;
          s \<leftarrow> wake_due_replay_target new_tid s;
          let s = note_replay_switch mytid new_tid (observed_is_syscall_prehook observed) s;
          Some (Inr \<lparr>keep_running = \<not> is_now, event_ix = ix, timeslice_remaining = e\<rparr>,
            s\<lparr>timeslices := (timeslices s)(new_tid \<mapsto> map_option se_length e)\<rparr>)
        })
   }"

text \<open>\<open>True\<close> is the exit of the run at a start the record does not have.\<close>

definition record_or_replay_background_start ::
  "(real \<Rightarrow> real) \<Rightarrow> det_tid \<Rightarrow> nat \<Rightarrow> 'g replay_sched \<Rightarrow> (bool \<times> 'g replay_sched) option" where
  "record_or_replay_background_start rnd tid call s =
     (case take_background_start tid call (rs_replayer s) of
        (False, r) \<Rightarrow>
          if notes_background_starts r \<and> has_events_left r
          then (case note_unrecorded_background_start tid r of (fatal, r) \<Rightarrow> Some (fatal, s\<lparr>rs_replayer := r\<rparr>))
          else Some (False, s\<lparr>rs_replayer := r\<rparr>)
      | (True, r) \<Rightarrow> do {
          let s = s\<lparr>rs_replayer := r\<rparr>;
          s \<leftarrow> (case next_resume rnd r of
                 None \<Rightarrow> Some s
               | Some (next_tid, timeslice) \<Rightarrow>
                   if next_tid = tid then Some s
                   else do {
                     s \<leftarrow> requeue_with_new_priority tid REPLAY_DEFERRED_PRIORITY s;
                     s \<leftarrow> requeue_with_new_priority next_tid REPLAY_FOREGROUND_PRIORITY s;
                     let s = note_replay_switch tid next_tid False s;
                     Some (s\<lparr>timeslices := (timeslices s)(next_tid \<mapsto> timeslice)\<rparr>)
                   });
          s \<leftarrow> release_replay_priorities_if_exhausted False s;
          Some (False, s)
        })"

end
