(* ===== verification/Replay_Sched_Props.thy ===== *)
theory Replay_Sched_Props
  imports Replayer_Follow Replay_Sched Run_Queue_Props Timed_Events_Ops
begin

text \<open>
  The replay, the scheduler and the run queue together: after a replayed switch the run queue selects the
  thread the record runs next, and once the schedule is over every thread has the default priority.
\<close>

subsection \<open>Entries after a push\<close>

definition from_entry :: "prioritized_order \<times> queue_value \<Rightarrow> 'g run_queue \<Rightarrow> bool" where
  "from_entry e' q \<longleftrightarrow> (\<exists>e \<in> set (queue q). e' = e \<or> e' = settle_restored (upgrade_entry e))"

text \<open>A push adds an ordinary entry; the others are kept or upgraded.\<close>

definition placed :: "det_tid \<Rightarrow> priority \<Rightarrow> 'g run_queue \<Rightarrow> 'g run_queue \<Rightarrow> bool" where
  "placed t p q q' \<longleftrightarrow> (\<exists>k. po_priority k = p \<and> (k, ordinary_value t) \<in> set (queue q'))
     \<and> (\<forall>e' \<in> set (queue q'). qv_tid (snd e') = t \<and> po_priority (fst e') = p \<and> poll_upgrade (snd e') = None
          \<or> qv_tid (snd e') \<noteq> t \<and> from_entry e' q)"

lemma check_poll_upgrade_from:
  assumes "entries_ok S q" "check_poll_upgrade q = Some q'" "e' \<in> set (queue q')"
  shows "from_entry e' q"
proof (cases "q' = q")
  case False
  then have "map_option snd (do_poll_upgrade q) = Some q'"
    using assms(2) by (auto simp: check_poll_upgrade_def bind_eq_Some_conv split: if_splits)
  moreover obtain q2 where "do_poll_upgrade q = Some (tids (filter is_movable (queue q)), q2)"
    "set (queue q2) = (\<lambda>e. settle_restored (upgrade_entry e)) ` set (queue q)"
    by (rule do_poll_upgrade_ok [OF assms(1)])
  ultimately have "set (queue q') = (\<lambda>e. settle_restored (upgrade_entry e)) ` set (queue q)" by simp
  then show ?thesis using assms(3) by (auto simp: from_entry_def)
qed (use assms(3) in \<open>auto simp: from_entry_def\<close>)

lemma placedI:
  assumes ok: "entries_ok S q1" and q1: "set (queue q1) = insert (k, ordinary_value t) (set (queue q))"
    and new: "\<not> contains_tid q t" and up: "check_poll_upgrade q1 = Some q'"
  shows "placed t (po_priority k) q q'"
proof -
  have same: "settle_restored (upgrade_entry (k, ordinary_value t)) = (k, ordinary_value t)"
    by (simp add: upgrade_entry_def settle_restored_def)
  have old: "qv_tid (snd e) \<noteq> t" if "e \<in> set (queue q)" for e
    using that new by (auto simp: contains_tid_def set_tids)
  have each: "e' = (k, ordinary_value t) \<or> qv_tid (snd e') \<noteq> t \<and> from_entry e' q" if mem: "e' \<in> set (queue q')" for e'
  proof -
    obtain e where e: "e \<in> set (queue q1)" "e' = e \<or> e' = settle_restored (upgrade_entry e)"
      using check_poll_upgrade_from [OF ok up mem] by (auto simp: from_entry_def)
    show ?thesis
    proof (cases "e = (k, ordinary_value t)")
      case False
      then have "e \<in> set (queue q)" using e(1) q1 by simp
      moreover have "qv_tid (snd e') = qv_tid (snd e)" using e(2) by auto
      ultimately show ?thesis using old [of e] e(2) unfolding from_entry_def by metis
    qed (use e(2) same in auto)
  qed
  have "qv_tid (snd e') = t \<and> po_priority (fst e') = po_priority k \<and> poll_upgrade (snd e') = None
      \<or> qv_tid (snd e') \<noteq> t \<and> from_entry e' q" if "e' \<in> set (queue q')" for e'
    using each [OF that] by auto
  moreover have "(k, ordinary_value t) \<in> set (queue q')"
    using check_poll_upgrade_keeps [OF ok up] by (simp add: q1)
  ultimately show ?thesis unfolding placed_def by blast
qed

lemma push_back_placed:
  assumes cl: "rq_closed S q" and pre: "\<not> contains_tid q t" "is_ordinary_priority p" "last_back_turn q + 1 < RUN_TIME_TURNS"
  shows "\<exists>k q'. push_back q t p = Some (k, q') \<and> pushed S q t q' \<and> placed t p q q' \<and> last_back_turn q' = last_back_turn q + 1"
proof -
  let ?k = "PrioritizedOrder p (last_back_turn q + 1)"
  let ?q1 = "q\<lparr>last_back_turn := last_back_turn q + 1, queue := bm_insert ?k (ordinary_value t) (queue q)\<rparr>"
  have inv: "entries_ok S q" using cl by (simp add: rq_closed_iff)
  have ok: "entries_ok S ?q1" and fresh: "bm_get (queue q) ?k = None"
    using push_inner_entries [OF inv, of "ordinary_value t" ?q1 ?k] pre entries_okD(3) [OF inv] by (auto simp: counters_ok_def)
  obtain q' where q': "push_back q t p = Some (?k, q')" "pushed S q t q'" using push_back_ok [OF cl pre] by blast
  then have up: "check_poll_upgrade ?q1 = Some q'"
    by (auto simp: push_back_def push_back_inner_def push_inner_def Let_def push_safety_check_def bind_eq_Some_conv split: if_splits)
  have "placed t p q q'"
    using placedI [OF ok _ pre(1) up, of ?k] set_bm_insert_fresh [OF entries_okD(1) [OF inv] fresh] by simp
  then show ?thesis using q' check_poll_upgrade_turns(1) [OF up] by simp
qed

lemma push_front_placed:
  assumes cl: "rq_closed S q" and pre: "\<not> contains_tid q t" "is_ordinary_priority p"
  shows "\<exists>k q'. push_front q t p = Some (k, q') \<and> pushed S q t q' \<and> placed t p q q'"
proof -
  let ?k = "PrioritizedOrder p (last_front_turn q - 1)"
  let ?q1 = "q\<lparr>last_front_turn := last_front_turn q - 1, queue := bm_insert ?k (ordinary_value t) (queue q)\<rparr>"
  have inv: "entries_ok S q" using cl by (simp add: rq_closed_iff)
  have ok: "entries_ok S ?q1" and fresh: "bm_get (queue q) ?k = None"
    using push_inner_entries [OF inv, of "ordinary_value t" ?q1 ?k] pre entries_okD(3) [OF inv] by (auto simp: counters_ok_def)
  obtain q' where q': "push_front q t p = Some (?k, q')" "pushed S q t q'"
    using push_front_ok [OF cl pre] by blast
  then have up: "check_poll_upgrade ?q1 = Some q'"
    by (auto simp: push_front_def push_front_inner_def push_inner_def Let_def push_safety_check_def bind_eq_Some_conv split: if_splits)
  have "placed t p q q'"
    using placedI [OF ok _ pre(1) up, of ?k] set_bm_insert_fresh [OF entries_okD(1) [OF inv] fresh] by simp
  then show ?thesis using q' by blast
qed


subsection \<open>The foreground thread\<close>

definition behind :: "prioritized_order \<times> queue_value \<Rightarrow> bool" where
  "behind e \<longleftrightarrow> FIRST_PRIORITY < po_priority (fst e) \<and> (\<forall>p. poll_upgrade (snd e) = Some p \<longrightarrow> FIRST_PRIORITY < p)"

text \<open>Every queued thread but \<open>t\<close> waits behind the foreground priority, also after a poll upgrade.\<close>

definition foreground :: "det_tid \<Rightarrow> 'g run_queue \<Rightarrow> bool" where
  "foreground t q \<longleftrightarrow> (\<forall>e \<in> set (queue q). qv_tid (snd e) = t \<or> behind e)"

text \<open>No yield excludes \<open>t\<close> from the next selection.\<close>

definition clear_of :: "det_tid \<Rightarrow> 'g run_queue \<Rightarrow> bool" where
  "clear_of t q \<longleftrightarrow> yielded_skip q \<noteq> Some t \<and> (\<forall>E. yield_epoch q = Some E \<longrightarrow> t \<notin> E)"

lemma behind_upgrade: "behind e \<Longrightarrow> behind (settle_restored (upgrade_entry e))"
  by (auto simp: behind_def upgrade_entry_def split: option.splits)

lemma from_entry_behind:
  assumes "from_entry e' q" "foreground t q" "qv_tid (snd e') \<noteq> t"
  shows "behind e'"
proof -
  obtain e where e: "e \<in> set (queue q)" "e' = e \<or> e' = settle_restored (upgrade_entry e)"
    using assms(1) unfolding from_entry_def by blast
  then have "qv_tid (snd e) \<noteq> t" using assms(3) by auto
  then have "behind e" using assms(2) e(1) unfolding foreground_def by blast
  then show ?thesis using e(2) behind_upgrade by blast
qed

lemma clear_of_not_excluded: "clear_of t q \<Longrightarrow> t \<notin> excluded_tids (epoch_settled q)"
  by (auto simp: clear_of_def excluded_tids_def epoch_settled_def end_yield_epoch_def skip_tid_def Let_def
      split: option.splits if_splits)

lemma foreground_selected:
  assumes cl: "rq_closed S q" and h: "is_priority_ordered (sched_strategy q)" and fg: "foreground t q" and c: "clear_of t q"
    and e: "(k, v) \<in> set (queue q)" "qv_tid v = t" "po_priority k = FIRST_PRIORITY"
  shows "\<exists>q'. tentative_pop_next R q = Some (Some t, q')"
proof -
  define m where "m = filter (\<lambda>e. qv_tid (snd e) \<notin> excluded_tids (epoch_settled q)) (queue q)"
  have "queue q \<noteq> []" and inv: "entries_ok S q" using e(1) cl by (auto simp: rq_closed_iff)
  then obtain q' where s: "m \<noteq> []" "tentative_pop_next R q = Some (Some (qv_tid (snd (hd m))), q')"
    using selection_head [OF cl _ h m_def] by blast
  note least = hd_filter_least [OF entries_okD(1) [OF inv, unfolded bm_ok_def] s(1) [unfolded m_def], folded m_def]
  have "fst (hd m) \<le> k" using bspec [OF least(3) e(1)] clear_of_not_excluded [OF c] e(2) by simp
  then have "po_priority (fst (hd m)) \<le> FIRST_PRIORITY" using e(3) by (auto simp: less_eq_prioritized_order_def)
  then have "qv_tid (snd (hd m)) = t" using bspec [OF fg [unfolded foreground_def] least(1)] by (auto simp: behind_def)
  then show ?thesis using s(2) by auto
qed

subsection \<open>Changing a priority\<close>

lemma remove_tid_clear: "remove_tid q t = Some (b, q') \<Longrightarrow> clear_of t q' \<and> sched_strategy q' = sched_strategy q \<and> last_back_turn q' = last_back_turn q"
  by (auto simp: remove_tid_def clear_of_def Let_def split: if_splits)

definition requeued :: "suspended_entry set \<Rightarrow> det_tid \<Rightarrow> priority \<Rightarrow> 'g replay_sched \<Rightarrow> 'g replay_sched \<Rightarrow> bool" where
  "requeued S t p s s' \<longleftrightarrow>
     s' = s\<lparr>priorities := bm_insert t p (priorities s), rs_queue := rs_queue s'\<rparr>
     \<and> rq_closed S (rs_queue s') \<and> set (tids (queue (rs_queue s'))) = set (tids (queue (rs_queue s)))
     \<and> sched_strategy (rs_queue s') = sched_strategy (rs_queue s)
     \<and> last_back_turn (rs_queue s') \<le> last_back_turn (rs_queue s) + 1 \<and> clear_of t (rs_queue s')
     \<and> (\<forall>e' \<in> set (queue (rs_queue s')).
          qv_tid (snd e') = t \<and> po_priority (fst e') = p \<and> poll_upgrade (snd e') = None
          \<or> qv_tid (snd e') \<noteq> t \<and> from_entry e' (rs_queue s))"

lemma requeued_entry:
  assumes "requeued S t p s s'" "e' \<in> set (queue (rs_queue s'))"
  shows "qv_tid (snd e') = t \<and> po_priority (fst e') = p \<and> poll_upgrade (snd e') = None
    \<or> qv_tid (snd e') \<noteq> t \<and> from_entry e' (rs_queue s)"
proof -
  have "\<forall>e' \<in> set (queue (rs_queue s')). qv_tid (snd e') = t \<and> po_priority (fst e') = p \<and> poll_upgrade (snd e') = None
    \<or> qv_tid (snd e') \<noteq> t \<and> from_entry e' (rs_queue s)"
    using assms(1) unfolding requeued_def by (elim conjE)
  then show ?thesis using assms(2) by (rule bspec)
qed

lemma requeue_ok:
  assumes cl: "rq_closed S (rs_queue s)" and p: "is_ordinary_priority p" and room: "last_back_turn (rs_queue s) + 1 < RUN_TIME_TURNS"
    and pr: "bm_ok (priorities s)"
  shows "\<exists>s'. requeue_with_new_priority t p s = Some s' \<and> requeued S t p s s'"
proof -
  let ?q = "rs_queue s"
  obtain q1 where q1: "remove_tid ?q t = Some (contains_tid ?q t, q1)" "rq_closed S q1"
    "queue q1 = filter (\<lambda>e. qv_tid (snd e) \<noteq> t) (queue ?q)" using remove_tid_ok [OF cl] by blast
  have cl1: "clear_of t q1" "sched_strategy q1 = sched_strategy ?q" "last_back_turn q1 = last_back_turn ?q"
    using remove_tid_clear [OF q1(1)] by auto
  have none: "\<not> contains_tid q1 t" by (auto simp: contains_tid_def set_tids q1(3))
  have from1: "from_entry e' ?q" if "from_entry e' q1" for e' using that by (auto simp: from_entry_def q1(3))
  show ?thesis
  proof (cases "contains_tid ?q t")
    case True
    obtain k q2 where q2: "push_back q1 t p = Some (k, q2)" "pushed S q1 t q2" "placed t p q1 q2" "last_back_turn q2 = last_back_turn q1 + 1"
      using push_back_placed [OF q1(2) none p] room cl1(3) by auto
    have "requeue_with_new_priority t p s = Some (s\<lparr>priorities := bm_insert t p (priorities s), rs_queue := q2\<rparr>)"
      using True p q1(1) q2(1) bm_get_insert [OF pr]
      by (simp add: requeue_with_new_priority_def runqueue_push_back_def get_priority_def)
    moreover have "clear_of t q2" "sched_strategy q2 = sched_strategy ?q" "rq_closed S q2"
      "set (tids (queue q2)) = set (tids (queue ?q))"
      using q2(2) cl1(1,2) True by (auto simp: pushed_def same_selection_state_def clear_of_def contains_tid_def set_tids q1(3))
    ultimately show ?thesis
      using q2(3,4) cl1(3) from1 by (auto simp: requeued_def placed_def)
  next
    case False
    have "filter (\<lambda>e. qv_tid (snd e) \<noteq> t) (queue ?q) = queue ?q"
      using False by (auto simp: contains_tid_def set_tids filter_id_conv)
    then show ?thesis
      using False p q1 cl1 none
      by (auto simp: requeue_with_new_priority_def requeued_def from_entry_def contains_tid_def set_tids)
  qed
qed


subsection \<open>Every thread at one priority\<close>

definition level :: "det_tid set \<Rightarrow> priority \<Rightarrow> 'g run_queue \<Rightarrow> bool" where
  "level D p q \<longleftrightarrow> (\<forall>e \<in> set (queue q). qv_tid (snd e) \<in> D \<longrightarrow> po_priority (fst e) = p \<and> poll_upgrade (snd e) = None)"

lemma level_requeued:
  assumes "level D p (rs_queue s)" "requeued S t p s s'"
  shows "level (insert t D) p (rs_queue s')"
  unfolding level_def
proof (intro ballI impI)
  fix e' assume e': "e' \<in> set (queue (rs_queue s'))" "qv_tid (snd e') \<in> insert t D"
  show "po_priority (fst e') = p \<and> poll_upgrade (snd e') = None"
  proof (cases "qv_tid (snd e') = t")
    case True
    then show ?thesis using requeued_entry [OF assms(2) e'(1)] by blast
  next
    case False
    then have "from_entry e' (rs_queue s)" using requeued_entry [OF assms(2) e'(1)] by blast
    then obtain e where e: "e \<in> set (queue (rs_queue s))" "e' = e \<or> e' = settle_restored (upgrade_entry e)"
      unfolding from_entry_def by blast
    then have "qv_tid (snd e) \<in> D" using e'(2) False by auto
    then have "po_priority (fst e) = p" "poll_upgrade (snd e) = None" using assms(1) e(1) by (auto simp: level_def)
    then show ?thesis using e(2) by (auto simp: upgrade_entry_def)
  qed
qed

lemma requeue_all_ok:
  assumes "rq_closed S (rs_queue s)" "is_ordinary_priority p" "last_back_turn (rs_queue s) + int (length ts) < RUN_TIME_TURNS"
    "bm_ok (priorities s)" "level D p (rs_queue s)"
  shows "\<exists>s'. requeue_all p ts s = Some s' \<and> rq_closed S (rs_queue s')
    \<and> set (tids (queue (rs_queue s'))) = set (tids (queue (rs_queue s))) \<and> level (set ts \<union> D) p (rs_queue s')
    \<and> (\<forall>t. bm_get (priorities s') t = (if t \<in> set ts then Some p else bm_get (priorities s) t))
    \<and> s' = s\<lparr>priorities := priorities s', rs_queue := rs_queue s'\<rparr>"
  using assms
proof (induction ts arbitrary: s D)
  case (Cons t ts)
  obtain s1 where s1: "requeue_with_new_priority t p s = Some s1" "requeued S t p s s1"
    using requeue_ok [OF Cons.prems(1,2) _ Cons.prems(4)] Cons.prems(3) by auto
  have pr: "priorities s1 = bm_insert t p (priorities s)" "s1 = s\<lparr>priorities := priorities s1, rs_queue := rs_queue s1\<rparr>"
    using s1(2) unfolding requeued_def by (metis replay_sched.select_convs(2) replay_sched.surjective replay_sched.update_convs(2,3))+
  have cl1: "rq_closed S (rs_queue s1)" and room1: "last_back_turn (rs_queue s1) + int (length ts) < RUN_TIME_TURNS"
    using s1(2) Cons.prems(3) by (auto simp: requeued_def)
  have ok1: "bm_ok (priorities s1)" using Cons.prems(4) by (simp add: pr(1) bm_insert_ok)
  obtain s2 where s2: "requeue_all p ts s1 = Some s2" "rq_closed S (rs_queue s2)"
    "set (tids (queue (rs_queue s2))) = set (tids (queue (rs_queue s1)))" "level (set ts \<union> insert t D) p (rs_queue s2)"
    "\<forall>t. bm_get (priorities s2) t = (if t \<in> set ts then Some p else bm_get (priorities s1) t)"
    "s2 = s1\<lparr>priorities := priorities s2, rs_queue := rs_queue s2\<rparr>"
    using Cons.IH [OF cl1 Cons.prems(2) room1 ok1 level_requeued [OF Cons.prems(5) s1(2)]] by blast
  have "s2 = s\<lparr>priorities := priorities s2, rs_queue := rs_queue s2\<rparr>"
    by (subst s2(6), subst pr(2)) simp
  moreover have "set (tids (queue (rs_queue s1))) = set (tids (queue (rs_queue s)))" using s1(2) by (simp add: requeued_def)
  ultimately show ?case
    using s1(1) s2(1-5) pr(1) bm_get_insert [OF Cons.prems(4)] by auto
qed simp


subsection \<open>A replayed switch\<close>

definition futex_entries :: "det_tid \<Rightarrow> 'g replay_sched \<Rightarrow> nat" where
  "futex_entries t s = sum_list (map (\<lambda>(_, waiters). length (filter (\<lambda>w. w = t) waiters)) (futex_waiters s))"

text \<open>A thread the replay can switch to: it is queued, or in a timed wait whose deadline has passed.\<close>

definition due_waiter :: "det_tid \<Rightarrow> 'g replay_sched \<Rightarrow> bool" where
  "due_waiter t s \<longleftrightarrow> t \<notin> sigchld_deferred s \<and> te_inv (timed_waiters s)
     \<and> (case thread_deadline t (timed_waiters s) of None \<Rightarrow> False | Some d \<Rightarrow> d \<le> committed_time s \<and> \<not> is_indefinite d)
     \<and> (case next_turns s t of
          None \<Rightarrow> False
        | Some futex \<Rightarrow> futex \<longrightarrow> futex_entries t s = 1 \<and> t \<notin> timed_out_futex_waiters s)"

definition can_switch_to :: "det_tid \<Rightarrow> 'g replay_sched \<Rightarrow> bool" where
  "can_switch_to t s \<longleftrightarrow> contains_tid (rs_queue s) t \<or> due_waiter t s"

text \<open>The thread \<open>t\<close> is the next one the queue selects, and has the foreground for itself.\<close>

definition at_front :: "suspended_entry set \<Rightarrow> det_tid \<Rightarrow> 'g run_queue \<Rightarrow> bool" where
  "at_front S t q \<longleftrightarrow> rq_closed S q \<and> foreground t q \<and> clear_of t q
     \<and> (\<exists>k v. (k, v) \<in> set (queue q) \<and> qv_tid v = t \<and> po_priority k = FIRST_PRIORITY)"

lemma foreground_requeued:
  assumes "requeued S t p s s'" "foreground cur (rs_queue s)" "t = t' \<or> FIRST_PRIORITY < p"
    "cur = t \<or> cur = t'"
  shows "foreground t' (rs_queue s')"
  unfolding foreground_def
proof
  fix e' assume e': "e' \<in> set (queue (rs_queue s'))"
  consider "qv_tid (snd e') = t" "po_priority (fst e') = p" "poll_upgrade (snd e') = None"
    | "qv_tid (snd e') \<noteq> t" "from_entry e' (rs_queue s)"
    using requeued_entry [OF assms(1) e'] by metis
  then show "qv_tid (snd e') = t' \<or> behind e'"
  proof cases
    case 1
    then show ?thesis using assms(3) by (auto simp: behind_def)
  next
    case 2
    then show ?thesis using from_entry_behind [OF 2(2) assms(2)] assms(4) by blast
  qed
qed

lemma runqueue_push_front_ok:
  assumes "rq_closed S (rs_queue s)" "\<not> contains_tid (rs_queue s) t" "bm_get (priorities s) t = Some FIRST_PRIORITY"
    "foreground t (rs_queue s)" "clear_of t (rs_queue s)"
  shows "\<exists>q. runqueue_push_front t s = Some (s\<lparr>rs_queue := q\<rparr>) \<and> at_front S t q
    \<and> set (tids (queue q)) = insert t (set (tids (queue (rs_queue s)))) \<and> sched_strategy q = sched_strategy (rs_queue s)"
proof -
  have ord: "is_ordinary_priority FIRST_PRIORITY" by (simp add: is_ordinary_priority_def priority_defs)
  obtain k q where q: "push_front (rs_queue s) t FIRST_PRIORITY = Some (k, q)" "pushed S (rs_queue s) t q"
    "placed t FIRST_PRIORITY (rs_queue s) q"
    using push_front_placed [OF assms(1,2) ord] by blast
  have "qv_tid (snd e') = t \<or> behind e'" if "e' \<in> set (queue q)" for e'
    using that q(3) from_entry_behind [OF _ assms(4)] unfolding placed_def by blast
  then have "foreground t q" unfolding foreground_def by blast
  moreover have "\<exists>k v. (k, v) \<in> set (queue q) \<and> qv_tid v = t \<and> po_priority k = FIRST_PRIORITY"
    using q(3) by (fastforce simp: placed_def)
  moreover have "rq_closed S q" "clear_of t q"
    using q(2) assms(5) by (auto simp: pushed_def same_selection_state_def clear_of_def)
  ultimately have "at_front S t q" by (simp add: at_front_def)
  then show ?thesis
    using q(1,2) assms(3) by (auto simp: runqueue_push_front_def get_priority_def pushed_def same_selection_state_def)
qed


lemma wake_timed_event_ok:
  assumes "due_waiter t s" "rq_closed S (rs_queue s)" "\<not> contains_tid (rs_queue s) t"
    "bm_get (priorities s) t = Some FIRST_PRIORITY" "foreground t (rs_queue s)" "clear_of t (rs_queue s)"
  shows "\<exists>s'. wake_timed_event t (s\<lparr>timed_waiters := te\<rparr>) = Some s' \<and> at_front S t (rs_queue s')
    \<and> set (tids (queue (rs_queue s'))) = insert t (set (tids (queue (rs_queue s))))
    \<and> sched_strategy (rs_queue s') = sched_strategy (rs_queue s)
    \<and> rs_replayer s' = rs_replayer s \<and> timeslices s' = timeslices s"
proof -
  obtain futex where f: "next_turns s t = Some futex" "futex \<longrightarrow> futex_entries t s = 1 \<and> t \<notin> timed_out_futex_waiters s"
    using assms(1) by (auto simp: due_waiter_def split: option.splits)
  obtain s1 where s1: "wake_timed_event t (s\<lparr>timed_waiters := te\<rparr>) = runqueue_push_front t s1"
    "rs_queue s1 = rs_queue s" "priorities s1 = priorities s" "rs_replayer s1 = rs_replayer s" "timeslices s1 = timeslices s"
    using f by (cases futex) (auto simp: wake_timed_event_def remove_futex_waiter_def Let_def futex_entries_def)
  show ?thesis using runqueue_push_front_ok [of S s1 t] assms s1 by auto
qed

lemma wake_due_ok:
  assumes "can_switch_to t s" "rq_closed S (rs_queue s)" "bm_get (priorities s) t = Some FIRST_PRIORITY"
    "foreground t (rs_queue s)" "clear_of t (rs_queue s)" "contains_tid (rs_queue s) t \<Longrightarrow> at_front S t (rs_queue s)"
  shows "\<exists>s'. wake_due_replay_target t s = Some s' \<and> at_front S t (rs_queue s')
    \<and> set (tids (queue (rs_queue s'))) = insert t (set (tids (queue (rs_queue s))))
    \<and> sched_strategy (rs_queue s') = sched_strategy (rs_queue s)
    \<and> rs_replayer s' = rs_replayer s \<and> timeslices s' = timeslices s"
proof (cases "contains_tid (rs_queue s) t")
  case True
  then show ?thesis using assms(6) by (auto simp: wake_due_replay_target_def contains_tid_def)
next
  case False
  then have due: "due_waiter t s" using assms(1) by (simp add: can_switch_to_def)
  then obtain d te where "thread_deadline t (timed_waiters s) = Some d" "d \<le> committed_time s" "\<not> is_indefinite d"
    "t \<notin> sigchld_deferred s" "remove_thread t (timed_waiters s) = Some te"
    using remove_thread_ok [of "timed_waiters s" t] by (auto simp: due_waiter_def split: option.splits)
  then have "wake_due_replay_target t s = wake_timed_event t (s\<lparr>timed_waiters := te\<rparr>)"
    using False by (simp add: wake_due_replay_target_def)
  then show ?thesis using wake_timed_event_ok [OF due assms(2) False assms(3-5)] by simp
qed

text \<open>The two priority changes of a switch.\<close>

lemma switch_priorities:
  assumes cl: "rq_closed S (rs_queue s)" and room: "last_back_turn (rs_queue s) + 2 < RUN_TIME_TURNS"
    and pr: "bm_ok (priorities s)" and fg: "foreground cur (rs_queue s)" and ne: "t \<noteq> cur"
  shows "\<exists>s2. (do {
       s1 \<leftarrow> requeue_with_new_priority cur REPLAY_DEFERRED_PRIORITY s;
       requeue_with_new_priority t REPLAY_FOREGROUND_PRIORITY s1
     }) = Some s2
     \<and> rq_closed S (rs_queue s2) \<and> set (tids (queue (rs_queue s2))) = set (tids (queue (rs_queue s)))
     \<and> sched_strategy (rs_queue s2) = sched_strategy (rs_queue s)
     \<and> bm_get (priorities s2) t = Some FIRST_PRIORITY \<and> foreground t (rs_queue s2) \<and> clear_of t (rs_queue s2)
     \<and> (contains_tid (rs_queue s) t \<longrightarrow> at_front S t (rs_queue s2))
     \<and> s2 = s\<lparr>priorities := priorities s2, rs_queue := rs_queue s2\<rparr>"
proof -
  have ord: "is_ordinary_priority REPLAY_DEFERRED_PRIORITY" "is_ordinary_priority REPLAY_FOREGROUND_PRIORITY"
    "FIRST_PRIORITY < REPLAY_DEFERRED_PRIORITY" "REPLAY_FOREGROUND_PRIORITY = FIRST_PRIORITY"
    by (simp_all add: is_ordinary_priority_def priority_defs)
  obtain s1 where s1: "requeue_with_new_priority cur REPLAY_DEFERRED_PRIORITY s = Some s1"
    "requeued S cur REPLAY_DEFERRED_PRIORITY s s1" using requeue_ok [OF cl ord(1) _ pr] room by auto
  have f1: "rq_closed S (rs_queue s1)" "set (tids (queue (rs_queue s1))) = set (tids (queue (rs_queue s)))"
    "last_back_turn (rs_queue s1) + 1 < RUN_TIME_TURNS" "sched_strategy (rs_queue s1) = sched_strategy (rs_queue s)"
    using s1(2) room by (auto simp: requeued_def)
  have e1: "s1 = s\<lparr>priorities := bm_insert cur REPLAY_DEFERRED_PRIORITY (priorities s), rs_queue := rs_queue s1\<rparr>"
    using s1(2) unfolding requeued_def by (elim conjE)
  then have pr1: "bm_ok (priorities s1)" using pr by (metis bm_insert_ok replay_sched.select_convs(2) replay_sched.surjective replay_sched.update_convs(2,3))
  obtain s2 where s2: "requeue_with_new_priority t REPLAY_FOREGROUND_PRIORITY s1 = Some s2"
    "requeued S t REPLAY_FOREGROUND_PRIORITY s1 s2" using requeue_ok [OF f1(1) ord(2) f1(3) pr1] by auto
  have f2: "rq_closed S (rs_queue s2)" "set (tids (queue (rs_queue s2))) = set (tids (queue (rs_queue s1)))"
    "clear_of t (rs_queue s2)" "sched_strategy (rs_queue s2) = sched_strategy (rs_queue s1)"
    using s2(2) by (auto simp: requeued_def)
  have e2: "s2 = s1\<lparr>priorities := bm_insert t REPLAY_FOREGROUND_PRIORITY (priorities s1), rs_queue := rs_queue s2\<rparr>"
    using s2(2) unfolding requeued_def by (elim conjE)
  have "foreground t (rs_queue s1)" using foreground_requeued [OF s1(2) fg, of t] ord(3) by simp
  then have fg2: "foreground t (rs_queue s2)" using foreground_requeued [OF s2(2), of t t] by simp
  have "at_front S t (rs_queue s2)" if queued: "contains_tid (rs_queue s) t"
  proof -
    obtain e where e: "e \<in> set (queue (rs_queue s2))" "qv_tid (snd e) = t"
      using queued f1(2) f2(2) unfolding contains_tid_def set_tids by (metis imageE)
    then have "po_priority (fst e) = FIRST_PRIORITY" using requeued_entry [OF s2(2) e(1)] ord(4) by simp
    then show ?thesis using f2 fg2 e unfolding at_front_def by (metis prod.collapse)
  qed
  moreover have "bm_get (priorities s2) t = Some FIRST_PRIORITY"
    using bm_get_insert [OF pr1] ord(4) by (subst e2) simp
  moreover have "s2 = s\<lparr>priorities := priorities s2, rs_queue := rs_queue s2\<rparr>"
    by (subst e2, subst e1, subst (2) e2) simp
  ultimately show ?thesis using s1(1) s2(1) f1 f2 fg2 by simp
qed


lemma consume_switch:
  assumes obs: "observe_event rnd obs (rs_replayer s) = Some (ContextSwitch now t e, r')" "last_consumed r' = Some p"
    "has_events_left r'"
    and cl: "rq_closed S (rs_queue s)" and room: "last_back_turn (rs_queue s) + 2 < RUN_TIME_TURNS"
    and pr: "bm_ok (priorities s)" and fg: "foreground (dettid obs) (rs_queue s)"
    and t: "t \<noteq> dettid obs" "can_switch_to t s"
  shows "\<exists>s'. consume_schedevent rnd obs s =
      Some (Inr \<lparr>keep_running = \<not> now, event_ix = traced_event_count (rs_replayer s), timeslice_remaining = e\<rparr>, s')
    \<and> rs_replayer s' = r' \<and> timeslices s' t = Some (map_option se_length e) \<and> at_front S t (rs_queue s')
    \<and> set (tids (queue (rs_queue s'))) = insert t (set (tids (queue (rs_queue s))))
    \<and> sched_strategy (rs_queue s') = sched_strategy (rs_queue s)"
proof -
  let ?s = "s\<lparr>rs_replayer := r'\<rparr>"
  obtain s1 s2 where s12: "requeue_with_new_priority (dettid obs) REPLAY_DEFERRED_PRIORITY ?s = Some s1"
    "requeue_with_new_priority t REPLAY_FOREGROUND_PRIORITY s1 = Some s2"
    and s2: "rq_closed S (rs_queue s2)" "set (tids (queue (rs_queue s2))) = set (tids (queue (rs_queue s)))"
    "sched_strategy (rs_queue s2) = sched_strategy (rs_queue s)" "bm_get (priorities s2) t = Some FIRST_PRIORITY"
    "foreground t (rs_queue s2)" "clear_of t (rs_queue s2)" "contains_tid (rs_queue s) t \<longrightarrow> at_front S t (rs_queue s2)"
    "s2 = ?s\<lparr>priorities := priorities s2, rs_queue := rs_queue s2\<rparr>"
    using switch_priorities [of S ?s "dettid obs" t] cl room pr fg t(1) by (auto simp: bind_eq_Some_conv)
  have "can_switch_to t (?s\<lparr>priorities := p, rs_queue := q\<rparr>)" if "set (tids (queue q)) = set (tids (queue (rs_queue s)))" for p q
    using t(2) that by (simp add: can_switch_to_def due_waiter_def futex_entries_def contains_tid_def cong: option.case_cong)
  then have can2: "can_switch_to t s2" using s2(2,8) by metis
  have fields: "rs_replayer s2 = r'" by (subst s2(8)) simp
  have front2: "contains_tid (rs_queue s2) t \<Longrightarrow> at_front S t (rs_queue s2)" using s2(2,7) by (simp add: contains_tid_def)
  obtain s3 where s3: "wake_due_replay_target t s2 = Some s3" "at_front S t (rs_queue s3)"
    "set (tids (queue (rs_queue s3))) = insert t (set (tids (queue (rs_queue s2))))"
    "sched_strategy (rs_queue s3) = sched_strategy (rs_queue s2)" "rs_replayer s3 = rs_replayer s2"
    using wake_due_ok [OF can2 s2(1,4,5,6) front2] by blast
  have "release_replay_priorities_if_exhausted True ?s = Some ?s"
    using obs(3) by (simp add: release_replay_priorities_if_exhausted_def)
  then show ?thesis
    using obs(1,2) s12 s3 s2(2,3) fields by (simp add: consume_schedevent_def stacktrace_position_def note_replay_switch_def Let_def)
qed

end
