(* ===== verification/Replay_Props.thy ===== *)
theory Replay_Props
  imports Replay_Sched_Props
begin

text \<open>The properties of the replay of a schedule.\<close>

subsection \<open>Histories of a replay\<close>

text \<open>The start of a replay, with the flags that make it stop.\<close>

definition start_replay :: "sched_event list \<Rightarrow> background_start list \<Rightarrow> bool \<Rightarrow> bool \<Rightarrow> bool \<Rightarrow> replayer" where
  "start_replay E B every die panic =
     (with_background_starts B every (new_replayer E))\<lparr>die_on_desync := die, replay_exhausted_panic := panic\<rparr>"

lemma start_replay_ok: "replay_ok E (start_replay E B every die panic)"
  unfolding start_replay_def by (rule replay_ok_frame(1) [OF replay_start_ok])

lemma stacktrace_position_defined:
  assumes "replay_ok E r" "ix + 1 = traced_event_count r" "length E + ix < u64_max"
  shows "stacktrace_position r ix \<noteq> None"
  using assms
  by (auto simp: replay_ok_defs stacktrace_position_def sub_u64_def add_u64_def split: option.splits)

lemma flat_set_mset: "mset (flat (fold add_start B m)) = mset (map (\<lambda>b. (bs_thread b, bs_call b, bs_after b)) B) + mset (flat m)"
  if "bm_ok m" for m
  using that
proof (induction B arbitrary: m)
  case (Cons b B)
  have ins: "mset (flat (bm_insert k (q @ [x]) m)) = add_mset (fst x, snd x, k) (mset (flat m))"
    if "bm_ok m" "q = (case bm_get m k of Some q \<Rightarrow> q | None \<Rightarrow> [])" for k q and x :: "det_tid \<times> nat" and m
    using that
  proof (induction m)
    case (Cons e m)
    obtain k' q' where e: "e = (k', q')" by fastforce
    have rest: "\<forall>e' \<in> set m. k' < fst e'" "bm_ok m" using Cons.prems by (auto simp: bm_ok_Cons e)
    show ?case
    proof (cases "k' < k")
      case True
      then show ?thesis using Cons.IH [OF rest(2)] Cons.prems(2) by (cases x) (simp add: e bm_get_def)
    next
      case False
      have "map_of m k = None" if "k \<le> k'" using rest(1) that by (force simp: map_of_eq_None_iff)
      then show ?thesis using False Cons.prems(2) by (cases x) (auto simp: e bm_get_def)
    qed
  qed (cases x; simp add: bm_get_def)
  show ?case
    using Cons.IH [OF add_start_ok [OF Cons.prems]] ins [OF Cons.prems refl, of "bs_after b"] by (simp add: add_start_def)
qed simp

lemma start_replay_untaken:
  "untaken_mset (start_replay E B every die panic) = mset (map (\<lambda>b. (bs_thread b, bs_call b, bs_after b)) B)"
proof -
  let ?r = "(new_replayer E)\<lparr>background_starts := fold add_start B [], notes_background_starts := every\<rparr>"
  have "untaken_mset (start_replay E B every die panic) = untaken_mset (queue_background_starts ?r)"
    by (simp add: start_replay_def with_background_starts_def untaken_mset_def new_replayer_def)
  also have "\<dots> = untaken_mset ?r"
    by (rule queue_background_starts_ok(2)) (simp_all add: fold_add_start_ok new_replayer_def)
  also have "\<dots> = mset (map (\<lambda>b. (bs_thread b, bs_call b, bs_after b)) B)"
    using flat_set_mset [OF bm_ok_Nil, of B] by (simp add: untaken_mset_def new_replayer_def)
  finally show ?thesis .
qed


definition first_start :: "background_start list \<Rightarrow> (det_tid \<times> nat) option" where
  "first_start B = (case starts_at 0 B of [] \<Rightarrow> None | s # _ \<Rightarrow> Some s)"

lemma start_replay_view:
  "replay_view (start_replay E B every die panic) =
     (0, mset (map (\<lambda>b. (bs_thread b, bs_call b, bs_after b)) B), False, first_start B)"
proof -
  have "following E B 0 (start_replay E B every die panic)" unfolding start_replay_def by (rule following_start)
  then show ?thesis
    by (auto simp: replay_view_def following_def released_def start_replay_untaken first_start_def
        pending_background_start_def split: list.split)
qed

lemma replay_reached:
  assumes "legal_schedule E" "legal_calls (replay_pre E) (replay_step rnd) cs (start_replay E B every die panic)"
  shows "\<exists>r. run_calls (replay_step rnd) cs (start_replay E B every die panic) = Some r \<and> replay_ok E r
    \<and> spec_run replay_spec cs (0, mset (map (\<lambda>b. (bs_thread b, bs_call b, bs_after b)) B), False, first_start B) (replay_view r)"
proof -
  have "legal_schedule E \<and> replay_ok E (start_replay E B every die panic)" using assms(1) start_replay_ok by blast
  from rp.history_ok [OF this assms(2)] show ?thesis by (auto simp: start_replay_view)
qed

text \<open>The record and the history of the witnesses: two threads, a start between their events.\<close>

definition sample_record :: "sched_event list" where
  "sample_record =
     [with_time 5 (ev_branches 1 10), with_time 9 (ev_syscall 2 (SysOther 0) Prehook), with_time 9 (ev_syscall 2 (SysOther 0) Posthook)]"

definition sample_starts :: "background_start list" where
  "sample_starts = [\<lparr>bs_after = 1, bs_thread = 1, bs_call = 4\<rparr>, \<lparr>bs_after = 2, bs_thread = 3, bs_call = 1\<rparr>]"

definition sample_history :: "replay_call list" where
  "sample_history =
     [Observe (with_time 5 (ev_branches 1 10)), BeginCall 1 4, KeepTurn 2, Observe (with_time 9 (ev_syscall 2 (SysOther 0) Posthook))]"

lemma sample_replay_legal:
  "legal_schedule sample_record"
  "legal_calls (replay_pre sample_record) (replay_step id) sample_history (start_replay sample_record sample_starts True True False)"
proof -
  show "legal_schedule sample_record"
    by (simp add: legal_schedule_def sample_record_def with_time_def ev_branches_def ev_syscall_def stopless_mark_refusal_def)
  show "legal_calls (replay_pre sample_record) (replay_step id) sample_history (start_replay sample_record sample_starts True True False)"
    by code_simp
qed

text \<open>
  C2: no history of observed events, begun calls and retry turns makes the replay panic, as long as the
  record and the run have fewer than \<open>2^64\<close> events. The history refines the abstract replay: the position in
  the record only grows, and stands still once the schedule is given up; an event takes no start; a call
  that begins takes one when it is the pending start, which is one not taken that is due, and takes none
  otherwise, nor once the schedule is given up. The cursor holds exactly the
  events from the position on until the schedule is given up, and nothing after that. The starts reported
  at the end, in record order, are exactly the recorded ones that were not taken.
\<close>

theorem replay_history_refines_record:
  assumes "legal_schedule E" "legal_calls (replay_pre E) (replay_step rnd) cs (start_replay E B every die panic)"
  shows "\<exists>r. run_calls (replay_step rnd) cs (start_replay E B every die panic) = Some r
    \<and> spec_run replay_spec cs (0, mset (map (\<lambda>b. (bs_thread b, bs_call b, bs_after b)) B), False, first_start B)
         (record_position r, mset (map start_key (untaken_background_starts r)), released r, pending_background_start r)
    \<and> record_position r \<le> length E \<and> cursor r = (if released r then [] else drop (record_position r) E)
    \<and> sorted (map us_after (untaken_background_starts r))"
proof -
  obtain r where r: "run_calls (replay_step rnd) cs (start_replay E B every die panic) = Some r" "replay_ok E r"
    "spec_run replay_spec cs (0, mset (map (\<lambda>b. (bs_thread b, bs_call b, bs_after b)) B), False, first_start B) (replay_view r)"
    using replay_reached [OF assms] by blast
  have "replay_view r =
      (record_position r, mset (map start_key (untaken_background_starts r)), released r, pending_background_start r)"
    by (simp only: replay_view_def untaken_mset_report)
  moreover have "record_position r \<le> length E \<and> cursor r = (if released r then [] else drop (record_position r) E)"
    using r(2) by (auto simp: replay_ok_def position_ok_def released_def)
  moreover have "sorted (map us_after (untaken_background_starts r))" by (simp add: untaken_background_starts_def)
  ultimately show ?thesis using r(1,3) by auto
qed

theorem replay_history_refines_record_witness:
  "\<exists>r. run_calls (replay_step id) sample_history (start_replay sample_record sample_starts True True False) = Some r
    \<and> spec_run replay_spec sample_history (0, mset (map (\<lambda>b. (bs_thread b, bs_call b, bs_after b)) sample_starts), False, first_start sample_starts)
         (record_position r, mset (map start_key (untaken_background_starts r)), released r, pending_background_start r)
    \<and> record_position r \<le> length sample_record \<and> cursor r = (if released r then [] else drop (record_position r) sample_record)
    \<and> sorted (map us_after (untaken_background_starts r))"
  by (rule replay_history_refines_record [OF sample_replay_legal])

text \<open>
  C38: what one more event does after any such history. The event returns an action and a position for its
  stack trace. It either consumes a recorded event at or after the position, one it is in no hard desync
  with, moves the position just behind it, resets the run of unmatched events and is answered with the
  record's next decision; or it consumes nothing, and then the position stays where it is unless the replay
  ends the run at it.
\<close>

theorem observed_event_outcome:
  assumes "legal_schedule E" "legal_calls (replay_pre E) (replay_step rnd) cs (start_replay E B every die panic)"
    "run_calls (replay_step rnd) cs (start_replay E B every die panic) = Some r" "replay_pre E (Observe obs) r"
  shows "\<exists>a r'. observe_event rnd obs r = Some (a, r') \<and> stacktrace_position r' (traced_event_count r) \<noteq> None
    \<and> (case last_consumed r' of
         Some p \<Rightarrow> record_position r \<le> p \<and> p < length E \<and> record_position r' = Suc p \<and> \<not> is_hard_desync obs (E ! p)
           \<and> unmatched_run r' = 0 \<and> names_next rnd obs a r'
       | None \<Rightarrow> (\<exists>why. a = Stop why) \<and> (die_on_desync r \<or> replay_exhausted_panic r) \<or> record_position r' = record_position r)"
proof -
  have ok: "replay_ok E r" using replay_reached [OF assms(1,2)] assms(3) by auto
  have pre: "end_time obs \<noteq> None" "traced_event_count r < u64_max" "length E + traced_event_count r < u64_max"
    using assms(4) by auto
  obtain a r' where r': "observe_event rnd obs r = Some (a, r')" "observed_ok rnd E obs r a r'"
    using observe_event_ok [OF ok assms(1) pre(1,2)] by blast
  have ok': "replay_ok E r'" "traced_event_count r' = traced_event_count r + 1" using r'(2) by (auto simp: observed_ok_def)
  have "stacktrace_position r' (traced_event_count r) \<noteq> None"
    using stacktrace_position_defined [OF ok'(1)] ok'(2) pre(3) by simp
  moreover have "record_position r' \<le> length E" using ok'(1) by (simp add: replay_ok_def position_ok_def)
  ultimately show ?thesis
    using r' by (auto simp: observed_ok_def consumes_def leaves_def split: option.split)
qed

theorem observed_event_outcome_witness:
  "\<exists>a r'. observe_event id (with_time 5 (ev_branches 1 10)) (start_replay sample_record sample_starts True True False) = Some (a, r')
    \<and> stacktrace_position r' (traced_event_count (start_replay sample_record sample_starts True True False)) \<noteq> None
    \<and> (case last_consumed r' of
         Some p \<Rightarrow> record_position (start_replay sample_record sample_starts True True False) \<le> p \<and> p < length sample_record
           \<and> record_position r' = Suc p \<and> \<not> is_hard_desync (with_time 5 (ev_branches 1 10)) (sample_record ! p)
           \<and> unmatched_run r' = 0 \<and> names_next id (with_time 5 (ev_branches 1 10)) a r'
       | None \<Rightarrow> (\<exists>why. a = Stop why) \<and> (die_on_desync (start_replay sample_record sample_starts True True False)
             \<or> replay_exhausted_panic (start_replay sample_record sample_starts True True False))
           \<or> record_position r' = record_position (start_replay sample_record sample_starts True True False))"
proof (rule observed_event_outcome [OF sample_replay_legal(1), where cs = "[]"])
  show "replay_pre sample_record (Observe (with_time 5 (ev_branches 1 10))) (start_replay sample_record sample_starts True True False)"
    by code_simp
qed simp_all


subsection \<open>Following a record, and giving it up\<close>

text \<open>
  C5: a run that follows its record. When every event matches the recorded one at its place and every
  recorded start begins where it is due, the replay answers each event with the record's next decision: the
  thread of the next start or of the next event, and the length of its slice, whichever flags are set. It
  counts no desync, passes no start, and ends with the whole record consumed and only the starts after the
  last event pending.
\<close>

theorem faithful_replay_repeats_decisions:
  assumes "legal_schedule E" "length E < u64_max" "list_all2 follows evs E"
  shows "\<exists>as r. follow rnd evs (start_replay E B every die panic) = Some (as, r) \<and> length as = length E
    \<and> (\<forall>i < length E. decided (dettid (E ! i)) (as ! i) = Some (or_stays (dettid (E ! i)) (next_decision rnd E B (Suc i))))
    \<and> cursor r = [] \<and> \<not> released r \<and> first_desync r = None \<and> passed_starts r = []
    \<and> (\<forall>c \<in> snd ` set (desync_counts r). c = stats_default)
    \<and> pending_starts r = map (\<lambda>(t, c). (t, c, length E)) (starts_at (length E) B)"
proof -
  have start: "following E B 0 (start_replay E B every die panic)" unfolding start_replay_def by (rule following_start)
  have len: "length evs = length E" using assms(3) by (rule list_all2_lengthD)
  have tid: "dettid (evs ! i) = dettid (E ! i)" if "i < length E" for i
    using list_all2_nthD [OF assms(3), of i] that len by (auto simp: follows_def is_desync_def)
  obtain as r where r: "follow rnd evs (start_replay E B every die panic) = Some (as, r)" "following E B (length E) r"
    "length as = length evs"
    "\<forall>i < length evs. decided (dettid (evs ! i)) (as ! i) = Some (or_stays (dettid (evs ! i)) (next_decision rnd E B (0 + Suc i)))"
    using follow_ok [OF start _ assms(2,1), of evs rnd] assms(3) by auto
  have "cursor r = []" using r(2) by (auto simp: following_def replay_ok_def position_ok_def)
  then show ?thesis using r len tid by (auto simp: following_def released_def)
qed

theorem faithful_replay_repeats_decisions_witness:
  "\<exists>as r. follow id sample_record (start_replay sample_record sample_starts True True True) = Some (as, r)
    \<and> length as = length sample_record
    \<and> (\<forall>i < length sample_record. decided (dettid (sample_record ! i)) (as ! i) =
         Some (or_stays (dettid (sample_record ! i)) (next_decision id sample_record sample_starts (Suc i))))
    \<and> cursor r = [] \<and> \<not> released r \<and> first_desync r = None \<and> passed_starts r = []
    \<and> (\<forall>c \<in> snd ` set (desync_counts r). c = stats_default)
    \<and> pending_starts r = map (\<lambda>(t, c). (t, c, length sample_record)) (starts_at (length sample_record) sample_starts)"
proof (rule faithful_replay_repeats_decisions [OF sample_replay_legal(1)])
  show "length sample_record < u64_max" by code_simp
  show "list_all2 follows sample_record sample_record"
    by (simp add: sample_record_def follows_def is_desync_def with_time_def ev_branches_def ev_syscall_def)
qed

lemma legal_observes:
  assumes "legal_schedule E" "replay_ok E r" "\<forall>e \<in> set es. end_time e \<noteq> None"
    "length E + traced_event_count r + length es \<le> u64_max"
  shows "legal_calls (replay_pre E) (replay_step rnd) (map Observe es) r"
  using assms
proof (induction es arbitrary: r)
  case (Cons e es)
  have pre: "end_time e \<noteq> None" "traced_event_count r < u64_max" using Cons.prems(3,4) by auto
  obtain a r' where r': "observe_event rnd e r = Some (a, r')" "observed_ok rnd E e r a r'"
    using observe_event_ok [OF Cons.prems(2,1) pre] by blast
  have "replay_ok E r'" "traced_event_count r' = traced_event_count r + 1" using r'(2) by (auto simp: observed_ok_def)
  then show ?case using Cons.IH [of r'] Cons.prems r'(1) by auto
qed simp

text \<open>
  C6: a replay that does not stop at a desync does not hold the run for ever. In every history with at least
  a thousand non-polling events per recorded event, polling retries, begun calls and retry turns in between,
  the replay has run through the record or given it up: nothing of it is left, and the run goes on unguided.
\<close>

theorem unmatched_replay_given_up:
  assumes "legal_schedule E" "legal_calls (replay_pre E) (replay_step rnd) cs (start_replay E B every False False)"
    "1000 * length E \<le> length (filter counted cs)"
  shows "\<exists>r. run_calls (replay_step rnd) cs (start_replay E B every False False) = Some r \<and> cursor r = []
    \<and> (record_position r = length E \<or> released r)"
proof -
  let ?s = "start_replay E B every False False"
  obtain r where r: "run_calls (replay_step rnd) cs ?s = Some r" "replay_ok E r" using replay_reached [OF assms(1,2)] by blast
  have q: "quiet ?s" by (simp add: quiet_def start_replay_def)
  have "record_position ?s = 0" "unmatched_run ?s = 0" "length E \<le> length E"
    using start_replay_view [of E B every False False]
    by (auto simp: replay_view_def start_replay_def with_background_starts_def queue_background_starts_def new_replayer_def split: prod.splits)
  then have lo: "left_over E ?s = 1000 * length E" by (simp add: left_over_def UNMATCHED_EVENTS_BEFORE_RELEASE_def)
  have c: "cursor r = []"
    using history_left_over [OF assms(1) start_replay_ok q assms(2) r(1)] left_over_pos [OF r(2)] lo assms(3) by fastforce
  then have "record_position r = length E \<or> released r"
    using r(2) by (auto simp: replay_ok_def position_ok_def released_def)
  then show ?thesis using r(1) c by blast
qed

text \<open>A run that makes none of the recorded events.\<close>

definition stray_history :: "replay_call list" where
  "stray_history = map Observe (replicate 1000 (with_time 7 (ev_syscall 2 (SysOther 1) Prehook)))"

theorem unmatched_replay_given_up_witness:
  "\<exists>r. run_calls (replay_step id) stray_history (start_replay [with_time 5 (ev_branches 1 10)] [] False False False) = Some r
    \<and> cursor r = [] \<and> (record_position r = length [with_time 5 (ev_branches 1 10)] \<or> released r)"
proof (rule unmatched_replay_given_up)
  show legal: "legal_schedule [with_time 5 (ev_branches 1 10)]"
    by (simp add: legal_schedule_def with_time_def ev_branches_def stopless_mark_refusal_def)
  show "1000 * length [with_time 5 (ev_branches 1 10)] \<le> length (filter counted stray_history)"
    by (simp add: stray_history_def is_polling_def with_time_def ev_syscall_def)
  have "traced_event_count (start_replay [with_time 5 (ev_branches 1 10)] [] False False False) = 0" by code_simp
  then show "legal_calls (replay_pre [with_time 5 (ev_branches 1 10)]) (replay_step id) stray_history
      (start_replay [with_time 5 (ev_branches 1 10)] [] False False False)"
    unfolding stray_history_def by (intro legal_observes legal start_replay_ok) (simp_all add: with_time_def u64_max_def)
qed


subsection \<open>The replay in the scheduler\<close>

text \<open>What the scheduler provides when it tells the replay of something: a closed queue with room, and its foreground thread.\<close>

definition sched_ready :: "suspended_entry set \<Rightarrow> det_tid \<Rightarrow> 'g replay_sched \<Rightarrow> bool" where
  "sched_ready S cur s \<longleftrightarrow> rq_closed S (rs_queue s) \<and> is_priority_ordered (sched_strategy (rs_queue s))
     \<and> last_back_turn (rs_queue s) + 2 < RUN_TIME_TURNS \<and> bm_ok (priorities s) \<and> foreground cur (rs_queue s)"

lemma at_front_selected:
  assumes "at_front S t q" "is_priority_ordered (sched_strategy q)"
  shows "\<exists>q'. tentative_pop_next R q = Some (Some t, q')"
  using assms foreground_selected [of S q t] by (auto simp: at_front_def)

text \<open>A scheduler with two queued threads, the first in the foreground.\<close>

definition sample_queue :: "rq_call list" where
  "sample_queue = [PushBack 1 REPLAY_FOREGROUND_PRIORITY, PushBack 2 REPLAY_DEFERRED_PRIORITY]"

definition sample_sched :: "replayer \<Rightarrow> unit replay_sched" where
  "sample_sched r =
     \<lparr>rs_replayer = r, priorities = [(1, REPLAY_FOREGROUND_PRIORITY), (2, REPLAY_DEFERRED_PRIORITY)],
      rs_queue = fst (state_after SchedNone sample_queue), replay_prehook_callers = {}, timeslices = Map.empty,
      replay_priorities_released = False, replay_exhausted_allowance = 0, replay_exhausted_at = None,
      record_logical_replay_priorities = False, recorded_event_count = 0, timed_waiters = empty_timed_events,
      sigchld_deferred = {}, committed_time = 0, next_turns = Map.empty, futex_waiters = [], timed_out_futex_waiters = {}\<rparr>"

lemma sample_queue_closed: "rq_closed (set (snd (state_after SchedNone sample_queue))) (fst (state_after SchedNone sample_queue))"
  by (rule state_after_closed) code_simp+

lemma sample_sched_queue [simp]:
  "rs_queue (sample_sched r) = fst (state_after SchedNone sample_queue)" "rs_replayer (sample_sched r) = r"
  "priorities (sample_sched r) = [(1, REPLAY_FOREGROUND_PRIORITY), (2, REPLAY_DEFERRED_PRIORITY)]"
  by (simp_all add: sample_sched_def)

lemma foreground_code [code]:
  "foreground t q \<longleftrightarrow> list_all (\<lambda>e. qv_tid (snd e) = t \<or> behind e) (queue q)"
  by (simp add: foreground_def list_all_iff)

lemma behind_code [code]:
  "behind e \<longleftrightarrow> FIRST_PRIORITY < po_priority (fst e)
     \<and> (case poll_upgrade (snd e) of None \<Rightarrow> True | Some p \<Rightarrow> FIRST_PRIORITY < p)"
  by (simp add: behind_def split: option.split)

lemma sample_sched_ready: "sched_ready (set (snd (state_after SchedNone sample_queue))) 1 (sample_sched r)"
proof -
  let ?q = "fst (state_after SchedNone sample_queue)"
  have "is_priority_ordered (sched_strategy ?q)" "last_back_turn ?q + 2 < RUN_TIME_TURNS" "foreground 1 ?q"
    by code_simp+
  then show ?thesis using sample_queue_closed by (simp add: sched_ready_def bm_ok_def)
qed

text \<open>
  C1: the replay, the scheduler and the run queue together run the threads in the order of the record. In a
  replay that has followed its record so far, an event of the foreground thread that matches the record is
  answered with the record's next decision. If that is another thread, which is queued or in a timed wait
  whose deadline has passed, it gets the recorded slice length and the foreground for itself and is the
  thread the run queue selects next, whatever yields exclude; no other thread enters or leaves the queue.
  If it is the same thread, it keeps running with its recorded slice and the queue is unchanged.
\<close>

theorem replay_runs_recorded_thread:
  assumes rec: "legal_schedule E" "length E < u64_max" "following E B p r" "p < length E" "follows obs (E ! p)"
    and s: "rs_replayer s = r\<lparr>pending_starts := []\<rparr>" "sched_ready S (dettid obs) s"
    and dec: "next_decision rnd E B (Suc p) = Some (t, len)" "t \<noteq> dettid obs \<longrightarrow> can_switch_to t s"
  shows "\<exists>res s'. consume_schedevent rnd obs s = Some (Inr res, s') \<and> following E B (Suc p) (rs_replayer s')
    \<and> (if t = dettid obs
       then keep_running res \<and> map_option se_length (timeslice_remaining res) = len \<and> rs_queue s' = rs_queue s
       else timeslices s' t = Some len \<and> foreground t (rs_queue s')
         \<and> set (tids (queue (rs_queue s'))) = insert t (set (tids (queue (rs_queue s))))
         \<and> (\<exists>q. tentative_pop_next R (rs_queue s') = Some (Some t, q)))"
proof -
  obtain a r' where r': "observe_event rnd obs (rs_replayer s) = Some (a, r')" "following E B (Suc p) r'"
    "last_consumed r' = Some p" "\<forall>now t e. a = ContextSwitch now t e \<longrightarrow> t \<noteq> dettid obs"
    "decided (dettid obs) a = Some (t, len)"
    using following_step [OF rec(3,4,2,1,5), of rnd] dec(1) s(1) by (auto simp: or_stays_def)
  have left: "has_events_left r'" by (rule following_has_left [OF r'(2) dec(1)])
  show ?thesis
  proof (cases a)
    case (Continue e)
    then have "t = dettid obs" "map_option se_length e = len" using r'(5) by auto
    moreover have "consume_schedevent rnd obs s = Some (Inr \<lparr>keep_running = True,
        event_ix = traced_event_count (rs_replayer s), timeslice_remaining = e\<rparr>, s\<lparr>rs_replayer := r'\<rparr>)"
      using Continue r'(1,3) left
      by (simp add: consume_schedevent_def stacktrace_position_def release_replay_priorities_if_exhausted_def)
    ultimately show ?thesis using r'(2) by simp
  next
    case (ContextSwitch now t' e)
    then have t: "t' = t" "t \<noteq> dettid obs" "map_option se_length e = len" using r'(4,5) by auto
    obtain s' where s': "consume_schedevent rnd obs s =
        Some (Inr \<lparr>keep_running = \<not> now, event_ix = traced_event_count (rs_replayer s), timeslice_remaining = e\<rparr>, s')"
      "rs_replayer s' = r'" "timeslices s' t = Some (map_option se_length e)" "at_front S t (rs_queue s')"
      "set (tids (queue (rs_queue s'))) = insert t (set (tids (queue (rs_queue s))))"
      "sched_strategy (rs_queue s') = sched_strategy (rs_queue s)"
      using consume_switch [OF r'(1) [unfolded ContextSwitch t(1)] r'(3) left, of S] s(2) t(2) dec(2) by (auto simp: sched_ready_def)
    then show ?thesis
      using t r'(2) at_front_selected [OF s'(4), of R] s(2) by (auto simp: sched_ready_def at_front_def)
  qed (use r'(5) in simp)
qed


abbreviation first_event :: sched_event where
  "first_event \<equiv> with_time 5 (ev_branches 1 10)"

abbreviation replaying :: "unit replay_sched" where
  "replaying \<equiv> sample_sched ((start_replay sample_record [] True True True)\<lparr>pending_starts := []\<rparr>)"

theorem replay_runs_recorded_thread_witness:
  "\<exists>res s'. consume_schedevent id first_event replaying = Some (Inr res, s') \<and> following sample_record [] (Suc 0) (rs_replayer s')
    \<and> (if (2 :: det_tid) = dettid first_event
       then keep_running res \<and> map_option se_length (timeslice_remaining res) = None \<and> rs_queue s' = rs_queue replaying
       else timeslices s' 2 = Some None \<and> foreground 2 (rs_queue s')
         \<and> set (tids (queue (rs_queue s'))) = insert 2 (set (tids (queue (rs_queue replaying))))
         \<and> (\<exists>q. tentative_pop_next first_rng (rs_queue s') = Some (Some 2, q)))"
proof (rule replay_runs_recorded_thread [OF sample_replay_legal(1)])
  show "following sample_record [] 0 (start_replay sample_record [] True True True)"
    unfolding start_replay_def by (rule following_start)
  show "follows first_event (sample_record ! 0)"
    by (simp add: sample_record_def follows_def is_desync_def with_time_def ev_branches_def)
  show "sched_ready (set (snd (state_after SchedNone sample_queue))) (dettid first_event) replaying"
    using sample_sched_ready by (simp add: with_time_def ev_branches_def)
  have "contains_tid (fst (state_after SchedNone sample_queue)) 2" by code_simp
  then show "2 \<noteq> dettid first_event \<longrightarrow> can_switch_to 2 replaying" by (simp add: can_switch_to_def)
  show "next_decision id sample_record [] (Suc 0) = Some (2, None)" by code_simp
qed (code_simp | simp)+

lemma next_resume_has_left:
  assumes "next_resume rnd r = Some d" "\<not> released r"
  shows "has_events_left r"
  using assms
  by (auto simp: next_resume_def next_slice_end_def pending_background_start_def has_events_left_def split: option.splits list.splits)

text \<open>
  C39: a recorded background start that begins hands over as the record did. When the call of the pending
  start begins, the start is taken off the record; if the record's next decision is a queued thread other
  than the one that began, that thread gets the foreground for itself and its recorded slice, and is the
  one the run queue selects next.
\<close>

theorem background_start_hands_over:
  assumes start: "pending_background_start (rs_replayer s) = Some (t0, c)"
    and dec: "next_resume rnd ((rs_replayer s)\<lparr>pending_starts := tl (pending_starts (rs_replayer s))\<rparr>) = Some (t, len)" "t \<noteq> t0"
    and s: "sched_ready S t0 s" "contains_tid (rs_queue s) t"
  shows "\<exists>s'. record_or_replay_background_start rnd t0 c s = Some (False, s')
    \<and> rs_replayer s' = (rs_replayer s)\<lparr>pending_starts := tl (pending_starts (rs_replayer s))\<rparr>
    \<and> timeslices s' t = Some len \<and> foreground t (rs_queue s')
    \<and> set (tids (queue (rs_queue s'))) = set (tids (queue (rs_queue s)))
    \<and> (\<exists>q. tentative_pop_next R (rs_queue s') = Some (Some t, q))"
proof -
  let ?r = "(rs_replayer s)\<lparr>pending_starts := tl (pending_starts (rs_replayer s))\<rparr>"
  let ?s = "s\<lparr>rs_replayer := ?r\<rparr>"
  have "\<not> released ?r" using start by (auto simp: pending_background_start_def released_def split: if_splits)
  then have left: "has_events_left ?r" using next_resume_has_left [OF dec(1)] by blast
  obtain s1 s2 where s12: "requeue_with_new_priority t0 REPLAY_DEFERRED_PRIORITY ?s = Some s1"
    "requeue_with_new_priority t REPLAY_FOREGROUND_PRIORITY s1 = Some s2"
    and s2: "set (tids (queue (rs_queue s2))) = set (tids (queue (rs_queue s)))"
    "sched_strategy (rs_queue s2) = sched_strategy (rs_queue s)" "at_front S t (rs_queue s2)"
    "s2 = ?s\<lparr>priorities := priorities s2, rs_queue := rs_queue s2\<rparr>"
    using switch_priorities [of S ?s t0 t] s dec(2) by (auto simp: bind_eq_Some_conv sched_ready_def)
  have r2: "rs_replayer s2 = ?r" by (subst s2(4)) simp
  let ?s3 = "(note_replay_switch t0 t False s2)\<lparr>timeslices := (timeslices s2)(t \<mapsto> len)\<rparr>"
  have "release_replay_priorities_if_exhausted False ?s3 = Some ?s3"
    using left r2 by (simp add: release_replay_priorities_if_exhausted_def note_replay_switch_def)
  then have "record_or_replay_background_start rnd t0 c s = Some (False, ?s3)"
    using start dec s12 by (simp add: record_or_replay_background_start_def take_background_start_def note_replay_switch_def)
  moreover have "\<exists>q. tentative_pop_next R (rs_queue s2) = Some (Some t, q)"
    using at_front_selected [OF s2(3), of R] s(1) s2(2) by (simp add: sched_ready_def)
  ultimately show ?thesis using r2 s2(1,3) by (simp add: note_replay_switch_def at_front_def)
qed

abbreviation starting :: "unit replay_sched" where
  "starting \<equiv> sample_sched (start_replay (tl sample_record) [\<lparr>bs_after = 0, bs_thread = 1, bs_call = 4\<rparr>] True True True)"

theorem background_start_hands_over_witness:
  "\<exists>s'. record_or_replay_background_start id 1 4 starting = Some (False, s')
    \<and> rs_replayer s' = (rs_replayer starting)\<lparr>pending_starts := tl (pending_starts (rs_replayer starting))\<rparr>
    \<and> timeslices s' 2 = Some None \<and> foreground 2 (rs_queue s')
    \<and> set (tids (queue (rs_queue s'))) = set (tids (queue (rs_queue starting)))
    \<and> (\<exists>q. tentative_pop_next first_rng (rs_queue s') = Some (Some 2, q))"
proof (rule background_start_hands_over [OF _ _ _ sample_sched_ready])
  show "pending_background_start (rs_replayer starting) = Some (1, 4)" by code_simp
  show "next_resume id ((rs_replayer starting)\<lparr>pending_starts := tl (pending_starts (rs_replayer starting))\<rparr>) = Some (2, None)"
    by code_simp
  show "contains_tid (rs_queue starting) 2" by code_simp
qed simp

text \<open>
  C40: once nothing is left of the schedule, no thread waits behind another for the priority the replay left
  it. The first call after the end gives every thread the default priority and requeues every queued
  thread at it, pollers included; no thread enters or leaves the queue, and every later call changes nothing.
\<close>

theorem exhausted_replay_levels_priorities:
  assumes "\<not> replay_priorities_released s" "\<not> has_events_left (rs_replayer s)" "rq_closed S (rs_queue s)" "bm_ok (priorities s)"
    "set (tids (queue (rs_queue s))) \<subseteq> fst ` set (priorities s)"
    "last_back_turn (rs_queue s) + int (length (priorities s)) < RUN_TIME_TURNS"
  shows "\<exists>s'. release_replay_priorities_if_exhausted pending s = Some s' \<and> replay_priorities_released s'
    \<and> set (tids (queue (rs_queue s'))) = set (tids (queue (rs_queue s)))
    \<and> (\<forall>e \<in> set (queue (rs_queue s')). po_priority (fst e) = DEFAULT_PRIORITY \<and> poll_upgrade (snd e) = None)
    \<and> (\<forall>t. get_priority s' t = map_option (\<lambda>_. DEFAULT_PRIORITY) (get_priority s t))
    \<and> release_replay_priorities_if_exhausted pending' s' = Some s'"
proof -
  define s0 where "s0 = (let s0 = s\<lparr>replay_priorities_released := True, replay_exhausted_allowance := (if pending then 1 else 0)\<rparr>
    in if record_logical_replay_priorities s0 then s0 else s0\<lparr>replay_exhausted_at := Some (recorded_event_count s0)\<rparr>)"
  have sel: "rs_queue s0 = rs_queue s" "priorities s0 = priorities s" "replay_priorities_released s0"
    by (simp_all add: s0_def Let_def)
  have eq: "release_replay_priorities_if_exhausted pending s = requeue_all DEFAULT_PRIORITY (map fst (priorities s0)) s0"
    using assms(1,2) by (simp add: release_replay_priorities_if_exhausted_def Let_def s0_def)
  have pre: "is_ordinary_priority DEFAULT_PRIORITY" "level {} DEFAULT_PRIORITY (rs_queue s0)" "rq_closed S (rs_queue s0)"
    "last_back_turn (rs_queue s0) + int (length (map fst (priorities s0))) < RUN_TIME_TURNS" "bm_ok (priorities s0)"
    using assms(3,4,6) by (simp_all add: is_ordinary_priority_def priority_defs level_def sel)
  obtain s' where s': "requeue_all DEFAULT_PRIORITY (map fst (priorities s0)) s0 = Some s'"
    "set (tids (queue (rs_queue s'))) = set (tids (queue (rs_queue s0)))"
    "level (set (map fst (priorities s0)) \<union> {}) DEFAULT_PRIORITY (rs_queue s')"
    "\<forall>t. bm_get (priorities s') t = (if t \<in> set (map fst (priorities s0)) then Some DEFAULT_PRIORITY else bm_get (priorities s0) t)"
    "s' = s0\<lparr>priorities := priorities s', rs_queue := rs_queue s'\<rparr>"
    using requeue_all_ok [OF pre(3,1,4,5,2)] by (elim exE conjE) (rule that)
  have "replay_priorities_released s'" using arg_cong [OF s'(5), of replay_priorities_released] sel(3) by simp
  moreover have "\<forall>e \<in> set (queue (rs_queue s')). po_priority (fst e) = DEFAULT_PRIORITY \<and> poll_upgrade (snd e) = None"
  proof
    fix e assume e: "e \<in> set (queue (rs_queue s'))"
    then have "qv_tid (snd e) \<in> set (tids (queue (rs_queue s')))" unfolding set_tids by (rule imageI)
    then have "qv_tid (snd e) \<in> set (tids (queue (rs_queue s0)))" by (simp only: s'(2))
    then have "qv_tid (snd e) \<in> set (map fst (priorities s0)) \<union> {}" using assms(5) by (auto simp: sel)
    then show "po_priority (fst e) = DEFAULT_PRIORITY \<and> poll_upgrade (snd e) = None"
      using s'(3) e unfolding level_def by blast
  qed
  moreover have "get_priority s' t = map_option (\<lambda>_. DEFAULT_PRIORITY) (get_priority s t)" for t
    using s'(4) bm_get_None_iff [of "priorities s" t] by (cases "bm_get (priorities s) t") (auto simp: get_priority_def sel)
  ultimately show ?thesis using eq s'(1,2) sel(1) by (simp add: release_replay_priorities_if_exhausted_def)
qed

theorem exhausted_replay_levels_priorities_witness:
  "\<exists>s'. release_replay_priorities_if_exhausted True (sample_sched (new_replayer [])) = Some s' \<and> replay_priorities_released s'
    \<and> set (tids (queue (rs_queue s'))) = set (tids (queue (rs_queue (sample_sched (new_replayer [])))))
    \<and> (\<forall>e \<in> set (queue (rs_queue s')). po_priority (fst e) = DEFAULT_PRIORITY \<and> poll_upgrade (snd e) = None)
    \<and> (\<forall>t. get_priority s' t = map_option (\<lambda>_. DEFAULT_PRIORITY) (get_priority (sample_sched (new_replayer [])) t))
    \<and> release_replay_priorities_if_exhausted False s' = Some s'"
proof (rule exhausted_replay_levels_priorities)
  show "rq_closed (set (snd (state_after SchedNone sample_queue))) (rs_queue (sample_sched (new_replayer [])))"
    using sample_queue_closed by simp
qed (code_simp+)

end
