(* ===== verification/Spec2Isabelle.thy ===== *)
theory Spec2Isabelle
  imports Run_Queue_Props Timed_Events_Props Global_Time Damerau Needleman Bubbles_Match Pedigree Fair_Continuation
    Namespaces Cpu_Set Replay_Props
begin

text \<open>
  Verification of hermit, which runs Linux programs deterministically.

  \<^bold>\<open>The program.\<close> Hermit intercepts the system calls of a guest (Detcore, crate \<open>detcore\<close>), gives one
  guest thread at a time a turn, and answers from virtual clocks and virtual identities what would
  otherwise come from the host. The scheduler (detcore/src/scheduler.rs) is the centre. It keeps the
  threads that may run in a run queue, the threads and timers that wait for a point of time among its
  timed events, and asks the global clock, which adds up the clocks of the threads, what time it is.
  When it replays a recorded schedule, it tells the replayer of every event, and the replayer answers which
  thread the record runs next; the scheduler then moves that thread to the front of the run queue. Past the
  end of a replayed schedule it can order the run queue by the time each thread has run. It also
  keeps the records from which virtual identities are answered: PID and user namespaces, the CPUs of
  each task, and the pedigrees from which ids and random streams of new threads are derived. Two
  recorded schedules are compared, and schedules in between are made, by the edit distance routines.

  \<^bold>\<open>The theories.\<close>

  \<^item> \<open>Prelude\<close>, \<open>BTree\<close>, \<open>Multimap\<close>, \<open>Vec\<close>: the Rust library as the code uses it. A function
    that can panic returns an \<open>option\<close>, \<open>None\<close> being the panic; a \<open>Result\<close> is a sum type. A \<open>u64\<close> is
    a natural number with the saturating, checked and panicking operations, a \<open>u32\<close> likewise; a bit mask is a \<open>word\<close>.
    \<open>BTreeMap\<close> and \<open>BTreeSet\<close> are sorted lists (locale \<open>finite_map\<close>, interpretation \<open>bm\<close>);
    a \<open>HashMap\<close> is an association list where its order of iteration could matter and a map elsewhere.
  \<^item> \<open>Protocol\<close>: the locale \<open>protocol_object\<close>. A component gives its calls, when each may be made,
    an invariant and an abstract specification of one call; the locale turns this into statements about
    every history of calls. Interpreted by the run queue (\<open>rq\<close>), the timed events (\<open>te\<close>), the
    global clock (\<open>gt\<close>), the fair continuation (\<open>fair\<close>), the PID and user namespaces (\<open>pn\<close>, \<open>un\<close>),
    the CPU affinities (\<open>ca\<close>) and the replay of a schedule (\<open>rp\<close>).
  \<^item> \<open>Run_Queue\<close> (detcore/src/scheduler/runqueue.rs): the queue, a map from (priority, turn) keys to
    threads, with its counters, the tentative selection and the yield state, and every operation.
    \<open>Run_Queue_Inv\<close>, \<open>Run_Queue_Ops\<close> and \<open>Run_Queue_Order\<close> prove the invariant and that no operation
    panics, \<open>Run_Queue_Select\<close> is about the selection, \<open>Run_Queue_Hist\<close> about histories, \<open>Run_Queue_Count\<close>
    about the counters along them, and \<open>Run_Queue_Props\<close> has the properties: safety of histories, refinement to a set of threads with one
    tentatively taken, fairness of yields and pollers, order, backoff and round trips.
  \<^item> \<open>Timed_Events\<close> (detcore/src/scheduler/timed_waiters.rs): sleeping threads, alarms, POSIX timers
    and their re-arming, controlled deadlines and child exits. \<open>Timed_Events_Inv\<close>, \<open>Timed_Events_Ops\<close>
    and \<open>Timed_Events_Hist\<close> prove the invariant and the effect of each call on the agenda, the set of
    dated events, and on the plan behind it, of which the agenda is a function;
    \<open>Timed_Events_Props\<close> has the properties: safety, refinement of the plan, order of
    pops, termination of draining with periodic timers, and the grid of a timer.
  \<^item> \<open>Logical_Time\<close>, \<open>Det_Time\<close>, \<open>Global_Time\<close> (detcore-model/src/time.rs and the turn charge of
    config.rs): points of time, the counters of a thread and the sum over threads. Shown: clocks are
    monotone, no history panics, exec and exit neither lose nor double count work, a turn that would
    overflow the clock is refused and changes nothing.
  \<^item> \<open>Schedule_Event\<close> (detcore-model/src/schedule.rs and collections/replay_cursor.rs, and the comparisons
    of detcore/src/scheduler/replayer.rs): recorded events, the cursor over them, and when an observed event
    is a desync. \<open>Replayer\<close> (replayer.rs): the state of a replay and every operation on it;
    \<open>observe_event\<close> is split at its branches. \<open>Replayer_Correct\<close> has the invariant, which ties the cursor and
    the waiting background starts to the position in the record, and the effect of each branch;
    \<open>Replayer_Hist\<close> joins them for a whole event and for histories; \<open>Replayer_Follow\<close> is about a run that
    follows its record and about giving a record up.
  \<^item> \<open>Replay_Sched\<close> (\<open>consume_schedevent\<close>, \<open>record_or_replay_background_start\<close>,
    \<open>release_replay_priorities_if_exhausted\<close>, \<open>wake_due_replay_target\<close> and what they call in scheduler.rs): the
    steps that join the models of the replay, of the run queue and of the timed events.
    \<open>Replay_Sched_Props\<close> proves what they do to the queue, and \<open>Replay_Props\<close> has the properties: no
    history panics and the starts are accounted for; a run that follows its record gets every recorded
    decision back, and the run queue then selects the recorded thread; an event consumes only a recorded
    event it agrees with; a schedule that no longer matches is given up in bounded time, and at its end all
    threads have the same priority.
  \<^item> \<open>Fair_Continuation\<close> (detcore/src/scheduler/fair_continuation.rs, and \<open>order_continuation_fairly\<close>
    and the end of \<open>bump_global_time\<close> in scheduler.rs): the accounts, and the steps that join them to the
    models of the global clock and of the run queue. Shown: the floor and the accounts along every history,
    that the queue is left in the order of run times, and that the moment a first clock report
    arrives does not matter.
  \<^item> \<open>Namespaces\<close> (detcore/src/scheduler/pid_namespaces.rs and user_namespaces.rs): the records and
    translations. Shown: the two translations of pids are inverse, and the relation of two user
    namespaces is the one of the tree of namespaces.
  \<^item> \<open>Cpu_Set\<close> (detcore/src/cpu_set.rs, syscalls/affinity.rs, the handlers of \<open>sched_setaffinity\<close>,
    \<open>sched_getaffinity\<close> and \<open>getcpu\<close>, and the scheduler's tables): CPU masks as words, and the system
    calls on top of them and of \<open>Namespaces\<close>. Shown: what a call changes and what it reports, along every
    history; masks in memory are read back, printed lists name the set in maximal ranges.
  \<^item> \<open>Pedigree\<close> (detcore-model/src/pedigree.rs, and \<open>thread_rng_from_parent_pedigree\<close> of
    detcore/src/tool_local.rs): the layout of virtual pids and the input of the hash that seeds a child.
  \<^item> \<open>Fenwick\<close> (locale \<open>mark_counter\<close>, interpretation \<open>fenwick\<close>), \<open>Bubbles\<close>, \<open>Bubble_Sort\<close>,
    \<open>Bubbles_Correct\<close>, \<open>Bubbles_Match\<close> (detcore/src/edit_distance/bubbles.rs): the permutation of two
    schedules and the iterator over its bubble sort. Shown: the iterator refines a bubble sort that makes
    one swap at a time, and its length is the least number of swaps.
  \<^item> \<open>Damerau\<close> (damerau_levenshtein.rs, kendall_tau.rs) and \<open>Needleman\<close> (needleman_wunsch.rs):
    the distance is that of an edit script; the alignment is the one of a reference dynamic program.

  \<^bold>\<open>Bounds, fuel and parameters.\<close> There is no fuel: recursions are structural or have a termination
  proof. The loop of \<open>longest_common_prefix\<close>, which does not end on equal slices, is a partial function,
  and where it ends is a theorem. The histories of the run queue queue fewer than \<open>2 ^ 61\<close> entries at the
  back, where its turn numbers would meet the band of run time turns, and count no yield on a streak of
  \<open>2 ^ 32 - 1\<close>, where that counter would panic; its other counters, and the turns in the band of run time
  turns, are unbounded numbers, of which the turn and upgrade counters are shown not to pass the number of
  calls made. The desync counters of the replay are unbounded numbers too. Selections of a continuation and
  user namespaces are fewer than \<open>2 ^ 64\<close>, where the counter would panic, and so are the events of a record
  and of its replay together. The number of virtual CPUs is from 1 to 128, as the option parser enforces. The random generator of the run queue is a parameter of which
  \<open>rng_in_range\<close> is assumed; floating point rounding is a parameter of which \<open>rounding\<close> is assumed,
  properties of round-to-nearest. SHA-256, the generator seeded from it, and the guest's memory are
  parameters of which nothing is assumed.

  \<^bold>\<open>Not modelled.\<close> Of scheduler.rs only the parts named above: the rest of the turn protocol, waits,
  signal delivery, exec and exit work on locks, channels and kernel state. The replay is the one of a schedule of events; the
  boundary records, the recording of a schedule, its file format, and the stack traces printed at
  requested events are not modelled. Whether a task is found and
  which threads of a process are alive are therefore inputs of the affinity calls. Not modelled either:
  the RPC layer (tool_global.rs), the interception of guest events
  (tool_local.rs), the other system call handlers and the views of /proc, which inject calls into the
  host kernel and rewrite its answers; the reading of \<open>NSpid\<close> from /proc, which is an input of the record;
  the command line, the recorder and replayer of system calls, the ptrace, KVM and instrumentation
  backends, and the tools for tests. Serialization, log messages and the texts of errors are left out.
\<close>

end
